(* ===== verification/Prelude.thy ===== *)
theory Prelude
  imports Main "HOL-Library.Word"
begin

text \<open>
  The vocabulary the components share: C++ strings as byte lists with the searches and cuts
  of \<^verbatim>\<open>std::string\<close>, the character classes of \<^verbatim>\<open><cctype>\<close> in the C locale,
  decimal printing (\<^verbatim>\<open>std::to_string\<close>) and reading (\<^verbatim>\<open>strtoul\<close>, \<^verbatim>\<open>strtol\<close>
  and the throwing wrappers \<^verbatim>\<open>std::stoul\<close>, \<^verbatim>\<open>std::stoi\<close>), C++ exceptions as values,
  the forward scan loop, and their lemmas. \<^verbatim>\<open>std::size_t\<close> is 64 bits wide.
\<close>

section \<open>Types\<close>

type_synonym fd = int
type_synonym errno = int

text \<open>What a C++ expression may throw.\<close>

datatype cpp_exn =
    Invalid_argument
  | Out_of_range
  | Runtime_error string
  | System_error errno

type_synonym 'a result = "cpp_exn + 'a"

abbreviation throw :: "cpp_exn \<Rightarrow> 'a result" where
  "throw e \<equiv> Inl e"

abbreviation return :: "'a \<Rightarrow> 'a result" where
  "return x \<equiv> Inr x"

named_theorems cstr \<open>facts on string searches, scans and cuts\<close>
named_theorems decimal \<open>facts on decimal printing and reading\<close>

definition size_max :: nat where
  "size_max = 2 ^ 64"

text \<open>Addition on \<^verbatim>\<open>std::size_t\<close>.\<close>

definition size_add :: "nat \<Rightarrow> nat \<Rightarrow> nat" where
  "size_add a b = (a + b) mod size_max"

section \<open>Characters\<close>

definition CR :: char where "CR = CHR 0x0D"
definition LF :: char where "LF = CHR 0x0A"

definition CRLF :: string where
  "CRLF = [CR, LF]"

definition CRLFCRLF :: string where
  "CRLFCRLF = [CR, LF, CR, LF]"

text \<open>\<^verbatim>\<open>std::isspace\<close> and \<^verbatim>\<open>std::tolower\<close> in the C locale.\<close>

definition isspace :: "char \<Rightarrow> bool" where
  "isspace c = (c = CHR '' '' \<or> (9 \<le> (of_char c :: nat) \<and> (of_char c :: nat) \<le> 13))"

definition tolower :: "char \<Rightarrow> char" where
  "tolower c = (if 65 \<le> (of_char c :: nat) \<and> (of_char c :: nat) \<le> 90
     then char_of ((of_char c :: nat) + 32) else c)"

definition isdigit :: "char \<Rightarrow> bool" where
  "isdigit c = (48 \<le> (of_char c :: nat) \<and> (of_char c :: nat) \<le> 57)"

definition digit_val :: "char \<Rightarrow> nat" where
  "digit_val c = (of_char c :: nat) - 48"

definition digit_char :: "nat \<Rightarrow> char" where
  "digit_char d = char_of (48 + d)"

section \<open>String searches and cuts\<close>

text \<open>
  \<^verbatim>\<open>s.find(c, pos)\<close> and \<^verbatim>\<open>s.find(p, pos)\<close>; \<open>None\<close> is \<^verbatim>\<open>std::string::npos\<close>.
\<close>

primrec find_char_at :: "char \<Rightarrow> nat \<Rightarrow> string \<Rightarrow> nat option" where
  "find_char_at c i [] = None"
| "find_char_at c i (x # xs) = (if x = c then Some i else find_char_at c (Suc i) xs)"

definition str_find_char :: "char \<Rightarrow> string \<Rightarrow> nat \<Rightarrow> nat option" where
  "str_find_char c s pos = find_char_at c pos (drop pos s)"

primrec find_str_at :: "string \<Rightarrow> nat \<Rightarrow> string \<Rightarrow> nat option" where
  "find_str_at p i [] = (if p = [] then Some i else None)"
| "find_str_at p i (x # xs) =
     (if take (length p) (x # xs) = p then Some i else find_str_at p (Suc i) xs)"

definition str_find :: "string \<Rightarrow> string \<Rightarrow> nat \<Rightarrow> nat option" where
  "str_find p s pos = (if pos \<le> length s then find_str_at p pos (drop pos s) else None)"

text \<open>\<^verbatim>\<open>s.find_last_of(c)\<close>.\<close>

definition str_rfind_char :: "char \<Rightarrow> string \<Rightarrow> nat option" where
  "str_rfind_char c s =
     (case find_char_at c 0 (rev s) of None \<Rightarrow> None | Some k \<Rightarrow> Some (length s - 1 - k))"

text \<open>\<^verbatim>\<open>s.substr(pos, n)\<close> for \<open>pos \<le> length s\<close>, and \<^verbatim>\<open>s.find(p) != npos\<close>.\<close>

definition substr :: "string \<Rightarrow> nat \<Rightarrow> nat \<Rightarrow> string" where
  "substr s pos n = take n (drop pos s)"

definition contains :: "string \<Rightarrow> string \<Rightarrow> bool" where
  "contains s p = (str_find p s 0 \<noteq> None)"

text \<open>The loop \<^verbatim>\<open>while (pos < s.size() && P(s[pos])) ++pos;\<close>.\<close>

function scan_while :: "(char \<Rightarrow> bool) \<Rightarrow> string \<Rightarrow> nat \<Rightarrow> nat" where
  "scan_while P s pos =
     (if pos < length s \<and> P (s ! pos) then scan_while P s (Suc pos) else pos)"
  by pat_completeness auto
termination
  by (relation "measure (\<lambda>(P, s, pos). length s - pos)") auto

declare scan_while.simps [simp del]

text \<open>The conversion of a \<^verbatim>\<open>size_t\<close> to \<^verbatim>\<open>int\<close>.\<close>

definition cast_int :: "nat \<Rightarrow> int" where
  "cast_int n = sint (of_nat n :: 32 word)"

section \<open>Decimal numbers\<close>

text \<open>\<^verbatim>\<open>std::to_string\<close> on unsigned and signed values.\<close>

fun to_string :: "nat \<Rightarrow> string" where
  "to_string n = (if n < 10 then [digit_char n] else to_string (n div 10) @ [digit_char (n mod 10)])"

declare to_string.simps [simp del]

definition int_to_string :: "int \<Rightarrow> string" where
  "int_to_string n = (if n < 0 then CHR ''-'' # to_string (nat (- n)) else to_string (nat n))"

text \<open>The value of a run of digits, most significant first.\<close>

definition digits_val :: "string \<Rightarrow> nat" where
  "digits_val ds = foldl (\<lambda>acc c. 10 * acc + digit_val c) 0 ds"

text \<open>
  The scan of \<^verbatim>\<open>strtol\<close> and \<^verbatim>\<open>strtoul\<close> in base 10: skip white space, an optional
  sign, the longest run of digits; what follows is ignored. \<open>None\<close> when there is no digit.
\<close>

definition strto_scan :: "string \<Rightarrow> (bool \<times> nat) option" where
  "strto_scan s =
     (let t = dropWhile isspace s;
          neg = (t \<noteq> [] \<and> hd t = CHR ''-'');
          u = (if t \<noteq> [] \<and> (hd t = CHR ''-'' \<or> hd t = CHR ''+'') then tl t else t);
          ds = takeWhile isdigit u
      in if ds = [] then None else Some (neg, digits_val ds))"

text \<open>
  \<^verbatim>\<open>std::stoul\<close>: a magnitude that does not fit 64 bits throws \<^verbatim>\<open>out_of_range\<close>; a
  minus sign negates the magnitude modulo \<open>2 ^ 64\<close>.
\<close>

definition stoul :: "string \<Rightarrow> nat result" where
  "stoul s = (case strto_scan s of
       None \<Rightarrow> throw Invalid_argument
     | Some (neg, n) \<Rightarrow>
         if size_max \<le> n then throw Out_of_range
         else return (if neg then (size_max - n) mod size_max else n))"

text \<open>\<^verbatim>\<open>std::stoi\<close>: a value outside \<^verbatim>\<open>int\<close> throws \<^verbatim>\<open>out_of_range\<close>.\<close>

definition stoi :: "string \<Rightarrow> int result" where
  "stoi s = (case strto_scan s of
       None \<Rightarrow> throw Invalid_argument
     | Some (neg, n) \<Rightarrow>
         (let v = (if neg then - int n else int n)
          in if v < - (2 ^ 31) \<or> 2 ^ 31 \<le> v then throw Out_of_range else return v))"

text \<open>\<^verbatim>\<open>atoi\<close>: the scan of \<^verbatim>\<open>strtol\<close>, saturated to 64 bits and converted to \<^verbatim>\<open>int\<close>.\<close>

definition atoi :: "string \<Rightarrow> int" where
  "atoi s =
     (case strto_scan s of
        None \<Rightarrow> 0
      | Some (neg, m) \<Rightarrow>
          sint (word_of_int (max (- (2 ^ 63)) (min (2 ^ 63 - 1) (if neg then - int m else int m))) :: 32 word))"

section \<open>Lemmas on searches\<close>

lemma find_char_at_Some_iff:
  "find_char_at c i xs = Some k \<longleftrightarrow>
     i \<le> k \<and> k - i < length xs \<and> xs ! (k - i) = c \<and> c \<notin> set (take (k - i) xs)"
proof (induction xs arbitrary: i)
  case Nil
  then show ?case by simp
next
  case (Cons x xs)
  show ?case
  proof (cases "x = c")
    case True
    then show ?thesis by (cases "k - i") auto
  next
    case False
    then show ?thesis
      by (cases "k - i") (auto simp: Cons.IH Suc_le_eq, (simp add: diff_Suc split: nat.splits)+)
  qed
qed

lemma find_char_at_None_iff: "find_char_at c i xs = None \<longleftrightarrow> c \<notin> set xs"
  by (induction xs arbitrary: i) auto

lemma str_find_char_None_iff [cstr]: "str_find_char c s pos = None \<longleftrightarrow> c \<notin> set (drop pos s)"
  by (simp add: str_find_char_def find_char_at_None_iff)

lemma str_find_char_SomeD:
  assumes "str_find_char c s pos = Some k"
  shows "pos \<le> k" "k < length s" "s ! k = c" "c \<notin> set (take (k - pos) (drop pos s))"
proof -
  from assms have k: "pos \<le> k" "k - pos < length s - pos" "drop pos s ! (k - pos) = c"
      "c \<notin> set (take (k - pos) (drop pos s))"
    by (auto simp: str_find_char_def find_char_at_Some_iff)
  then show "pos \<le> k" "c \<notin> set (take (k - pos) (drop pos s))" by simp_all
  from k have "k < length s" by linarith
  with k show "k < length s" "s ! k = c" by (auto simp: nth_drop)
qed

lemma find_char_at_prefix:
  "c \<notin> set u \<Longrightarrow> find_char_at c i (u @ c # r) = Some (i + length u)"
  by (induction u arbitrary: i) auto

lemma str_find_char_prefix [cstr]:
  "c \<notin> set u \<Longrightarrow> str_find_char c (u @ c # r) 0 = Some (length u)"
  by (simp add: str_find_char_def find_char_at_prefix)

text \<open>The pattern \<open>p\<close> stands in \<open>s\<close> at index \<open>k\<close>.\<close>

definition occurs_at :: "string \<Rightarrow> string \<Rightarrow> nat \<Rightarrow> bool" where
  "occurs_at p s k = (take (length p) (drop k s) = p)"

lemma occurs_at_bound: "occurs_at p s k \<Longrightarrow> p \<noteq> [] \<Longrightarrow> k + length p \<le> length s"
proof -
  assume occ: "occurs_at p s k" and "p \<noteq> []"
  from occ have "length (take (length p) (drop k s)) = length p"
    by (simp add: occurs_at_def)
  then have "min (length s - k) (length p) = length p" by simp
  with \<open>p \<noteq> []\<close> show "k + length p \<le> length s"
    by (metis add.commute length_greater_0_conv less_diff_conv2 less_or_eq_imp_le min.cobounded1
        nat_le_linear diff_is_0_eq le_diff_conv2 le_zero_eq not_less)
qed

lemma find_str_at_Some_iff:
  assumes "p \<noteq> []"
  shows "find_str_at p i xs = Some k \<longleftrightarrow>
     i \<le> k \<and> occurs_at p xs (k - i) \<and> (\<forall>j < k - i. \<not> occurs_at p xs j)"
proof (induction xs arbitrary: i)
  case Nil
  then show ?case using assms by (simp add: occurs_at_def)
next
  case (Cons x xs)
  show ?case
  proof (cases "occurs_at p (x # xs) 0")
    case True
    then have "find_str_at p i (x # xs) = Some i" by (simp add: occurs_at_def)
    with True show ?thesis by (auto intro: ccontr)
  next
    case False
    then have "find_str_at p i (x # xs) = find_str_at p (Suc i) xs"
      by (simp add: occurs_at_def)
    moreover have "(\<forall>j < k - i. \<not> occurs_at p (x # xs) j) \<and> i \<le> k \<and> occurs_at p (x # xs) (k - i)
      \<longleftrightarrow> Suc i \<le> k \<and> occurs_at p xs (k - Suc i) \<and> (\<forall>j < k - Suc i. \<not> occurs_at p xs j)"
    proof (cases "k - i")
      case 0
      with False show ?thesis by auto
    next
      case (Suc d)
      then have "k - Suc i = d" and "Suc i \<le> k" and "i \<le> k" by auto
      with Suc False show ?thesis
        by (auto simp: less_Suc_eq_0_disj) (auto simp: occurs_at_def)
    qed
    ultimately show ?thesis by (auto simp: Cons.IH)
  qed
qed

lemma str_find_Some_iff:
  assumes "p \<noteq> []"
  shows "str_find p s pos = Some k \<longleftrightarrow>
     pos \<le> k \<and> occurs_at p s k \<and> (\<forall>j. pos \<le> j \<and> j < k \<longrightarrow> \<not> occurs_at p s j)"
proof -
  have shift: "occurs_at p (drop pos s) j = occurs_at p s (pos + j)" for j
    by (simp add: occurs_at_def add.commute)
  show ?thesis
  proof (cases "pos \<le> length s")
    case True
    then have "str_find p s pos = Some k \<longleftrightarrow>
        pos \<le> k \<and> occurs_at p s (pos + (k - pos)) \<and> (\<forall>j < k - pos. \<not> occurs_at p s (pos + j))"
      by (simp add: str_find_def find_str_at_Some_iff [OF assms] shift)
    also have "\<dots> \<longleftrightarrow>
        pos \<le> k \<and> occurs_at p s k \<and> (\<forall>j. pos \<le> j \<and> j < k \<longrightarrow> \<not> occurs_at p s j)"
    proof (cases "pos \<le> k")
      case True
      have "(\<forall>j < k - pos. \<not> occurs_at p s (pos + j)) \<longleftrightarrow>
          (\<forall>j. pos \<le> j \<and> j < k \<longrightarrow> \<not> occurs_at p s j)"
        by (metis le_add1 le_add_diff_inverse less_diff_conv2 add.commute True less_diff_conv)
      with True show ?thesis by simp
    qed simp
    finally show ?thesis .
  next
    case False
    then show ?thesis using occurs_at_bound [OF _ assms, of s k]
      by (auto simp: str_find_def)
  qed
qed

lemma str_find_None_iff:
  assumes "p \<noteq> []"
  shows "str_find p s pos = None \<longleftrightarrow> (\<forall>j \<ge> pos. \<not> occurs_at p s j)"
proof
  assume "str_find p s pos = None"
  show "\<forall>j \<ge> pos. \<not> occurs_at p s j"
  proof (rule ccontr)
    assume "\<not> (\<forall>j \<ge> pos. \<not> occurs_at p s j)"
    then obtain j where "pos \<le> j \<and> occurs_at p s j" by auto
    then have "\<exists>k. (pos \<le> k \<and> occurs_at p s k) \<and> (\<forall>j < k. \<not> (pos \<le> j \<and> occurs_at p s j))"
      using exists_least_iff [of "\<lambda>j. pos \<le> j \<and> occurs_at p s j"] by blast
    then obtain k where "str_find p s pos = Some k"
      using str_find_Some_iff [OF assms, of s pos] by blast
    with \<open>str_find p s pos = None\<close> show False by simp
  qed
next
  assume "\<forall>j \<ge> pos. \<not> occurs_at p s j"
  then show "str_find p s pos = None"
    using str_find_Some_iff [OF assms, of s pos] by (cases "str_find p s pos") auto
qed

lemma occurs_at_append:
  "k + length p \<le> length s \<Longrightarrow> occurs_at p (s @ t) k = occurs_at p s k"
  by (simp add: occurs_at_def)

lemma occurs_at_take:
  "k + length p \<le> n \<Longrightarrow> occurs_at p (take n s) k = occurs_at p s k"
  by (simp add: occurs_at_def drop_take min_def)

lemma occurs_at_skip: "occurs_at p (u @ s) (length u + k) = occurs_at p s k"
  by (simp add: occurs_at_def)

text \<open>A match found in a string is still the first one after more bytes are appended.\<close>

lemma str_find_append [cstr]:
  assumes "p \<noteq> []" "str_find p s pos = Some k"
  shows "str_find p (s @ t) pos = Some k"
proof -
  from assms have k: "pos \<le> k" "occurs_at p s k" "\<forall>j. pos \<le> j \<and> j < k \<longrightarrow> \<not> occurs_at p s j"
    by (simp_all add: str_find_Some_iff)
  then have bound: "k + length p \<le> length s" using occurs_at_bound assms(1) by blast
  have "\<not> occurs_at p (s @ t) j" if "pos \<le> j" "j < k" for j
    using that k(3) bound by (simp add: occurs_at_append)
  with k bound show ?thesis
    using assms(1) by (simp add: str_find_Some_iff occurs_at_append)
qed

lemma str_find_bound:
  assumes "p \<noteq> []" "str_find p s pos = Some k"
  shows "pos \<le> k" "k + length p \<le> length s"
  using assms occurs_at_bound by (auto simp: str_find_Some_iff)

lemma str_find_skip [cstr]:
  assumes "p \<noteq> []" "\<And>j. j < length u \<Longrightarrow> \<not> occurs_at p (u @ s) j"
  shows "str_find p (u @ s) 0 = map_option ((+) (length u)) (str_find p s 0)"
proof (cases "str_find p s 0")
  case None
  then have no: "\<not> occurs_at p s j" for j using assms(1) by (simp add: str_find_None_iff)
  have "\<not> occurs_at p (u @ s) j" for j
  proof (cases "j < length u")
    case True
    then show ?thesis by (rule assms(2))
  next
    case False
    then have "occurs_at p (u @ s) j = occurs_at p s (j - length u)"
      using occurs_at_skip [of p u s "j - length u"] by simp
    with no show ?thesis by simp
  qed
  then have "str_find p (u @ s) 0 = None" using assms(1) by (simp add: str_find_None_iff)
  with None show ?thesis by simp
next
  case (Some k)
  then have k: "occurs_at p s k" "\<And>j. j < k \<Longrightarrow> \<not> occurs_at p s j"
    using assms(1) by (simp_all add: str_find_Some_iff)
  have "\<not> occurs_at p (u @ s) j" if "j < length u + k" for j
  proof (cases "j < length u")
    case True
    then show ?thesis by (rule assms(2))
  next
    case False
    with that k(2) [of "j - length u"] occurs_at_skip [of p u s "j - length u"]
    show ?thesis by simp
  qed
  with k have "str_find p (u @ s) 0 = Some (length u + k)"
    using assms(1) by (simp add: str_find_Some_iff occurs_at_skip)
  with Some show ?thesis by simp
qed

lemma occurs_at_hd:
  "occurs_at p s k \<Longrightarrow> p \<noteq> [] \<Longrightarrow> k < length s \<and> s ! k = hd p"
  using occurs_at_bound [of p s k]
  by (cases p) (auto simp: occurs_at_def take_Suc_conv_app_nth hd_drop_conv_nth Cons_nth_drop_Suc [symmetric]
      simp flip: drop_drop split: if_splits)

lemma str_find_clean [cstr]:
  assumes "p \<noteq> []" "hd p \<notin> set u"
  shows "str_find p (u @ s) 0 = map_option ((+) (length u)) (str_find p s 0)"
proof (rule str_find_skip [OF assms(1)])
  fix j assume "j < length u"
  show "\<not> occurs_at p (u @ s) j"
  proof
    assume "occurs_at p (u @ s) j"
    with occurs_at_hd [OF _ assms(1)] have "(u @ s) ! j = hd p" by blast
    with \<open>j < length u\<close> have "u ! j = hd p" by (simp add: nth_append)
    with \<open>j < length u\<close> assms(2) show False by (metis nth_mem)
  qed
qed

lemma str_find_here [cstr]: "p \<noteq> [] \<Longrightarrow> str_find p (p @ s) 0 = Some 0"
  by (simp add: str_find_Some_iff occurs_at_def)

lemma find_str_at_offset:
  "find_str_at p (i + j) xs = map_option ((+) i) (find_str_at p j xs)"
proof (induction xs arbitrary: j)
  case Nil
  then show ?case by simp
next
  case (Cons x xs)
  from Cons.IH [of "Suc j"] show ?case by simp
qed

text \<open>Searching from the end of a prefix is searching the rest.\<close>

lemma str_find_from [cstr]:
  "str_find p (u @ s) (length u) = map_option ((+) (length u)) (str_find p s 0)"
  using find_str_at_offset [of p "length u" 0 s] by (simp add: str_find_def)

lemma CRLF_simps [simp]:
  "CRLF \<noteq> []" "CRLFCRLF \<noteq> []" "hd CRLF = CR" "hd CRLFCRLF = CR"
  "length CRLF = 2" "length CRLFCRLF = 4" "CR \<noteq> LF" "LF \<noteq> CR"
  by (simp_all add: CRLF_def CRLFCRLF_def CR_def LF_def)

lemma CRLFCRLF_split: "CRLFCRLF = CRLF @ CRLF"
  by (simp add: CRLF_def CRLFCRLF_def)

lemma str_find_CRLF [cstr]: "CR \<notin> set u \<Longrightarrow> str_find CRLF (u @ CRLF @ s) 0 = Some (length u)"
  by (simp add: cstr)

text \<open>
  A block of non-empty lines free of carriage returns, each ended by CRLF, followed by an
  empty line: the first CRLFCRLF is the end of the block.
\<close>

definition line_ok :: "string \<Rightarrow> bool" where
  "line_ok l = (l \<noteq> [] \<and> CR \<notin> set l)"

definition line_block :: "string list \<Rightarrow> string" where
  "line_block ls = concat (map (\<lambda>l. l @ CRLF) ls)"

lemma line_block_simps [simp]:
  "line_block [] = []" "line_block (l # ls) = l @ CRLF @ line_block ls"
  "line_block (ls @ ms) = line_block ls @ line_block ms"
  by (simp_all add: line_block_def)

lemma no_blank_line_after:
  assumes "line_ok l" "x \<noteq> CR"
  shows "str_find CRLFCRLF (l @ CRLF @ x # s) 0 =
    map_option ((+) (length l + 2)) (str_find CRLFCRLF (x # s) 0)"
proof -
  from assms(1) have "CR \<notin> set l" by (simp add: line_ok_def)
  then have "str_find CRLFCRLF (l @ CRLF @ x # s) 0 =
      map_option ((+) (length l)) (str_find CRLFCRLF (CRLF @ x # s) 0)"
    by (simp add: str_find_clean)
  also have "str_find CRLFCRLF (CRLF @ x # s) 0 =
      map_option ((+) 2) (str_find CRLFCRLF (x # s) 0)"
  proof -
    have "\<not> occurs_at CRLFCRLF (CRLF @ x # s) j" if "j < length CRLF" for j
      using that assms(2)
      by (cases j) (auto simp: occurs_at_def CRLF_def CRLFCRLF_def CR_def LF_def)
    then show ?thesis using str_find_skip [of CRLFCRLF CRLF "x # s"] by simp
  qed
  finally show ?thesis by (cases "str_find CRLFCRLF (x # s) 0") simp_all
qed

lemma str_find_line_block:
  assumes "ls \<noteq> []" "\<forall>l \<in> set ls. line_ok l"
  shows "str_find CRLFCRLF (line_block ls @ CRLF @ s) 0 = Some (length (line_block ls) - 2)"
  using assms
proof (induction ls)
  case Nil
  then show ?case by simp
next
  case (Cons l ls)
  then have l: "line_ok l" "CR \<notin> set l" by (auto simp: line_ok_def)
  show ?case
  proof (cases ls)
    case Nil
    have "str_find CRLFCRLF (l @ CRLFCRLF @ s) 0 = Some (length l)"
      using l(2) by (simp add: cstr)
    with Nil show ?thesis by (simp add: CRLFCRLF_split)
  next
    case (Cons m ms)
    with Cons.prems have m: "m \<noteq> []" "CR \<notin> set m" by (auto simp: line_ok_def)
    then obtain x u where x: "line_block ls @ CRLF @ s = x # u" "x \<noteq> CR"
      using Cons by (cases m) auto
    have "str_find CRLFCRLF (line_block (l # ls) @ CRLF @ s) 0 =
        map_option ((+) (length l + 2)) (str_find CRLFCRLF (line_block ls @ CRLF @ s) 0)"
      using no_blank_line_after [OF l(1) x(2), of u] x(1) by simp
    also have "\<dots> = map_option ((+) (length l + 2)) (Some (length (line_block ls) - 2))"
      using Cons.IH Cons.prems Cons by simp
    also have "\<dots> = Some (length (line_block (l # ls)) - 2)"
      using Cons by simp
    finally show ?thesis .
  qed
qed

section \<open>Lemmas on scans and decimal numbers\<close>

lemma scan_while_eq [cstr]:
  "pos \<le> length s \<Longrightarrow> scan_while P s pos = pos + length (takeWhile P (drop pos s))"
proof (induction P s pos rule: scan_while.induct)
  case (1 P s pos)
  show ?case
  proof (cases "pos < length s \<and> P (s ! pos)")
    case True
    then have "drop pos s = s ! pos # drop (Suc pos) s" by (simp add: Cons_nth_drop_Suc)
    with True "1.IH" show ?thesis by (subst scan_while.simps) simp
  next
    case False
    then have "takeWhile P (drop pos s) = []"
      by (cases "drop pos s") (auto simp: drop_eq_Nil hd_drop_conv_nth [symmetric]
        takeWhile_eq_Nil_iff simp del: drop_eq_Nil)
    with False show ?thesis by (subst scan_while.simps) auto
  qed
qed

lemma scan_while_le: "pos \<le> length s \<Longrightarrow> scan_while P s pos \<le> length s"
  using length_takeWhile_le [of P "drop pos s"] by (simp add: scan_while_eq)

lemma digit_char_simps [simp]:
  assumes "d < 10"
  shows "digit_val (digit_char d) = d" "isdigit (digit_char d)" "\<not> isspace (digit_char d)"
    "digit_char d \<noteq> CR" "digit_char d \<noteq> LF" "digit_char d \<noteq> CHR ''-''" "digit_char d \<noteq> CHR ''+''"
proof -
  have "(of_char (digit_char d) :: nat) = 48 + d"
    using assms by (simp add: digit_char_def)
  then show "digit_val (digit_char d) = d" "isdigit (digit_char d)" "\<not> isspace (digit_char d)"
    "digit_char d \<noteq> CR" "digit_char d \<noteq> LF" "digit_char d \<noteq> CHR ''-''" "digit_char d \<noteq> CHR ''+''"
    using assms by (auto simp: digit_val_def isdigit_def isspace_def CR_def LF_def)
qed

lemma to_string_nonempty [simp]: "to_string n \<noteq> []"
  by (subst to_string.simps) simp

lemma to_string_digits: "c \<in> set (to_string n) \<Longrightarrow> \<exists>d < 10. c = digit_char d"
proof (induction n rule: to_string.induct)
  case (1 n)
  show ?case
  proof (cases "n < 10")
    case True
    with "1.prems" show ?thesis by (subst (asm) to_string.simps) auto
  next
    case False
    with "1.prems" have "c \<in> set (to_string (n div 10)) \<or> c = digit_char (n mod 10)"
      by (subst (asm) to_string.simps) auto
    moreover have "n mod 10 < 10" by simp
    ultimately show ?thesis using "1.IH" False by blast
  qed
qed

lemma digits_val_snoc: "digits_val (ds @ [c]) = 10 * digits_val ds + digit_val c"
  by (simp add: digits_val_def)

lemma digits_val_to_string [decimal]: "digits_val (to_string n) = n"
proof (induction n rule: to_string.induct)
  case (1 n)
  show ?case
  proof (cases "n < 10")
    case True
    then show ?thesis by (subst to_string.simps) (simp add: digits_val_def)
  next
    case False
    then have "digits_val (to_string n) = 10 * digits_val (to_string (n div 10)) + n mod 10"
      by (subst to_string.simps) (simp add: digits_val_snoc)
    also have "\<dots> = n" using "1.IH" False by simp
    finally show ?thesis .
  qed
qed

lemma to_string_isdigit: "\<forall>c \<in> set (to_string n). isdigit c"
  using to_string_digits by (metis digit_char_simps(2))

lemma to_string_clean [simp]: "CR \<notin> set (to_string n)" "LF \<notin> set (to_string n)"
  using to_string_digits digit_char_simps(4,5) by metis+

lemma to_string_hd: "\<exists>d < 10. hd (to_string n) = digit_char d"
  using to_string_digits [of "hd (to_string n)" n] by simp

lemma strto_scan_to_string [decimal]:
  assumes "\<forall>c \<in> set (take 1 r). \<not> isdigit c"
  shows "strto_scan (to_string n @ r) = Some (False, n)"
proof -
  obtain d where d: "d < 10" "hd (to_string n) = digit_char d" using to_string_hd by blast
  then obtain ds where ds: "to_string n = digit_char d # ds"
    by (metis list.collapse to_string_nonempty)
  have "takeWhile isdigit (to_string n @ r) = to_string n"
    using assms to_string_isdigit [of n] by (cases r) (simp_all add: takeWhile_append)
  moreover have "dropWhile isspace (to_string n @ r) = to_string n @ r"
    using d(1) by (simp add: ds)
  ultimately show ?thesis
    using d(1) by (simp add: strto_scan_def ds Let_def) (simp add: digits_val_to_string flip: ds)
qed

lemma stoul_to_string [decimal]: "n < size_max \<Longrightarrow> stoul (to_string n) = return n"
  using strto_scan_to_string [of "[]" n] by (simp add: stoul_def)

lemma stoul_bound: "stoul s = return n \<Longrightarrow> n < size_max"
  by (auto simp: stoul_def size_max_def split: option.splits if_splits)

lemma stoi_to_string [decimal]: "n < 2 ^ 31 \<Longrightarrow> stoi (to_string n) = return (int n)"
  using strto_scan_to_string [of "[]" n] by (simp add: stoi_def)

section \<open>Positions modulo a length\<close>

lemma add_mod_inj:
  fixes a i j c :: nat
  assumes "(a + i) mod c = (a + j) mod c" "i < c" "j < c"
  shows "i = j"
proof -
  have "int (a + i) mod int c = int (a + j) mod int c"
    using assms(1) by (simp only: of_nat_mod [symmetric])
  then have "int c dvd int i - int j" by (simp add: mod_eq_dvd_iff)
  then show ?thesis using assms(2,3) dvd_imp_le_int [of "int i - int j" "int c"] by fastforce
qed

lemma cast_int_small: "k < 2 ^ 31 \<Longrightarrow> cast_int k = int k"
proof -
  assume "k < 2 ^ 31"
  then have "int k < 2 ^ 31" by simp
  then have "sint (word_of_int (int k) :: 32 word) = int k"
    by (subst sint_sbintrunc') (simp add: signed_take_bit_int_eq_self)
  then show "cast_int k = int k" by (simp add: cast_int_def)
qed

end
