(* ===== verification/FsPath.thy ===== *)
theory FsPath
  imports Prelude
begin

text \<open>
  The part of \<^verbatim>\<open>std::filesystem::path\<close> the server uses, on POSIX: a path is its
  string; iteration gives the root directory, the file names and an empty name for a
  trailing separator; \<^verbatim>\<open>operator/\<close> replaces the left side by an absolute right side;
  \<^verbatim>\<open>lexically_normal\<close> follows the steps of [fs.path.generic]. The lemmas say what the
  parts of a normalised path are.
\<close>

type_synonym path = string

definition SLASH :: char where "SLASH = CHR ''/''"

primrec split_slash :: "string \<Rightarrow> string list" where
  "split_slash [] = [[]]"
| "split_slash (c # cs) =
     (if c = SLASH then [] # split_slash cs
      else (c # hd (split_slash cs)) # tl (split_slash cs))"

fun join_slash :: "string list \<Rightarrow> string" where
  "join_slash [] = []"
| "join_slash [x] = x"
| "join_slash (x # y # ys) = x @ SLASH # join_slash (y # ys)"

definition is_absolute :: "path \<Rightarrow> bool" where
  "is_absolute p = (p \<noteq> [] \<and> hd p = SLASH)"

definition path_names :: "path \<Rightarrow> string list" where
  "path_names p =
     (let names = filter (\<lambda>n. n \<noteq> []) (split_slash p)
      in names @ (if p \<noteq> [] \<and> last p = SLASH \<and> names \<noteq> [] then [[]] else []))"

text \<open>What iterating over a path gives.\<close>

definition path_parts :: "path \<Rightarrow> string list" where
  "path_parts p = (if is_absolute p then [[SLASH]] else []) @ path_names p"

definition path_append :: "path \<Rightarrow> path \<Rightarrow> path" where
  "path_append a b =
     (if is_absolute b then b
      else if a = [] \<or> last a = SLASH then a @ b
      else a @ SLASH # b)"

text \<open>
  Normalisation of the file names: \<open>acc\<close> holds the names kept so far, last first, and
  \<open>tr\<close> says whether a separator follows them.
\<close>

fun norm_names :: "bool \<Rightarrow> string list \<Rightarrow> bool \<Rightarrow> string list \<Rightarrow> string list \<times> bool" where
  "norm_names root acc tr [] = (acc, tr)"
| "norm_names root acc tr (n # ns) =
     (if n = [] \<or> n = ''.'' then norm_names root acc True ns
      else if n = ''..'' then
        (case acc of
           [] \<Rightarrow> if root then norm_names root [] True ns else norm_names root [''..''] False ns
         | a # as \<Rightarrow> if a = ''..'' then norm_names root (''..'' # acc) False ns
                     else norm_names root as True ns)
      else norm_names root (n # acc) False ns)"

definition lexically_normal :: "path \<Rightarrow> path" where
  "lexically_normal p =
     (if p = [] then []
      else let root = is_absolute p;
               (acc, tr) = norm_names root [] False (path_names p);
               body = join_slash (rev acc) @ (if acc \<noteq> [] \<and> tr \<and> hd acc \<noteq> ''..'' then [SLASH] else [])
           in if root then SLASH # body else if body = [] then ''.'' else body)"

text \<open>\<^verbatim>\<open>parent_path\<close> and \<^verbatim>\<open>has_parent_path\<close>.\<close>

definition parent_path :: "path \<Rightarrow> path" where
  "parent_path p =
     (let t = rev (dropWhile (\<lambda>c. c \<noteq> SLASH) (rev p));
          u = rev (dropWhile (\<lambda>c. c = SLASH) (rev t))
      in if u = [] \<and> t \<noteq> [] then [SLASH] else u)"

definition has_parent_path :: "path \<Rightarrow> bool" where
  "has_parent_path p = (parent_path p \<noteq> [])"

section \<open>Lemmas\<close>

lemma split_slash_nonempty [simp]: "split_slash s \<noteq> []"
  by (induction s) auto

lemma split_slash_no_slash: "n \<in> set (split_slash s) \<Longrightarrow> SLASH \<notin> set n"
proof (induction s arbitrary: n)
  case Nil
  then show ?case by simp
next
  case (Cons c cs)
  obtain w ws where "split_slash cs = w # ws" by (cases "split_slash cs") auto
  with Cons show ?case by (auto split: if_splits)
qed

lemma split_slash_word: "SLASH \<notin> set w \<Longrightarrow> split_slash w = [w]"
  by (induction w) auto

lemma split_slash_append:
  "SLASH \<notin> set w \<Longrightarrow> split_slash (w @ SLASH # s) = w # split_slash s"
  by (induction w) auto

text \<open>A file name: not empty, no separator.\<close>

definition is_name :: "string \<Rightarrow> bool" where
  "is_name n = (n \<noteq> [] \<and> SLASH \<notin> set n)"

lemma split_join_slash:
  assumes "ns \<noteq> []" "\<forall>n \<in> set ns. SLASH \<notin> set n"
  shows "split_slash (join_slash ns) = ns"
  using assms by (induction ns rule: join_slash.induct) (auto simp: split_slash_word split_slash_append)

lemma split_join_slash_trail:
  assumes "ns \<noteq> []" "\<forall>n \<in> set ns. SLASH \<notin> set n"
  shows "split_slash (join_slash ns @ [SLASH]) = ns @ [[]]"
  using assms
  by (induction ns rule: join_slash.induct) (auto simp: split_slash_append)

lemma join_slash_eq_Nil: "\<forall>n \<in> set ns. is_name n \<Longrightarrow> join_slash ns = [] \<longleftrightarrow> ns = []"
  by (cases ns rule: join_slash.cases) (auto simp: is_name_def)

lemma join_slash_hd: "\<forall>n \<in> set ns. is_name n \<Longrightarrow> ns \<noteq> [] \<Longrightarrow> hd (join_slash ns) \<noteq> SLASH"
proof (cases ns rule: join_slash.cases)
  case (2 x)
  assume "\<forall>n \<in> set ns. is_name n"
  with 2 show ?thesis by (cases x) (auto simp: is_name_def)
next
  case (3 x y ys)
  assume "\<forall>n \<in> set ns. is_name n"
  with 3 show ?thesis by (cases x) (auto simp: is_name_def)
qed simp

lemma join_slash_last: "\<forall>n \<in> set ns. is_name n \<Longrightarrow> ns \<noteq> [] \<Longrightarrow> last (join_slash ns) \<noteq> SLASH"
proof (induction ns rule: join_slash.induct)
  case 1
  then show ?case by simp
next
  case (2 x)
  then show ?case by (cases x rule: rev_cases) (auto simp: is_name_def)
next
  case (3 x y ys)
  have "join_slash (y # ys) \<noteq> []" using 3 join_slash_eq_Nil [of "y # ys"] by simp
  with 3 show ?case by simp
qed

lemma path_names_is_name: "n \<in> set (path_names p) \<Longrightarrow> n \<noteq> [] \<Longrightarrow> is_name n"
  by (auto simp: path_names_def is_name_def Let_def split: if_splits dest: split_slash_no_slash)

lemma norm_names_names:
  assumes "list_all (\<lambda>n. n \<noteq> [] \<longrightarrow> is_name n) ns" "list_all is_name acc"
  shows "list_all is_name (fst (norm_names root acc tr ns))"
  using assms
proof (induction ns arbitrary: root acc tr)
  case Nil
  then show ?case by simp
next
  case (Cons n ns)
  have dd: "is_name ''..''" by (simp add: is_name_def SLASH_def)
  show ?case
  proof (cases acc)
    case Nil
    with Cons show ?thesis by (simp add: dd)
  next
    case (Cons a as)
    with Cons.IH Cons.prems show ?thesis by (simp add: dd)
  qed
qed

lemma filter_names: "\<forall>n \<in> set ns. is_name n \<Longrightarrow> filter (\<lambda>n. n \<noteq> []) ns = ns"
  by (rule filter_True) (auto simp: is_name_def)

lemma path_names_join:
  assumes "\<forall>n \<in> set ns. is_name n"
  shows "path_names (join_slash ns) = ns"
proof (cases "ns = []")
  case True
  then show ?thesis by (simp add: path_names_def)
next
  case False
  have "\<forall>n \<in> set ns. SLASH \<notin> set n" using assms by (auto simp: is_name_def)
  then show ?thesis
    using assms False join_slash_last [of ns]
    by (simp add: path_names_def split_join_slash filter_names)
qed

lemma path_names_join_trail:
  assumes "\<forall>n \<in> set ns. is_name n" "ns \<noteq> []"
  shows "path_names (join_slash ns @ [SLASH]) = ns @ [[]]"
proof -
  have "\<forall>n \<in> set ns. SLASH \<notin> set n" using assms by (auto simp: is_name_def)
  then show ?thesis
    using assms by (simp add: path_names_def split_join_slash_trail filter_names)
qed

lemma path_names_slash_Cons:
  "path_names (SLASH # p) = path_names p"
  by (simp add: path_names_def Let_def)

lemma norm_names_path:
  "\<forall>n \<in> set (fst (norm_names root [] tr (path_names p))). is_name n"
  using norm_names_names [of "path_names p" "[]" root tr]
  by (auto simp: list_all_iff intro: path_names_is_name)

text \<open>Normalising keeps the root directory, and a relative path stays relative.\<close>

lemma is_absolute_normal: "is_absolute (lexically_normal p) = is_absolute p"
proof (cases "p = []")
  case True
  then show ?thesis by (simp add: lexically_normal_def)
next
  case False
  obtain acc tr where at: "norm_names (is_absolute p) [] False (path_names p) = (acc, tr)"
    by (metis surj_pair)
  have names: "\<forall>n \<in> set (rev acc). is_name n"
    using norm_names_path [of "is_absolute p" False p] by (simp add: at)
  show ?thesis
  proof (cases "acc = []")
    case True
    with False at show ?thesis by (auto simp: lexically_normal_def is_absolute_def SLASH_def Let_def)
  next
    case nz: False
    then have "join_slash (rev acc) \<noteq> []" "hd (join_slash (rev acc)) \<noteq> SLASH"
      using names join_slash_eq_Nil [of "rev acc"] join_slash_hd [of "rev acc"] by simp_all
    with False at nz show ?thesis by (auto simp: lexically_normal_def is_absolute_def Let_def)
  qed
qed

end
