(* ===== verification/Ownership.thy ===== *)
theory Ownership
  imports Main
begin

text \<open>
  Unique ownership of a resource, the contract behind the program's move-only types
  (\<^verbatim>\<open>UniqueFd\<close> for descriptors, \<^verbatim>\<open>Task\<close> for coroutine frames): an owner takes a fresh
  resource, hands it over, or gives it up, which frees it. A type that implements these
  steps never has two owners for a resource, never frees one twice and never loses one.
\<close>

record ('o, 'r) own_state =
  ow_own :: "'o \<rightharpoonup> 'r"
  ow_live :: "'r set"
  ow_bad :: bool

inductive own_step :: "('o, 'r) own_state \<Rightarrow> ('o, 'r) own_state \<Rightarrow> bool" where
  acquire: "ow_own s a = None \<Longrightarrow> r \<notin> ow_live s \<Longrightarrow>
    own_step s (s\<lparr>ow_own := (ow_own s)(a \<mapsto> r), ow_live := insert r (ow_live s)\<rparr>)"
| transfer: "a \<noteq> b \<Longrightarrow> ow_own s a = None \<Longrightarrow>
    own_step s (s\<lparr>ow_own := (ow_own s)(a := ow_own s b, b := None)\<rparr>)"
| drop: "own_step s (s\<lparr>ow_own := (ow_own s)(a := None),
      ow_live := ow_live s - set_option (ow_own s a),
      ow_bad := (ow_bad s \<or> \<not> set_option (ow_own s a) \<subseteq> ow_live s)\<rparr>)"

definition own_inv :: "('o, 'r) own_state \<Rightarrow> bool" where
  "own_inv s \<longleftrightarrow> \<not> ow_bad s \<and> ran (ow_own s) = ow_live s \<and>
     (\<forall>a b r. ow_own s a = Some r \<and> ow_own s b = Some r \<longrightarrow> a = b)"

lemma own_invD:
  assumes "own_inv s"
  shows "\<not> ow_bad s" "ow_own s a = Some r \<Longrightarrow> ow_own s b = Some r \<Longrightarrow> a = b"
    "r \<in> ow_live s \<longleftrightarrow> (\<exists>a. ow_own s a = Some r)"
  using assms by (auto simp: own_inv_def ran_def)

lemma own_invI:
  assumes "\<not> ow_bad s" "ran (ow_own s) = ow_live s"
    "\<And>a b r. ow_own s a = Some r \<Longrightarrow> ow_own s b = Some r \<Longrightarrow> a = b"
  shows "own_inv s"
  using assms by (auto simp: own_inv_def)

lemma own_step_inv: "own_step s s' \<Longrightarrow> own_inv s \<Longrightarrow> own_inv s'"
proof (induction rule: own_step.induct)
  case (acquire s a r)
  then have "r \<notin> ran (ow_own s)" by (simp add: own_inv_def)
  then have "ow_own s b \<noteq> Some r" for b by (auto intro: ranI)
  with acquire show ?case by (auto simp: own_inv_def split: if_splits)
next
  case (transfer a b s)
  define g where "g = (ow_own s)(a := ow_own s b, b := None)"
  have "ran g = ran (ow_own s)"
    using transfer by (auto simp: g_def ran_def split: if_splits) (metis option.distinct(1))
  moreover have "x = y" if "g x = Some r" "g y = Some r" for x y r
    using that own_invD(2) [OF transfer.prems, of _ r] transfer.hyps
    by (auto simp: g_def split: if_splits)
  ultimately have "own_inv (s\<lparr>ow_own := g\<rparr>)"
    using transfer.prems own_invI [of "s\<lparr>ow_own := g\<rparr>"] by (simp add: own_inv_def)
  then show ?case by (simp only: g_def)
next
  case (drop s a)
  note u = own_invD(2) [OF drop]
  have "ran ((ow_own s)(a := None)) = ran (ow_own s) - set_option (ow_own s a)"
  proof (cases "ow_own s a")
    case None
    then show ?thesis by (simp add: fun_upd_idem)
  next
    case (Some r)
    have other: "ow_own s b \<noteq> Some r" if "b \<noteq> a" for b using u [OF Some, of b] that by blast
    have "x \<in> ran ((ow_own s)(a := None)) \<longleftrightarrow> x \<in> ran (ow_own s) \<and> x \<noteq> r" for x
    proof
      assume "x \<in> ran ((ow_own s)(a := None))"
      then obtain b where "b \<noteq> a" "ow_own s b = Some x" by (auto simp: ran_def split: if_splits)
      with other [of b] show "x \<in> ran (ow_own s) \<and> x \<noteq> r" by (auto intro: ranI)
    next
      assume x: "x \<in> ran (ow_own s) \<and> x \<noteq> r"
      then obtain b where "ow_own s b = Some x" by (auto simp: ran_def)
      with x Some have "((ow_own s)(a := None)) b = Some x" by auto
      then show "x \<in> ran ((ow_own s)(a := None))" by (rule ranI)
    qed
    then show ?thesis by (auto simp: Some)
  qed
  moreover have "set_option (ow_own s a) \<subseteq> ran (ow_own s)" by (auto simp: ran_def)
  ultimately show ?case
    using drop by (intro own_invI) (simp_all add: own_inv_def u split: if_splits)
qed

lemma own_steps_inv: "own_step\<^sup>*\<^sup>* s s' \<Longrightarrow> own_inv s \<Longrightarrow> own_inv s'"
  by (induction rule: rtranclp_induct) (auto intro: own_step_inv)

text \<open>A program whose steps are ownership steps under an abstraction. \<open>good\<close> is what the
  program keeps of its own.\<close>

locale ownership =
  fixes step :: "'s \<Rightarrow> 's \<Rightarrow> bool"
    and view :: "'s \<Rightarrow> ('o, 'r) own_state"
    and good :: "'s \<Rightarrow> bool"
    and init :: 's
  assumes init_inv: "own_inv (view init)" and init_good: "good init"
    and step_good: "step s s' \<Longrightarrow> good s \<Longrightarrow> good s'"
    and sim: "step s s' \<Longrightarrow> good s \<Longrightarrow> own_inv (view s) \<Longrightarrow> own_step\<^sup>*\<^sup>* (view s) (view s')"
begin

lemma reach_inv: "step\<^sup>*\<^sup>* init s \<Longrightarrow> good s \<and> own_inv (view s)"
proof (induction rule: rtranclp_induct)
  case base
  show ?case using init_inv init_good by blast
next
  case (step s s')
  then show ?case using step_good sim own_steps_inv by blast
qed

end

end
