(* ===== verification/Types.thy ===== *)
theory Types
  imports FsPath Ownership
begin

text \<open>
  \<^verbatim>\<open>coroutineWebServer/Types.h\<close>: the owning descriptor \<^verbatim>\<open>UniqueFd\<close>, the text
  helpers \<^verbatim>\<open>to_lower\<close> and \<^verbatim>\<open>trim\<close>, \<^verbatim>\<open>HttpRequest\<close> and \<^verbatim>\<open>HttpResponse\<close> with
  their methods, \<^verbatim>\<open>mime_type_for\<close> and \<^verbatim>\<open>path_is_safe\<close>. The operations of
  \<^verbatim>\<open>UniqueFd\<close> take and return the list of descriptors passed to \<^verbatim>\<open>::close\<close>; a
  step relation over a heap of such objects states who owns which descriptor.
\<close>

section \<open>UniqueFd\<close>

record UniqueFd =
  ufd_fd :: fd
  ufd_direct :: bool

definition UniqueFd_default :: UniqueFd where
  "UniqueFd_default = \<lparr>ufd_fd = -1, ufd_direct = False\<rparr>"

definition UniqueFd_make :: "fd \<Rightarrow> bool \<Rightarrow> UniqueFd" where
  "UniqueFd_make f d = \<lparr>ufd_fd = f, ufd_direct = d\<rparr>"

text \<open>The conversion to \<^verbatim>\<open>bool\<close>.\<close>

definition UniqueFd_valid :: "UniqueFd \<Rightarrow> bool" where
  "UniqueFd_valid u = (0 \<le> ufd_fd u)"

text \<open>Move construction: the new object and the moved-from one.\<close>

definition UniqueFd_move :: "UniqueFd \<Rightarrow> UniqueFd \<times> UniqueFd" where
  "UniqueFd_move other = (\<lparr>ufd_fd = ufd_fd other, ufd_direct = ufd_direct other\<rparr>, other\<lparr>ufd_fd := -1\<rparr>)"

definition UniqueFd_release :: "UniqueFd \<Rightarrow> fd \<times> UniqueFd" where
  "UniqueFd_release u = (ufd_fd u, \<lparr>ufd_fd = -1, ufd_direct = False\<rparr>)"

definition UniqueFd_reset :: "fd \<Rightarrow> bool \<Rightarrow> UniqueFd \<Rightarrow> fd list \<Rightarrow> UniqueFd \<times> fd list" where
  "UniqueFd_reset f d u closes =
     (\<lparr>ufd_fd = f, ufd_direct = d\<rparr>, if 0 \<le> ufd_fd u then closes @ [ufd_fd u] else closes)"

text \<open>Move assignment between two different objects; \<^verbatim>\<open>a = std::move(a)\<close> does nothing.\<close>

definition UniqueFd_assign ::
  "UniqueFd \<Rightarrow> UniqueFd \<Rightarrow> fd list \<Rightarrow> (UniqueFd \<times> UniqueFd) \<times> fd list" where
  "UniqueFd_assign u other closes =
     (let (u1, closes1) = UniqueFd_reset (-1) False u closes
      in ((u1\<lparr>ufd_fd := ufd_fd other, ufd_direct := ufd_direct other\<rparr>, other\<lparr>ufd_fd := -1\<rparr>), closes1))"

definition UniqueFd_dtor :: "UniqueFd \<Rightarrow> fd list \<Rightarrow> fd list" where
  "UniqueFd_dtor u closes = snd (UniqueFd_reset (-1) False u closes)"

text \<open>\<^verbatim>\<open>duplicate\<close>, with the result of \<^verbatim>\<open>::dup\<close> as an argument.\<close>

definition UniqueFd_duplicate :: "(fd \<Rightarrow> fd) \<Rightarrow> UniqueFd \<Rightarrow> UniqueFd" where
  "UniqueFd_duplicate dup u =
     (if ufd_fd u < 0 then UniqueFd_default else UniqueFd_make (dup (ufd_fd u)) (ufd_direct u))"

text \<open>
  \<^verbatim>\<open>open_regular\<close> and \<^verbatim>\<open>open_direct\<close>, with \<^verbatim>\<open>::open\<close> (path, flags) as an
  argument; \<^verbatim>\<open>O_DIRECT\<close> is defined on Linux.
\<close>

definition O_DIRECT :: "32 word" where
  "O_DIRECT = 0x4000"

definition UniqueFd_open_regular :: "(path \<Rightarrow> 32 word \<Rightarrow> fd) \<Rightarrow> path \<Rightarrow> 32 word \<Rightarrow> UniqueFd" where
  "UniqueFd_open_regular sys_open p flags = UniqueFd_make (sys_open p flags) False"

definition UniqueFd_open_direct :: "(path \<Rightarrow> 32 word \<Rightarrow> fd) \<Rightarrow> path \<Rightarrow> 32 word \<Rightarrow> UniqueFd" where
  "UniqueFd_open_direct sys_open p flags = UniqueFd_make (sys_open p (or flags O_DIRECT)) True"

section \<open>Text helpers\<close>

definition to_lower :: "string \<Rightarrow> string" where
  "to_lower input = map tolower input"

text \<open>The second loop of \<^verbatim>\<open>trim\<close>: \<^verbatim>\<open>while (end > begin && isspace(input[end - 1])) --end;\<close>\<close>

primrec trim_end :: "string \<Rightarrow> nat \<Rightarrow> nat \<Rightarrow> nat" where
  "trim_end input bg 0 = 0"
| "trim_end input bg (Suc e) =
     (if bg < Suc e \<and> isspace (input ! e) then trim_end input bg e else Suc e)"

definition trim :: "string \<Rightarrow> string" where
  "trim input =
     (let bg = scan_while isspace input 0;
          e = trim_end input bg (length input)
      in substr input bg (e - bg))"

section \<open>Requests and responses\<close>

record HttpRequest =
  req_method :: string
  req_target :: string
  req_version :: string
  req_headers :: "string \<rightharpoonup> string"
  req_body :: string

definition is_get :: "HttpRequest \<Rightarrow> bool" where
  "is_get r = (req_method r = ''GET'')"

definition is_head :: "HttpRequest \<Rightarrow> bool" where
  "is_head r = (req_method r = ''HEAD'')"

definition is_post :: "HttpRequest \<Rightarrow> bool" where
  "is_post r = (req_method r = ''POST'')"

definition keep_alive :: "HttpRequest \<Rightarrow> bool" where
  "keep_alive r =
     (case req_headers r ''connection'' of
        Some v \<Rightarrow>
          (let value = to_lower v
           in if contains value ''close'' then False
              else if contains value ''keep-alive'' then True
              else req_version r = ''HTTP/1.1'')
      | None \<Rightarrow> req_version r = ''HTTP/1.1'')"

record HttpResponse =
  status :: int
  reason :: string
  headers :: "(string \<times> string) list"
  body :: string
  head_only :: bool

definition HttpResponse_default :: HttpResponse where
  "HttpResponse_default =
     \<lparr>status = 200, reason = ''OK'', headers = [], body = [], head_only = False\<rparr>"

text \<open>The loop of \<^verbatim>\<open>to_wire\<close> over the headers: the text and \<^verbatim>\<open>has_content_length\<close>.\<close>

fun wire_headers :: "(string \<times> string) list \<Rightarrow> string \<Rightarrow> bool \<Rightarrow> string \<times> bool" where
  "wire_headers [] wire has_cl = (wire, has_cl)"
| "wire_headers ((k, v) # hs) wire has_cl =
     wire_headers hs (wire @ k @ '': '' @ v @ CRLF) (has_cl \<or> to_lower k = ''content-length'')"

definition to_wire :: "HttpResponse \<Rightarrow> string" where
  "to_wire r =
     (let wire0 = ''HTTP/1.1 '' @ int_to_string (status r) @ '' '' @ reason r @ CRLF;
          (wire1, has_cl) = wire_headers (headers r) wire0 False;
          wire2 = (if has_cl then wire1
                   else wire1 @ ''Content-Length: '' @ to_string (length (body r)) @ CRLF);
          wire3 = wire2 @ CRLF
      in if head_only r then wire3 else wire3 @ body r)"

section \<open>Content types and safe paths\<close>

definition mime_type_for :: "string \<Rightarrow> string" where
  "mime_type_for p =
     (case str_rfind_char (CHR ''.'') p of
        None \<Rightarrow> ''text/plain; charset=utf-8''
      | Some dot \<Rightarrow>
          (let ext = to_lower (drop dot p)
           in if ext = ''.html'' \<or> ext = ''.htm'' then ''text/html; charset=utf-8''
              else if ext = ''.css'' then ''text/css; charset=utf-8''
              else if ext = ''.js'' then ''application/javascript; charset=utf-8''
              else if ext = ''.json'' then ''application/json; charset=utf-8''
              else if ext = ''.png'' then ''image/png''
              else if ext = ''.jpg'' \<or> ext = ''.jpeg'' then ''image/jpeg''
              else if ext = ''.gif'' then ''image/gif''
              else if ext = ''.ico'' then ''image/x-icon''
              else ''application/octet-stream''))"

text \<open>The loop over the parts of the path.\<close>

fun no_dotdot :: "string list \<Rightarrow> bool" where
  "no_dotdot [] = True"
| "no_dotdot (part # ps) = (if part = ''..'' then False else no_dotdot ps)"

definition path_is_safe :: "path \<Rightarrow> bool" where
  "path_is_safe p = no_dotdot (path_parts p)"

section \<open>Lemmas on the helpers\<close>

lemma trim_end_le: "trim_end s b e \<le> e"
  by (induction e) (auto intro: le_SucI)

lemma trim_end_spec:
  assumes "b \<le> e" "e \<le> length s"
  shows "take (trim_end s b e - b) (drop b s) =
    rev (dropWhile isspace (rev (take (e - b) (drop b s))))"
  using assms
proof (induction e)
  case 0
  then show ?case by simp
next
  case (Suc e)
  show ?case
  proof (cases "b = Suc e")
    case True
    then show ?thesis using trim_end_le [of s b "Suc e"] by simp
  next
    case False
    with Suc.prems have b: "b \<le> e" "e < length s" by simp_all
    have last: "take (Suc e - b) (drop b s) = take (e - b) (drop b s) @ [s ! e]"
      using b by (simp add: Suc_diff_le take_Suc_conv_app_nth)
    show ?thesis
    proof (cases "isspace (s ! e)")
      case True
      with b Suc.IH show ?thesis by (simp add: last)
    next
      case nsp: False
      then have "trim_end s b (Suc e) = Suc e" by simp
      with nsp show ?thesis by (simp only: last) simp
    qed
  qed
qed

text \<open>Dropping white space at both ends.\<close>

definition strip :: "string \<Rightarrow> string" where
  "strip s = rev (dropWhile isspace (rev (dropWhile isspace s)))"

lemma trim_eq_strip: "trim s = strip s"
proof -
  define b where "b = length (takeWhile isspace s)"
  have b: "scan_while isspace s 0 = b" by (simp add: scan_while_eq b_def)
  have "b \<le> length s" by (simp add: b_def length_takeWhile_le)
  have d: "drop b s = dropWhile isspace s" by (simp add: b_def dropWhile_eq_drop)
  have "trim s = take (trim_end s b (length s) - b) (drop b s)"
    by (simp add: trim_def b substr_def)
  also have "\<dots> = rev (dropWhile isspace (rev (take (length s - b) (drop b s))))"
    using \<open>b \<le> length s\<close> by (intro trim_end_spec) simp_all
  also have "take (length s - b) (drop b s) = dropWhile isspace s" by (simp add: d [symmetric])
  finally show ?thesis by (simp add: strip_def)
qed

lemma strip_id: "s = [] \<or> (\<not> isspace (hd s) \<and> \<not> isspace (last s)) \<Longrightarrow> strip s = s"
proof -
  assume ends: "s = [] \<or> (\<not> isspace (hd s) \<and> \<not> isspace (last s))"
  then have "dropWhile isspace s = s" by (cases s) simp_all
  moreover from ends have "dropWhile isspace (rev s) = rev s" by (cases s rule: rev_cases) simp_all
  ultimately show ?thesis by (simp add: strip_def)
qed

lemma strip_ends: "strip s = [] \<or> (\<not> isspace (hd (strip s)) \<and> \<not> isspace (last (strip s)))"
proof (cases "dropWhile isspace s = []")
  case True
  then have "strip s = []" by (simp only: strip_def) simp
  then show ?thesis by simp
next
  case False
  define u where "u = dropWhile isspace s"
  have u: "u \<noteq> []" "\<not> isspace (hd u)" using False hd_dropWhile [of isspace s] by (simp_all add: u_def)
  define v where "v = dropWhile isspace (rev u)"
  have "\<exists>x \<in> set (rev u). \<not> isspace x" using u by (auto intro: bexI [of _ "hd u"])
  then have v: "v \<noteq> []" by (auto simp: v_def dropWhile_eq_Nil_conv)
  then have "\<not> isspace (hd v)" using hd_dropWhile [of isspace "rev u"] by (simp add: v_def)
  moreover have "rev v = take (length v) u"
    by (metis v_def dropWhile_eq_drop length_drop length_rev rev_drop rev_rev_ident diff_diff_cancel
        length_takeWhile_le)
  then have "hd (rev v) = hd u" using v by (metis hd_take length_greater_0_conv)
  ultimately show ?thesis using u v by (simp add: strip_def last_rev hd_rev flip: u_def v_def)
qed

lemma trim_idem: "trim (trim s) = trim s"
  using strip_id [OF strip_ends [of s]] by (simp add: trim_eq_strip)

lemma tolower_idem [simp]: "tolower (tolower c) = tolower c"
proof -
  have "(of_char (char_of ((of_char c :: nat) + 32) :: char) :: nat) = of_char c + 32"
    if "(of_char c :: nat) \<le> 90"
    using that by simp
  then show ?thesis by (auto simp: tolower_def)
qed

lemma to_lower_idem [simp]: "to_lower (to_lower s) = to_lower s"
  by (simp add: to_lower_def comp_def)

lemma no_dotdot_iff: "no_dotdot ps \<longleftrightarrow> ''..'' \<notin> set ps"
  by (induction ps) auto

section \<open>The wire image of a response\<close>

text \<open>The lines of the head, without their CRLF.\<close>

definition header_line :: "string \<times> string \<Rightarrow> string" where
  "header_line h = fst h @ '': '' @ snd h"

definition names_content_length :: "(string \<times> string) list \<Rightarrow> bool" where
  "names_content_length hs = (\<exists>h \<in> set hs. to_lower (fst h) = ''content-length'')"

definition wire_lines :: "HttpResponse \<Rightarrow> string list" where
  "wire_lines r =
     (''HTTP/1.1 '' @ int_to_string (status r) @ '' '' @ reason r) # map header_line (headers r) @
     (if names_content_length (headers r) then []
      else [''Content-Length: '' @ to_string (length (body r))])"

lemma wire_headers_eq:
  "wire_headers hs w b = (w @ line_block (map header_line hs), b \<or> names_content_length hs)"
  by (induction hs w b rule: wire_headers.induct)
    (auto simp: header_line_def names_content_length_def)

lemma to_wire_lines:
  "to_wire r = line_block (wire_lines r) @ CRLF @ (if head_only r then [] else body r)"
  by (auto simp: to_wire_def wire_lines_def wire_headers_eq Let_def)

lemma int_to_string_clean [simp]: "CR \<notin> set (int_to_string n)"
  by (simp add: int_to_string_def) (simp add: CR_def)

lemma wire_lines_ok:
  assumes "CR \<notin> set (reason r)" "\<forall>h \<in> set (headers r). CR \<notin> set (fst h) \<and> CR \<notin> set (snd h)"
  shows "\<forall>l \<in> set (wire_lines r). line_ok l"
  using assms by (auto simp: wire_lines_def line_ok_def header_line_def CR_def [symmetric])
    (auto simp: CR_def)

lemma to_wire_head:
  assumes "\<forall>l \<in> set (wire_lines r). line_ok l"
  shows "str_find CRLFCRLF (to_wire r) 0 = Some (length (line_block (wire_lines r)) - 2)"
    and "drop (length (line_block (wire_lines r)) - 2 + 4) (to_wire r) =
      (if head_only r then [] else body r)"
proof -
  have "wire_lines r \<noteq> []" by (simp add: wire_lines_def)
  with assms show "str_find CRLFCRLF (to_wire r) 0 = Some (length (line_block (wire_lines r)) - 2)"
    by (simp add: to_wire_lines str_find_line_block)
  have "2 \<le> length (line_block (wire_lines r))" by (simp add: wire_lines_def)
  then show "drop (length (line_block (wire_lines r)) - 2 + 4) (to_wire r) =
      (if head_only r then [] else body r)"
    by (simp add: to_wire_lines)
qed

section \<open>Who owns a descriptor\<close>

text \<open>
  A heap of \<^verbatim>\<open>UniqueFd\<close> objects beside the descriptors the kernel has open. \<open>raw_fds\<close> are
  the open descriptors no object owns (just returned by the kernel, or released);
  \<open>bad_close\<close> records a \<^verbatim>\<open>close\<close> of a descriptor that is not open.
\<close>

record fd_heap =
  objs :: "nat \<rightharpoonup> UniqueFd"
  open_fds :: "fd set"
  raw_fds :: "fd set"
  bad_close :: bool

definition fd_heap_init :: fd_heap where
  "fd_heap_init = \<lparr>objs = Map.empty, open_fds = {}, raw_fds = {}, bad_close = False\<rparr>"

fun do_closes :: "fd list \<Rightarrow> fd_heap \<Rightarrow> fd_heap" where
  "do_closes [] h = h"
| "do_closes (f # fs) h =
     do_closes fs (if f \<in> open_fds h then h\<lparr>open_fds := open_fds h - {f}\<rparr>
                   else h\<lparr>bad_close := True\<rparr>)"

inductive fd_step :: "fd_heap \<Rightarrow> fd_heap \<Rightarrow> bool" where
  kernel_open: "0 \<le> f \<Longrightarrow> f \<notin> open_fds h \<Longrightarrow>
     fd_step h (h\<lparr>open_fds := insert f (open_fds h), raw_fds := insert f (raw_fds h)\<rparr>)"
| default_ctor: "objs h i = None \<Longrightarrow>
     fd_step h (h\<lparr>objs := (objs h)(i \<mapsto> UniqueFd_default)\<rparr>)"
| make: "objs h i = None \<Longrightarrow> f \<in> raw_fds h \<Longrightarrow>
     fd_step h (h\<lparr>objs := (objs h)(i \<mapsto> UniqueFd_make f d), raw_fds := raw_fds h - {f}\<rparr>)"
| move_ctor: "objs h i = None \<Longrightarrow> objs h j = Some v \<Longrightarrow> UniqueFd_move v = (u, v') \<Longrightarrow>
     fd_step h (h\<lparr>objs := (objs h)(i \<mapsto> u, j \<mapsto> v')\<rparr>)"
| move_assign: "i \<noteq> j \<Longrightarrow> objs h i = Some u \<Longrightarrow> objs h j = Some v \<Longrightarrow>
     UniqueFd_assign u v [] = ((u', v'), closes) \<Longrightarrow>
     fd_step h ((do_closes closes h)\<lparr>objs := (objs h)(i \<mapsto> u', j \<mapsto> v')\<rparr>)"
| self_assign: "fd_step h h"
| release: "objs h i = Some u \<Longrightarrow> UniqueFd_release u = (f, u') \<Longrightarrow>
     fd_step h (h\<lparr>objs := (objs h)(i \<mapsto> u'),
       raw_fds := (if 0 \<le> f then insert f (raw_fds h) else raw_fds h)\<rparr>)"
| reset: "objs h i = Some u \<Longrightarrow> f = -1 \<or> f \<in> raw_fds h \<Longrightarrow>
     UniqueFd_reset f d u [] = (u', closes) \<Longrightarrow>
     fd_step h ((do_closes closes h)\<lparr>objs := (objs h)(i \<mapsto> u'), raw_fds := raw_fds h - {f}\<rparr>)"
| dtor: "objs h i = Some u \<Longrightarrow>
     fd_step h ((do_closes (UniqueFd_dtor u []) h)\<lparr>objs := (objs h)(i := None)\<rparr>)"

definition fd_reach :: "fd_heap \<Rightarrow> bool" where
  "fd_reach h = fd_step\<^sup>*\<^sup>* fd_heap_init h"

text \<open>Object \<open>i\<close> owns descriptor \<open>f\<close>.\<close>

definition owns :: "fd_heap \<Rightarrow> nat \<Rightarrow> fd \<Rightarrow> bool" where
  "owns h i f = (0 \<le> f \<and> (\<exists>u. objs h i = Some u \<and> ufd_fd u = f))"

lemmas ufd_defs = UniqueFd_default_def UniqueFd_make_def UniqueFd_move_def UniqueFd_release_def
  UniqueFd_reset_def UniqueFd_assign_def UniqueFd_dtor_def

text \<open>The owners: the objects, and for a raw descriptor the code that holds its number.\<close>

datatype fd_owner = Obj nat | Raw fd

definition ufd_res :: "UniqueFd \<Rightarrow> fd option" where
  "ufd_res u = (if 0 \<le> ufd_fd u then Some (ufd_fd u) else None)"

fun fd_own :: "fd_heap \<Rightarrow> fd_owner \<Rightarrow> fd option" where
  "fd_own h (Obj i) = Option.bind (objs h i) ufd_res"
| "fd_own h (Raw f) = (if f \<in> raw_fds h then Some f else None)"

definition fd_view :: "fd_heap \<Rightarrow> (fd_owner, fd) own_state" where
  "fd_view h = \<lparr>ow_own = fd_own h, ow_live = open_fds h, ow_bad = bad_close h\<rparr>"

definition fd_good :: "fd_heap \<Rightarrow> bool" where
  "fd_good h = (\<forall>f \<in> raw_fds h. 0 \<le> f)"

lemma fd_own_upd:
  "fd_own (h\<lparr>objs := (objs h)(i := u)\<rparr>) = (fd_own h)(Obj i := Option.bind u ufd_res)"
proof
  show "fd_own (h\<lparr>objs := (objs h)(i := u)\<rparr>) a = ((fd_own h)(Obj i := Option.bind u ufd_res)) a" for a
    by (cases a) auto
qed

lemma do_closes_frame [simp]:
  "objs (do_closes fs h) = objs h" "raw_fds (do_closes fs h) = raw_fds h"
  by (induction fs h rule: do_closes.induct) auto

lemma fd_step_good: "fd_step h h' \<Longrightarrow> fd_good h \<Longrightarrow> fd_good h'"
  by (induction rule: fd_step.induct) (auto simp: fd_good_def split: if_splits)

text \<open>Closing what an object holds is giving it up.\<close>

lemma fd_view_drop:
  assumes "objs h i = Some u" "Option.bind v ufd_res = None"
  shows "own_step (fd_view h) (fd_view ((do_closes (UniqueFd_dtor u []) h)\<lparr>objs := (objs h)(i := v)\<rparr>))"
proof -
  let ?h = "(do_closes (UniqueFd_dtor u []) h)\<lparr>objs := (objs h)(i := v)\<rparr>"
  have "fd_own ?h a = ((fd_own h)(Obj i := None)) a" for a using assms by (cases a) auto
  then have "fd_own ?h = (fd_own h)(Obj i := None)" by blast
  moreover have "open_fds ?h = open_fds h - set_option (ufd_res u)"
    "bad_close ?h = (bad_close h \<or> \<not> set_option (ufd_res u) \<subseteq> open_fds h)"
    by (auto simp: ufd_defs ufd_res_def)
  ultimately have "fd_view ?h = (fd_view h)\<lparr>ow_own := (ow_own (fd_view h))(Obj i := None),
      ow_live := ow_live (fd_view h) - set_option (ow_own (fd_view h) (Obj i)),
      ow_bad := (ow_bad (fd_view h) \<or> \<not> set_option (ow_own (fd_view h) (Obj i)) \<subseteq> ow_live (fd_view h))\<rparr>"
    using assms(1) by (simp add: fd_view_def)
  then show ?thesis by (simp only: own_step.drop)
qed

text \<open>A change of owners that only hands a descriptor over.\<close>

lemma fd_view_transfer:
  assumes "a \<noteq> b" "fd_own h a = None" "fd_own h' = (fd_own h)(a := fd_own h b, b := None)"
    "open_fds h' = open_fds h" "bad_close h' = bad_close h"
  shows "own_step (fd_view h) (fd_view h')"
proof -
  have "fd_view h' = (fd_view h)\<lparr>ow_own := (ow_own (fd_view h))(a := ow_own (fd_view h) b, b := None)\<rparr>"
    using assms by (simp add: fd_view_def)
  then show ?thesis using own_step.transfer [of a b "fd_view h"] assms(1,2) by (simp add: fd_view_def)
qed

lemma fd_own_eqI: "(\<And>i. fd_own h (Obj i) = g (Obj i)) \<Longrightarrow> (\<And>f. fd_own h (Raw f) = g (Raw f)) \<Longrightarrow> fd_own h = g"
proof
  fix a
  assume "\<And>i. fd_own h (Obj i) = g (Obj i)" "\<And>f. fd_own h (Raw f) = g (Raw f)"
  then show "fd_own h a = g a" by (cases a) simp_all
qed

lemma fd_step_sim:
  "fd_step h h' \<Longrightarrow> fd_good h \<Longrightarrow> own_inv (fd_view h) \<Longrightarrow> own_step\<^sup>*\<^sup>* (fd_view h) (fd_view h')"
proof (induction rule: fd_step.induct)
  case (kernel_open f h)
  have "f \<notin> raw_fds h"
    using own_invD(3) [OF kernel_open.prems(2), of f] kernel_open by (auto simp: fd_view_def dest: spec [of _ "Raw f"])
  moreover have "fd_own (h\<lparr>open_fds := insert f (open_fds h), raw_fds := insert f (raw_fds h)\<rparr>) =
      (fd_own h)(Raw f \<mapsto> f)"
    by (rule fd_own_eqI) auto
  ultimately show ?case
    using own_step.acquire [of "fd_view h" "Raw f" f] kernel_open.hyps
    by (auto simp: fd_view_def)
next
  case (default_ctor h i)
  then have "fd_view (h\<lparr>objs := (objs h)(i \<mapsto> UniqueFd_default)\<rparr>) = fd_view h"
    by (auto simp: fd_view_def fd_own_upd ufd_res_def UniqueFd_default_def fun_eq_iff)
  then show ?case by simp
next
  case (make h i f d)
  have "own_step (fd_view h) (fd_view (h\<lparr>objs := (objs h)(i \<mapsto> UniqueFd_make f d), raw_fds := raw_fds h - {f}\<rparr>))"
    by (rule fd_view_transfer [of "Obj i" "Raw f"], simp, use make in simp, rule fd_own_eqI)
      (use make in \<open>auto simp: ufd_res_def UniqueFd_make_def fd_good_def\<close>)
  then show ?case by blast
next
  case (move_ctor h i j v u v')
  then have "i \<noteq> j" by auto
  have "own_step (fd_view h) (fd_view (h\<lparr>objs := (objs h)(i \<mapsto> u, j \<mapsto> v')\<rparr>))"
    by (rule fd_view_transfer [of "Obj i" "Obj j"], simp add: \<open>i \<noteq> j\<close>, use move_ctor in simp, rule fd_own_eqI)
      (use move_ctor in \<open>auto simp: ufd_res_def UniqueFd_move_def\<close>)
  then show ?case by blast
next
  case (move_assign i j h u v u' v' closes)
  have a: "closes = UniqueFd_dtor u []" "u' = v" "v' = v\<lparr>ufd_fd := -1\<rparr>"
    using move_assign by (auto simp: ufd_defs)
  let ?c = "(do_closes closes h)\<lparr>objs := (objs h)(i \<mapsto> UniqueFd_default)\<rparr>"
  have "own_step (fd_view h) (fd_view ?c)"
    using fd_view_drop [OF move_assign(2), of "Some UniqueFd_default"] a(1)
    by (simp add: ufd_res_def UniqueFd_default_def)
  moreover have "own_step (fd_view ?c) (fd_view ((do_closes closes h)\<lparr>objs := (objs h)(i \<mapsto> u', j \<mapsto> v')\<rparr>))"
    by (rule fd_view_transfer [of "Obj i" "Obj j"], use move_assign in simp,
        simp add: ufd_res_def UniqueFd_default_def, rule fd_own_eqI)
      (use move_assign a in \<open>auto simp: ufd_res_def\<close>)
  ultimately show ?case by auto
next
  case (self_assign h)
  then show ?case by simp
next
  case (release h i u f u')
  let ?h = "h\<lparr>objs := (objs h)(i \<mapsto> u'), raw_fds := (if 0 \<le> f then insert f (raw_fds h) else raw_fds h)\<rparr>"
  show ?case
  proof (cases "0 \<le> f")
    case True
    then have "fd_own h (Obj i) = Some f" using release by (auto simp: ufd_defs ufd_res_def)
    then have "f \<notin> raw_fds h"
      using own_invD(2) [OF release.prems(2), of "Obj i" f "Raw f"] by (auto simp: fd_view_def)
    then have "own_step (fd_view h) (fd_view ?h)"
      by - (rule fd_view_transfer [of "Raw f" "Obj i"], simp, simp, rule fd_own_eqI,
        use release True in \<open>auto simp: ufd_res_def ufd_defs\<close>)
    then show ?thesis by blast
  next
    case False
    then have "fd_own ?h = fd_own h"
      by - (rule fd_own_eqI, use release in \<open>auto simp: ufd_res_def ufd_defs\<close>)
    then show ?thesis by (simp add: fd_view_def)
  qed
next
  case (reset h i u f d u' closes)
  have a: "closes = UniqueFd_dtor u []" "u' = UniqueFd_make f d" using reset by (auto simp: ufd_defs)
  let ?c = "(do_closes closes h)\<lparr>objs := (objs h)(i \<mapsto> UniqueFd_default)\<rparr>"
  let ?h = "(do_closes closes h)\<lparr>objs := (objs h)(i \<mapsto> u'), raw_fds := raw_fds h - {f}\<rparr>"
  have c: "own_step (fd_view h) (fd_view ?c)"
    using fd_view_drop [OF reset(1), of "Some UniqueFd_default"] a(1)
    by (simp add: ufd_res_def UniqueFd_default_def)
  show ?case
  proof (cases "f \<in> raw_fds h")
    case True
    have "own_step (fd_view ?c) (fd_view ?h)"
      by (rule fd_view_transfer [of "Obj i" "Raw f"], simp, simp add: ufd_res_def UniqueFd_default_def,
          rule fd_own_eqI)
        (use reset True a in \<open>auto simp: ufd_res_def UniqueFd_make_def fd_good_def\<close>)
    with c show ?thesis by auto
  next
    case False
    with reset have "f = -1" by blast
    then have "fd_own ?h = fd_own ?c"
      by - (rule fd_own_eqI, use False a in \<open>auto simp: ufd_res_def UniqueFd_make_def UniqueFd_default_def\<close>)
    then have "fd_view ?h = fd_view ?c" by (simp add: fd_view_def)
    with c show ?thesis by auto
  qed
next
  case (dtor h i u)
  with fd_view_drop [of h i u None] show ?case by auto
qed

interpretation fdo: ownership fd_step fd_view fd_good fd_heap_init
proof (unfold_locales, goal_cases)
  case 1
  have "fd_own fd_heap_init = (\<lambda>a. None)" by (rule fd_own_eqI) (simp_all add: fd_heap_init_def)
  then show ?case by (simp add: own_inv_def fd_view_def fd_heap_init_def)
next
  case 2
  show ?case by (simp add: fd_good_def fd_heap_init_def)
qed (auto intro: fd_step_good fd_step_sim)

lemma fd_own_owns: "fd_own h (Obj i) = Some f \<longleftrightarrow> owns h i f"
  by (auto simp: owns_def ufd_res_def bind_eq_Some_conv)

lemma fd_own_ex: "(\<exists>a. fd_own h a = Some f) \<longleftrightarrow> f \<in> raw_fds h \<or> (\<exists>i. owns h i f)"
  by (metis fd_own.simps(2) fd_own_owns fd_owner.exhaust option.distinct(1) option.inject)

section \<open>Properties\<close>

text \<open>C24. In every reachable heap of \<^verbatim>\<open>UniqueFd\<close> objects no descriptor has two owners, the
  open descriptors are exactly the owned and the unowned raw ones, no object ever closed a
  descriptor that was not open, and when no object and no raw descriptor is left, nothing
  is open: no double close and no leak.\<close>

theorem UniqueFd_ownership:
  assumes "fd_reach h"
  shows "\<not> bad_close h \<and>
    (\<forall>i j f. owns h i f \<and> owns h j f \<longrightarrow> i = j) \<and>
    (\<forall>f. f \<in> open_fds h \<longleftrightarrow> f \<in> raw_fds h \<or> (\<exists>k. owns h k f)) \<and>
    (objs h = Map.empty \<and> raw_fds h = {} \<longrightarrow> open_fds h = {})"
proof -
  have inv: "own_inv (fd_view h)" using fdo.reach_inv assms by (simp add: fd_reach_def)
  have own: "f \<in> open_fds h \<longleftrightarrow> f \<in> raw_fds h \<or> (\<exists>k. owns h k f)" for f
    using own_invD(3) [OF inv, of f] fd_own_ex [of h f] by (simp add: fd_view_def)
  have "i = j" if "owns h i f" "owns h j f" for i j f
    using that own_invD(2) [OF inv, of "Obj i" f "Obj j"] fd_own_owns [of h] by (simp add: fd_view_def)
  moreover have "open_fds h = {}" if "objs h = Map.empty" "raw_fds h = {}"
    using that own by (auto simp: owns_def)
  ultimately show ?thesis using own_invD(1) [OF inv] own by (auto simp: fd_view_def)
qed

theorem UniqueFd_ownership_witness:
  "fd_reach \<lparr>objs = [0 \<mapsto> UniqueFd_make (-1) False, 1 \<mapsto> UniqueFd_make 3 False],
       open_fds = {3}, raw_fds = {}, bad_close = False\<rparr> \<and>
   \<not> bad_close \<lparr>objs = [0 \<mapsto> UniqueFd_make (-1) False, 1 \<mapsto> UniqueFd_make 3 False],
       open_fds = {3}, raw_fds = {}, bad_close = False\<rparr>"
proof -
  let ?h1 = "\<lparr>objs = Map.empty, open_fds = {3}, raw_fds = {3}, bad_close = False\<rparr>"
  let ?h2 = "\<lparr>objs = [0 \<mapsto> UniqueFd_make 3 False], open_fds = {3}, raw_fds = {}, bad_close = False\<rparr>"
  let ?h3 = "\<lparr>objs = [0 \<mapsto> UniqueFd_make (-1) False, 1 \<mapsto> UniqueFd_make 3 False],
       open_fds = {3}, raw_fds = {}, bad_close = False\<rparr>"
  have "fd_step fd_heap_init ?h1"
    using fd_step.kernel_open [of 3 fd_heap_init] by (simp add: fd_heap_init_def)
  moreover have "fd_step ?h1 ?h2" using fd_step.make [of ?h1 0 3 False] by simp
  moreover have "fd_step ?h2 ?h3"
    using fd_step.move_ctor [of ?h2 1 0 "UniqueFd_make 3 False"] by (simp add: ufd_defs fun_upd_twist)
  ultimately have "fd_reach ?h3" by (auto simp: fd_reach_def)
  with UniqueFd_ownership [OF this] show ?thesis by blast
qed

text \<open>\<^verbatim>\<open>to_wire\<close> frames a response: when the reason and the headers carry no CR, the first
  blank line of the image ends the head, the head is the status line and one line per
  header, with a \<^verbatim>\<open>Content-Length\<close> of the body's size added unless a header already names
  it, and what follows the blank line is the body, or nothing for a HEAD response.\<close>

theorem to_wire_framing:
  assumes "CR \<notin> set (reason r)" "\<forall>h \<in> set (headers r). CR \<notin> set (fst h) \<and> CR \<notin> set (snd h)"
  shows "\<exists>he. str_find CRLFCRLF (to_wire r) 0 = Some he \<and>
    take (he + 2) (to_wire r) = line_block (wire_lines r) \<and>
    drop (he + 4) (to_wire r) = (if head_only r then [] else body r)"
proof -
  note head = to_wire_head [OF wire_lines_ok [OF assms]]
  have "2 \<le> length (line_block (wire_lines r))" by (simp add: wire_lines_def)
  with head show ?thesis by (auto simp: to_wire_lines)
qed

theorem to_wire_framing_witness:
  "\<exists>he. str_find CRLFCRLF (to_wire (HttpResponse_default\<lparr>headers := [(''Server'', ''cws'')], body := ''hi''\<rparr>)) 0 =
      Some he \<and>
    take (he + 2) (to_wire (HttpResponse_default\<lparr>headers := [(''Server'', ''cws'')], body := ''hi''\<rparr>)) =
      line_block [''HTTP/1.1 200 OK'', ''Server: cws'', ''Content-Length: 2''] \<and>
    drop (he + 4) (to_wire (HttpResponse_default\<lparr>headers := [(''Server'', ''cws'')], body := ''hi''\<rparr>)) = ''hi''"
proof -
  let ?r = "HttpResponse_default\<lparr>headers := [(''Server'', ''cws'')], body := ''hi''\<rparr>"
  have "int_to_string 200 = ''200''" "to_string (Suc (Suc 0)) = ''2''" "to_lower ''Server'' = ''server''"
    by (code_simp, code_simp, code_simp)
  then have "wire_lines ?r = [''HTTP/1.1 200 OK'', ''Server: cws'', ''Content-Length: 2'']"
    by (simp add: wire_lines_def HttpResponse_default_def header_line_def names_content_length_def)
  then show ?thesis
    using to_wire_framing [of ?r] by (simp add: HttpResponse_default_def CR_def)
qed

text \<open>\<^verbatim>\<open>trim\<close>, two index loops and a \<^verbatim>\<open>substr\<close>, returns the input without its leading
  and trailing white space, whatever the input, and nothing more is cut the second time.\<close>

theorem trim_correct:
  "trim s = rev (dropWhile isspace (rev (dropWhile isspace s))) \<and> trim (trim s) = trim s"
  using trim_eq_strip [of s] trim_idem [of s] by (simp add: strip_def)

end
