(* ===== verification/HttpParser.thy ===== *)
theory HttpParser
  imports Types
begin

text \<open>
  The request parser of \<^verbatim>\<open>coroutineWebServer/HttpServer.cpp\<close>: \<^verbatim>\<open>strip_query\<close> and
  \<^verbatim>\<open>try_parse_request\<close> with its token lambda and its header loop. The lemmas show
  that a parsed request does not depend on the bytes that follow it, that the parser takes
  exactly head and body, and that it inverts the printing of a well-formed request.
\<close>

section \<open>Model\<close>

definition strip_query :: "string \<Rightarrow> string" where
  "strip_query target =
     (case str_find_char (CHR ''?'') target 0 of
        Some pos \<Rightarrow> take pos target
      | None \<Rightarrow> target)"

record ParsedRequest =
  request :: HttpRequest
  consumed :: nat

text \<open>The lambda \<^verbatim>\<open>next_token\<close>: the token at \<open>pos\<close> and the new \<open>pos\<close>.\<close>

definition next_token :: "string \<Rightarrow> nat \<Rightarrow> string \<times> nat" where
  "next_token line pos =
     (let bg = scan_while (\<lambda>c. c = CHR '' '') line pos;
          e = scan_while (\<lambda>c. c \<noteq> CHR '' '') line bg
      in (substr line bg (e - bg), e))"

text \<open>\<^verbatim>\<open>unordered_map::emplace\<close>: an existing key keeps its value.\<close>

definition emplace :: "(string \<rightharpoonup> string) \<Rightarrow> string \<Rightarrow> string \<Rightarrow> (string \<rightharpoonup> string)" where
  "emplace m k v = (case m k of None \<Rightarrow> m(k \<mapsto> v) | Some _ \<Rightarrow> m)"

text \<open>One header line: without a colon it is skipped.\<close>

definition add_header :: "string \<Rightarrow> (string \<rightharpoonup> string) \<Rightarrow> (string \<rightharpoonup> string)" where
  "add_header line hs =
     (case str_find_char (CHR '':'') line 0 of
        None \<Rightarrow> hs
      | Some colon \<Rightarrow>
          emplace hs (to_lower (trim (take colon line))) (trim (drop (colon + 1) line)))"

text \<open>The \<^verbatim>\<open>while (line_begin < header_end)\<close> loop.\<close>

function parse_headers ::
  "string \<Rightarrow> nat \<Rightarrow> nat \<Rightarrow> (string \<rightharpoonup> string) \<Rightarrow> (string \<rightharpoonup> string)" where
  "parse_headers buffer header_end line_begin hs =
     (if line_begin < header_end then
        (case str_find CRLF buffer line_begin of
           None \<Rightarrow> hs
         | Some line_end \<Rightarrow>
             if header_end < line_end then hs
             else if line_end = line_begin then hs
             else parse_headers buffer header_end (line_end + 2)
               (add_header (substr buffer line_begin (line_end - line_begin)) hs))
      else hs)"
  by pat_completeness auto
termination
  by (relation "measure (\<lambda>(buffer, header_end, line_begin, hs). header_end - line_begin)")
    (auto dest: str_find_bound(1) [rotated])

declare parse_headers.simps [simp del]

definition content_length :: "(string \<rightharpoonup> string) \<Rightarrow> nat result" where
  "content_length hs =
     (case hs ''content-length'' of None \<Rightarrow> return 0 | Some v \<Rightarrow> stoul v)"

definition try_parse_request :: "string \<Rightarrow> ParsedRequest option" where
  "try_parse_request buffer =
     (case str_find CRLFCRLF buffer 0 of
        None \<Rightarrow> None
      | Some header_end \<Rightarrow>
     (let header_block = take (header_end + 2) buffer in
      case str_find CRLF header_block 0 of
        None \<Rightarrow> None
      | Some first_line_end \<Rightarrow>
     (let request_line = take first_line_end header_block;
          (m, pos1) = next_token request_line 0;
          (t, pos2) = next_token request_line pos1;
          (v, pos3) = next_token request_line pos2
      in if m = [] \<or> t = [] \<or> v = [] then None
         else
           let hs = parse_headers buffer header_end (first_line_end + 2) Map.empty
           in case content_length hs of
                Inl e \<Rightarrow> None
              | Inr body_length \<Rightarrow>
                  (let body_begin = header_end + 4;
                       body_end = size_add body_begin body_length
                   in if length buffer < body_end then None
                      else Some \<lparr>request = \<lparr>req_method = m, req_target = strip_query t,
                               req_version = v, req_headers = hs,
                               req_body = substr buffer body_begin body_length\<rparr>,
                             consumed = body_end\<rparr>))))"

section \<open>Stability under more input\<close>

lemma parse_headers_append:
  "occurs_at CRLF b he \<Longrightarrow> parse_headers (b @ t) he lb hs = parse_headers b he lb hs"
proof (induction b he lb hs rule: parse_headers.induct)
  case (1 b he lb hs)
  show ?case
  proof (cases "lb < he")
    case True
    then obtain le where le: "str_find CRLF b lb = Some le"
      using 1(2) str_find_None_iff [of CRLF b lb] by (cases "str_find CRLF b lb") auto
    have le': "str_find CRLF (b @ t) lb = Some le"
      by (rule str_find_append [OF _ le]) simp
    have "le + 2 \<le> length b" using str_find_bound(2) [OF _ le] by simp
    then have sub: "substr (b @ t) lb (le - lb) = substr b lb (le - lb)"
      using str_find_bound(1) [OF _ le] by (simp add: substr_def)
    show ?thesis
      using True 1 le
      by (simp add: parse_headers.simps [of "b @ t"] parse_headers.simps [of b he lb] le' sub)
  next
    case False
    then show ?thesis by (simp add: parse_headers.simps)
  qed
qed

text \<open>What the parser computes from the head, before it looks at the body.\<close>

definition head_fields ::
  "string \<Rightarrow> nat \<Rightarrow> ((string \<times> string \<times> string) \<times> (string \<rightharpoonup> string)) option" where
  "head_fields b he =
     (case str_find CRLF (take (he + 2) b) 0 of
        None \<Rightarrow> None
      | Some fle \<Rightarrow>
          (let line = take fle (take (he + 2) b);
               (m, p1) = next_token line 0;
               (t, p2) = next_token line p1;
               (v, p3) = next_token line p2
           in Some ((m, t, v), parse_headers b he (fle + 2) Map.empty)))"

text \<open>A complete head that can never be accepted.\<close>

definition malformed_head :: "string \<Rightarrow> bool" where
  "malformed_head b =
     (case str_find CRLFCRLF b 0 of
        None \<Rightarrow> False
      | Some he \<Rightarrow>
          (case head_fields b he of
             None \<Rightarrow> True
           | Some ((m, t, v), hs) \<Rightarrow>
               m = [] \<or> t = [] \<or> v = [] \<or> (case content_length hs of Inl e \<Rightarrow> True | Inr n \<Rightarrow> False)))"

lemma try_parse_head_fields:
  "try_parse_request b =
     (case str_find CRLFCRLF b 0 of
        None \<Rightarrow> None
      | Some he \<Rightarrow>
          (case head_fields b he of
             None \<Rightarrow> None
           | Some ((m, t, v), hs) \<Rightarrow>
               if m = [] \<or> t = [] \<or> v = [] then None
               else (case content_length hs of
                       Inl e \<Rightarrow> None
                     | Inr n \<Rightarrow>
                         if length b < size_add (he + 4) n then None
                         else Some \<lparr>request = \<lparr>req_method = m, req_target = strip_query t, req_version = v,
                                  req_headers = hs, req_body = substr b (he + 4) n\<rparr>,
                                consumed = size_add (he + 4) n\<rparr>)))"
  by (simp add: try_parse_request_def head_fields_def Let_def split: option.split prod.split sum.split)

lemma CRLFCRLF_found:
  assumes "str_find CRLFCRLF b 0 = Some he"
  shows "he + 4 \<le> length b" "occurs_at CRLF b he"
proof -
  show "he + 4 \<le> length b" using str_find_bound(2) [OF _ assms] by simp
  have "take 4 (drop he b) = CRLFCRLF"
    using assms str_find_Some_iff [of CRLFCRLF b 0 he] by (simp add: occurs_at_def)
  then have "take 2 (take 4 (drop he b)) = CRLF"
    by (simp only:) (simp add: CRLFCRLF_def CRLF_def)
  then show "occurs_at CRLF b he" by (simp add: occurs_at_def min_def)
qed

lemma head_fields_append:
  assumes "str_find CRLFCRLF b 0 = Some he"
  shows "head_fields (b @ t) he = head_fields b he"
  using CRLFCRLF_found [OF assms]
  by (simp add: head_fields_def parse_headers_append cong: option.case_cong)

lemma try_parse_SomeE:
  assumes "try_parse_request b = Some p"
  obtains he m t v n where "str_find CRLFCRLF b 0 = Some he"
    "head_fields b he = Some ((m, t, v), req_headers (request p))"
    "m \<noteq> []" "t \<noteq> []" "v \<noteq> []" "content_length (req_headers (request p)) = return n"
    "size_add (he + 4) n \<le> length b" "consumed p = size_add (he + 4) n"
    "request p = \<lparr>req_method = m, req_target = strip_query t, req_version = v,
       req_headers = req_headers (request p), req_body = substr b (he + 4) n\<rparr>"
  using assms
  by (auto simp: try_parse_head_fields split: option.splits prod.splits if_splits sum.splits)

lemma content_length_bound: "content_length hs = return n \<Longrightarrow> n < size_max"
  by (auto simp: content_length_def size_max_def dest: stoul_bound split: option.splits)

lemma try_parse_append:
  assumes parsed: "try_parse_request b = Some p"
    and n: "content_length (req_headers (request p)) = return n" "length b + n < size_max"
  shows "try_parse_request (b @ t) = Some p"
proof -
  obtain he m tg v n' where f: "str_find CRLFCRLF b 0 = Some he"
    "head_fields b he = Some ((m, tg, v), req_headers (request p))"
    "m \<noteq> []" "tg \<noteq> []" "v \<noteq> []" "content_length (req_headers (request p)) = return n'"
    "size_add (he + 4) n' \<le> length b" "consumed p = size_add (he + 4) n'"
    "request p = \<lparr>req_method = m, req_target = strip_query tg, req_version = v,
       req_headers = req_headers (request p), req_body = substr b (he + 4) n'\<rparr>"
    using parsed by (rule try_parse_SomeE)
  have "n' = n" using f(6) n(1) by simp
  have "he + 4 \<le> length b" using CRLFCRLF_found(1) [OF f(1)] .
  then have sum: "size_add (he + 4) n = he + 4 + n" using n(2) by (simp add: size_add_def)
  then have "substr (b @ t) (he + 4) n = substr b (he + 4) n"
    using f(7) \<open>n' = n\<close> by (simp add: substr_def)
  moreover have "str_find CRLFCRLF (b @ t) 0 = Some he" by (rule str_find_append [OF _ f(1)]) simp
  moreover have "p = \<lparr>request = request p, consumed = consumed p\<rparr>" by simp
  ultimately show ?thesis
    using f head_fields_append [OF f(1)] \<open>n' = n\<close> by (simp add: try_parse_head_fields)
qed

lemma try_parse_frame:
  assumes parsed: "try_parse_request b = Some p"
    and n: "content_length (req_headers (request p)) = return n" "length b + n < size_max"
  shows "\<exists>he. str_find CRLFCRLF b 0 = Some he \<and> consumed p = he + 4 + n \<and> consumed p \<le> length b
    \<and> req_body (request p) = take n (drop (he + 4) b) \<and> length (req_body (request p)) = n"
proof -
  obtain he m tg v n' where f: "str_find CRLFCRLF b 0 = Some he"
    "content_length (req_headers (request p)) = return n'"
    "size_add (he + 4) n' \<le> length b" "consumed p = size_add (he + 4) n'"
    "request p = \<lparr>req_method = m, req_target = strip_query tg, req_version = v,
       req_headers = req_headers (request p), req_body = substr b (he + 4) n'\<rparr>"
    using parsed by (rule try_parse_SomeE)
  have "n' = n" using f(2) n(1) by simp
  have "he + 4 \<le> length b" using CRLFCRLF_found(1) [OF f(1)] .
  then have "size_add (he + 4) n = he + 4 + n" using n(2) by (simp add: size_add_def)
  moreover have "req_body (request p) = substr b (he + 4) n"
    using f(5) \<open>n' = n\<close> by (metis HttpRequest.select_convs(5))
  ultimately show ?thesis using f \<open>n' = n\<close> by (auto simp: substr_def)
qed

lemma malformed_no_parse:
  assumes "malformed_head b"
  shows "try_parse_request (b @ t) = None"
proof -
  obtain he where he: "str_find CRLFCRLF b 0 = Some he"
    using assms by (auto simp: malformed_head_def split: option.splits)
  then have "str_find CRLFCRLF (b @ t) 0 = Some he" by (intro str_find_append) simp_all
  then show ?thesis
    using assms he
    by (auto simp: try_parse_head_fields malformed_head_def head_fields_append [OF he]
        split: option.splits prod.splits sum.splits)
qed

section \<open>Printing and parsing back\<close>

text \<open>A request as a client writes it.\<close>

definition print_head :: "string \<Rightarrow> string \<Rightarrow> string \<Rightarrow> (string \<times> string) list \<Rightarrow> string" where
  "print_head m t v hs = line_block ((m @ '' '' @ t @ '' '' @ v) # map header_line hs) @ CRLF"

definition token_ok :: "string \<Rightarrow> bool" where
  "token_ok s = (s \<noteq> [] \<and> CHR '' '' \<notin> set s \<and> CR \<notin> set s)"

definition name_ok :: "string \<Rightarrow> bool" where
  "name_ok k = (CHR '':'' \<notin> set k \<and> CR \<notin> set k \<and> strip k = k)"

definition key_ok :: "string \<Rightarrow> bool" where
  "key_ok k = (CHR '':'' \<notin> set k \<and> CR \<notin> set k \<and> strip k = k \<and> to_lower k = k)"

definition value_ok :: "string \<Rightarrow> bool" where
  "value_ok v = (CR \<notin> set v \<and> strip v = v)"

definition fields_ok :: "string \<Rightarrow> string \<Rightarrow> string \<Rightarrow> (string \<times> string) list \<Rightarrow> bool" where
  "fields_ok m t v hs =
     (token_ok m \<and> token_ok t \<and> CHR ''?'' \<notin> set t \<and> token_ok v \<and>
      (\<forall>h \<in> set hs. key_ok (fst h) \<and> value_ok (snd h)))"

text \<open>Names of headers in any case, and any target.\<close>

definition lines_ok :: "string \<Rightarrow> string \<Rightarrow> string \<Rightarrow> (string \<times> string) list \<Rightarrow> bool" where
  "lines_ok m t v hs =
     (token_ok m \<and> token_ok t \<and> token_ok v \<and> (\<forall>h \<in> set hs. name_ok (fst h) \<and> value_ok (snd h)))"

definition lower_keys :: "(string \<times> string) list \<Rightarrow> (string \<times> string) list" where
  "lower_keys hs = map (\<lambda>(k, v). (to_lower k, v)) hs"

lemma fields_lines:
  assumes "fields_ok m t v hs"
  shows "lines_ok m t v hs" "lower_keys hs = hs" "CHR ''?'' \<notin> set t"
  using assms by (auto simp: fields_ok_def lines_ok_def key_ok_def name_ok_def lower_keys_def intro!: map_idI)

lemma next_token_at:
  assumes "tok \<noteq> []" "CHR '' '' \<notin> set tok" "r = [] \<or> hd r = CHR '' ''"
  shows "next_token (u @ replicate k (CHR '' '') @ tok @ r) (length u) =
    (tok, length u + k + length tok)"
proof -
  let ?s = "u @ replicate k (CHR '' '') @ tok @ r"
  have tw: "takeWhile (\<lambda>c. c = CHR '' '') (replicate k (CHR '' '') @ tok @ r) = replicate k (CHR '' '')"
    using assms by (cases tok) (auto simp: takeWhile_append)
  have bg: "scan_while (\<lambda>c. c = CHR '' '') ?s (length u) = length u + k"
    by (simp add: scan_while_eq tw)
  have "takeWhile (\<lambda>c. c \<noteq> CHR '' '') (tok @ r) = tok"
    using assms by (cases r) (auto simp: takeWhile_append)
  then have e: "scan_while (\<lambda>c. c \<noteq> CHR '' '') ?s (length u + k) = length u + k + length tok"
    by (simp add: scan_while_eq)
  show ?thesis by (simp add: next_token_def bg e substr_def)
qed

lemma next_tokens:
  assumes "token_ok m" "token_ok t" "token_ok v"
  shows "next_token (m @ '' '' @ t @ '' '' @ v) 0 = (m, length m)"
    and "next_token (m @ '' '' @ t @ '' '' @ v) (length m) = (t, length m + 1 + length t)"
    and "next_token (m @ '' '' @ t @ '' '' @ v) (length m + 1 + length t) =
      (v, length m + 1 + length t + 1 + length v)"
  using assms next_token_at [of m "'' '' @ t @ '' '' @ v" "[]" 0]
    next_token_at [of t "'' '' @ v" m 1] next_token_at [of v "[]" "m @ '' '' @ t" 1]
  by (simp_all add: token_ok_def)

lemma parse_headers_block:
  assumes "\<forall>l \<in> set ls. line_ok l"
  shows "parse_headers (u @ line_block ls @ CRLF @ r) (length u + length (line_block ls) - 2)
    (length u) hs = foldl (\<lambda>hs l. add_header l hs) hs ls"
  using assms
proof (induction ls arbitrary: u hs)
  case Nil
  have "\<not> length u < length u - 2" by linarith
  then show ?case by (simp add: parse_headers.simps [of _ "length u - 2"])
next
  case (Cons l ls)
  then have l: "l \<noteq> []" "CR \<notin> set l" by (simp_all add: line_ok_def)
  let ?b = "u @ line_block (l # ls) @ CRLF @ r"
  let ?he = "length u + length (line_block (l # ls)) - 2"
  have find: "str_find CRLF ?b (length u) = Some (length u + length l)"
    using str_find_from [of CRLF u "l @ CRLF @ line_block ls @ CRLF @ r"] l(2)
    by (simp add: str_find_CRLF)
  have "parse_headers ?b ?he (length u) hs =
      parse_headers ?b ?he (length u + length l + 2) (add_header l hs)"
    using l(1) find by (subst parse_headers.simps) (simp add: substr_def)
  also have "\<dots> = foldl (\<lambda>hs l. add_header l hs) (add_header l hs) ls"
    using Cons.IH [of "u @ l @ CRLF" "add_header l hs"] Cons.prems by (simp add: add.assoc)
  finally show ?case by simp
qed

lemma add_header_line:
  assumes "name_ok k" "value_ok v"
  shows "add_header (header_line (k, v)) hs = emplace hs (to_lower k) v"
proof -
  have "str_find_char (CHR '':'') (k @ '': '' @ v) 0 = Some (length k)"
    using assms(1) str_find_char_prefix [of "CHR '':''" k "'' '' @ v"] by (simp add: name_ok_def)
  moreover have "strip ('' '' @ v) = v"
    using assms(2) by (simp add: value_ok_def strip_def isspace_def)
  ultimately show ?thesis
    using assms(1) by (simp add: add_header_def header_line_def trim_eq_strip name_ok_def)
qed

lemma foldl_headers:
  assumes "\<forall>h \<in> set hs. name_ok (fst h) \<and> value_ok (snd h)"
  shows "foldl (\<lambda>hs l. add_header l hs) m0 (map header_line hs) = map_of (lower_keys hs) ++ m0"
  using assms
proof (induction hs arbitrary: m0)
  case Nil
  then show ?case by (simp add: lower_keys_def)
next
  case (Cons h hs)
  obtain k v where h: "h = (k, v)" by (cases h)
  with Cons.prems have "add_header (header_line h) m0 = emplace m0 (to_lower k) v"
    using add_header_line by simp
  moreover have "map_of (lower_keys hs) ++ emplace m0 (to_lower k) v = map_of (lower_keys (h # hs)) ++ m0"
    by (auto simp: emplace_def h lower_keys_def map_add_def fun_eq_iff split: option.splits)
  ultimately show ?case using Cons.IH Cons.prems by (simp del: map_of.simps)
qed

lemma header_line_ok: "name_ok k \<Longrightarrow> value_ok v \<Longrightarrow> line_ok (header_line (k, v))"
  by (simp add: name_ok_def value_ok_def line_ok_def header_line_def) (simp add: CR_def)

lemma strip_query_id: "CHR ''?'' \<notin> set t \<Longrightarrow> strip_query t = t"
  using str_find_char_None_iff [of "CHR ''?''" t 0] by (simp add: strip_query_def)

lemma head_fields_print:
  assumes ok: "lines_ok m t v hs"
  shows "str_find CRLFCRLF (print_head m t v hs @ r) 0 = Some (length (print_head m t v hs) - 4)"
    and "head_fields (print_head m t v hs @ r) (length (print_head m t v hs) - 4) =
      Some ((m, t, v), map_of (lower_keys hs))"
proof -
  let ?line = "m @ '' '' @ t @ '' '' @ v"
  let ?ls = "?line # map header_line hs"
  have tok: "token_ok m" "token_ok t" "token_ok v" using ok by (simp_all add: lines_ok_def)
  have line: "line_ok ?line" "CR \<notin> set ?line"
    using tok by (simp_all add: token_ok_def line_ok_def) (simp_all add: CR_def)
  have lines: "\<forall>l \<in> set ?ls. line_ok l"
    using ok line by (auto simp: lines_ok_def intro!: header_line_ok)
  show "str_find CRLFCRLF (print_head m t v hs @ r) 0 = Some (length (print_head m t v hs) - 4)"
    using str_find_line_block [OF _ lines, of r] by (simp add: print_head_def)
  define he where "he = length (print_head m t v hs) - 4"
  have he: "he = length (?line @ CRLF) + length (line_block (map header_line hs)) - 2"
    by (simp add: he_def print_head_def)
  have "he + 2 = length (line_block ?ls)" by (simp add: he_def print_head_def)
  moreover have "print_head m t v hs @ r = line_block ?ls @ CRLF @ r" by (simp add: print_head_def)
  ultimately have blk: "take (he + 2) (print_head m t v hs @ r) = line_block ?ls"
    by (simp del: line_block_simps)
  have fle: "str_find CRLF (line_block ?ls) 0 = Some (length ?line)"
    using str_find_CRLF [OF line(2), of "line_block (map header_line hs)"] by simp
  have "parse_headers (print_head m t v hs @ r) he (length ?line + 2) Map.empty = map_of (lower_keys hs)"
    using parse_headers_block [of "map header_line hs" "?line @ CRLF" r Map.empty]
      lines foldl_headers [of hs Map.empty] ok
    by (simp add: he print_head_def lines_ok_def)
  then show "head_fields (print_head m t v hs @ r) (length (print_head m t v hs) - 4) =
      Some ((m, t, v), map_of (lower_keys hs))"
    using next_tokens [OF tok] unfolding head_fields_def he_def [symmetric] blk fle by simp
qed

lemma try_parse_lines:
  assumes ok: "lines_ok m t v hs" and len: "content_length (map_of (lower_keys hs)) = return (length bd)"
    and fits: "length (print_head m t v hs) + length bd < size_max"
  shows "try_parse_request (print_head m t v hs @ bd @ rest) =
    Some \<lparr>request = \<lparr>req_method = m, req_target = strip_query t, req_version = v,
        req_headers = map_of (lower_keys hs), req_body = bd\<rparr>,
      consumed = length (print_head m t v hs) + length bd\<rparr>"
proof -
  note h = head_fields_print [OF ok, of "bd @ rest"]
  have "4 \<le> length (print_head m t v hs)" by (simp add: print_head_def)
  moreover have "m \<noteq> []" "t \<noteq> []" "v \<noteq> []"
    using ok by (auto simp: lines_ok_def token_ok_def)
  moreover have "size_add (length (print_head m t v hs)) (length bd) =
      length (print_head m t v hs) + length bd"
    using fits by (simp add: size_add_def)
  ultimately show ?thesis
    using h len by (simp add: try_parse_head_fields substr_def)
qed

lemma try_parse_print:
  assumes ok: "fields_ok m t v hs" and len: "content_length (map_of hs) = return (length bd)"
    and fits: "length (print_head m t v hs) + length bd < size_max"
  shows "try_parse_request (print_head m t v hs @ bd @ rest) =
    Some \<lparr>request = \<lparr>req_method = m, req_target = t, req_version = v,
        req_headers = map_of hs, req_body = bd\<rparr>,
      consumed = length (print_head m t v hs) + length bd\<rparr>"
  using try_parse_lines [OF fields_lines(1) [OF ok], of bd rest] len fits fields_lines(2,3) [OF ok]
  by (simp add: strip_query_id)

section \<open>Properties\<close>

text \<open>C11. A well-formed request, printed and followed by any bytes, is parsed back to its
  method, target, version, headers and body, and exactly its own bytes are consumed: the
  bytes of the next pipelined request stay in the buffer.\<close>

theorem try_parse_roundtrip:
  assumes "fields_ok m t v hs" "content_length (map_of hs) = return (length bd)"
    and "length (print_head m t v hs) + length bd < size_max"
  shows "try_parse_request (print_head m t v hs @ bd @ rest) =
    Some \<lparr>request = \<lparr>req_method = m, req_target = t, req_version = v,
        req_headers = map_of hs, req_body = bd\<rparr>,
      consumed = length (print_head m t v hs @ bd)\<rparr>"
  using try_parse_print [OF assms] by simp

lemma sample_fields_ok:
  "fields_ok ''POST'' ''/a'' ''HTTP/1.1'' [(''content-length'', ''2'')]"
  "content_length (map_of [(''content-length'', ''2'')]) = return 2"
  by (simp add: fields_ok_def token_ok_def key_ok_def value_ok_def strip_def isspace_def
        to_lower_def tolower_def CR_def)
    (simp add: content_length_def stoul_def strto_scan_def isspace_def isdigit_def digits_val_def
      digit_val_def size_max_def)

theorem try_parse_roundtrip_witness:
  "try_parse_request
     (print_head ''POST'' ''/a'' ''HTTP/1.1'' [(''content-length'', ''2'')] @ ''hi'' @ ''GET'') =
   Some \<lparr>request = \<lparr>req_method = ''POST'', req_target = ''/a'', req_version = ''HTTP/1.1'',
       req_headers = [''content-length'' \<mapsto> ''2''], req_body = ''hi''\<rparr>, consumed = 41\<rparr>"
  using try_parse_roundtrip [OF sample_fields_ok(1), of "''hi''" "''GET''"] sample_fields_ok(2)
  by (simp add: print_head_def header_line_def size_max_def)

text \<open>C25. Once a request has been parsed, bytes that arrive later do not change it (as long
  as its length field does not overflow \<^verbatim>\<open>size_t\<close>): where the stream is cut does not
  matter.\<close>

theorem try_parse_stable:
  assumes "try_parse_request b = Some p"
    and "content_length (req_headers (request p)) = return n" "length b + n < size_max"
  shows "try_parse_request (b @ t) = Some p"
  using assms by (rule try_parse_append)

theorem try_parse_stable_witness:
  "\<exists>p. try_parse_request (print_head ''POST'' ''/a'' ''HTTP/1.1'' [(''content-length'', ''2'')] @ ''hi'') =
      Some p \<and>
    try_parse_request ((print_head ''POST'' ''/a'' ''HTTP/1.1'' [(''content-length'', ''2'')] @ ''hi'') @ ''X'') =
      Some p"
proof -
  let ?b = "print_head ''POST'' ''/a'' ''HTTP/1.1'' [(''content-length'', ''2'')] @ ''hi''"
  obtain p where "try_parse_request ?b = Some p" "req_headers (request p) = map_of [(''content-length'', ''2'')]"
    using try_parse_print [OF sample_fields_ok(1), of "''hi''" "[]"] sample_fields_ok(2)
    by (simp add: print_head_def header_line_def size_max_def)
  with try_parse_stable [of ?b p 2 "''X''"] sample_fields_ok(2) show ?thesis
    by (auto simp: print_head_def header_line_def size_max_def)
qed

text \<open>What the parser consumes: the head up to and including the first blank line and
  exactly \<^verbatim>\<open>Content-Length\<close> bytes of body, all of them in the buffer, whenever the sum
  does not overflow.\<close>

theorem try_parse_consumes:
  assumes "try_parse_request b = Some p"
    and "content_length (req_headers (request p)) = return n" "length b + n < size_max"
  shows "\<exists>he. str_find CRLFCRLF b 0 = Some he \<and> consumed p = he + 4 + n \<and> consumed p \<le> length b
    \<and> req_body (request p) = take n (drop (he + 4) b) \<and> length (req_body (request p)) = n"
  using assms by (rule try_parse_frame)

theorem try_parse_consumes_witness:
  "\<exists>he. str_find CRLFCRLF (print_head ''POST'' ''/a'' ''HTTP/1.1'' [(''content-length'', ''2'')] @ ''hi'') 0 =
    Some he \<and> he + 6 = 41"
proof -
  let ?b = "print_head ''POST'' ''/a'' ''HTTP/1.1'' [(''content-length'', ''2'')] @ ''hi''"
  obtain p where "try_parse_request ?b = Some p" "req_headers (request p) = map_of [(''content-length'', ''2'')]"
    "consumed p = 41"
    using try_parse_print [OF sample_fields_ok(1), of "''hi''" "[]"] sample_fields_ok(2)
    by (simp add: print_head_def header_line_def size_max_def)
  with try_parse_consumes [of ?b p 2] sample_fields_ok(2) show ?thesis
    by (auto simp: print_head_def header_line_def size_max_def)
qed

text \<open>A complete head that is malformed (fewer than three tokens in the request line, or
  a length that \<^verbatim>\<open>std::stoul\<close> rejects) never parses, whatever bytes follow: the caller,
  which takes an empty result for an incomplete request, keeps reading.\<close>

theorem try_parse_malformed:
  assumes "malformed_head b"
  shows "try_parse_request (b @ t) = None"
  using assms by (rule malformed_no_parse)

theorem try_parse_malformed_witness:
  "malformed_head (''GET /'' @ CRLFCRLF) \<and> try_parse_request ((''GET /'' @ CRLFCRLF) @ ''abc'') = None"
proof -
  have "malformed_head (''GET /'' @ CRLFCRLF)" by code_simp
  with try_parse_malformed [OF this] show ?thesis by blast
qed

end
