(* ===== verification/HttpFiles.thy ===== *)
theory HttpFiles
  imports HttpParser
begin

text \<open>
  The part of \<^verbatim>\<open>coroutineWebServer/HttpServer.cpp\<close> that turns a request into a response:
  \<^verbatim>\<open>detect_docroot\<close>, \<^verbatim>\<open>resolve_path\<close>, \<^verbatim>\<open>load_file\<close>, \<^verbatim>\<open>build_response\<close> and
  \<^verbatim>\<open>fallback_favicon\<close>. The file system is an argument. The lemmas say which paths a target can
  reach, what every response looks like, and that every file opened is closed.
\<close>

section \<open>Model\<close>

text \<open>
  What the operating system shows of an opened file: the result of \<^verbatim>\<open>fstat\<close>, the mapped
  bytes (\<open>None\<close> for \<^verbatim>\<open>MAP_FAILED\<close>) and what an \<^verbatim>\<open>ifstream\<close> reads (\<open>None\<close> when it
  does not open).
\<close>

record file_view =
  fv_fd :: fd
  fv_fstat :: int
  fv_regular :: bool
  fv_size :: nat
  fv_mapped :: "string option"
  fv_stream :: "string option"

record filesystem =
  fs_exists :: "path \<Rightarrow> bool"
  fs_open :: "path \<Rightarrow> file_view option"
  fs_cwd :: "path option"
  fs_cwd_throw :: "path result"

definition detect_step :: "filesystem \<Rightarrow> path \<Rightarrow> bool" where
  "detect_step fs probe = fs_exists fs (path_append (path_append probe ''datum'') ''WebServer.png'')"

text \<open>The loop of \<^verbatim>\<open>detect_docroot\<close>, with the iterations left.\<close>

fun detect_probe :: "filesystem \<Rightarrow> nat \<Rightarrow> path \<Rightarrow> path option" where
  "detect_probe fs 0 probe = None"
| "detect_probe fs (Suc n) probe =
     (if detect_step fs probe then Some probe
      else if \<not> has_parent_path probe then None
      else detect_probe fs n (parent_path probe))"

text \<open>\<^verbatim>\<open>fs::current_path(ec)\<close> is \<open>None\<close> on error, and then the throwing overload is called.\<close>

definition detect_docroot :: "filesystem \<Rightarrow> path \<Rightarrow> path result" where
  "detect_docroot fs configured =
     (if configured \<noteq> [] then return configured
      else case fs_cwd fs of
             None \<Rightarrow> fs_cwd_throw fs
           | Some current \<Rightarrow>
               (case detect_probe fs 4 current of Some p \<Rightarrow> return p | None \<Rightarrow> return current))"

definition resolve_path :: "filesystem \<Rightarrow> path \<Rightarrow> string \<Rightarrow> path" where
  "resolve_path fs docroot target =
     (let t1 = strip_query target;
          t2 = (if t1 = [] \<or> t1 = ''/'' then ''/index.html'' else t1)
      in if t2 = ''/hello'' then []
         else if t2 = ''/favicon.ico'' then
           (let candidate_png = path_append (path_append docroot ''datum'') ''WebServer.png''
            in if fs_exists fs candidate_png then candidate_png
               else
                 let candidate_ico = path_append docroot ''favicon.ico''
                 in if fs_exists fs candidate_ico then candidate_ico else candidate_png)
         else
           (let t3 = (if t2 \<noteq> [] \<and> hd t2 = CHR ''/'' then tl t2 else t2);
                relative = lexically_normal t3
            in if \<not> path_is_safe relative then [] else path_append docroot relative))"

text \<open>\<^verbatim>\<open>load_file\<close>, with the descriptors closed on the way out.\<close>

definition load_file :: "filesystem \<Rightarrow> path \<Rightarrow> string option \<times> fd list" where
  "load_file fs p =
     (case fs_open fs p of
        None \<Rightarrow> (None, [])
      | Some fv \<Rightarrow>
          (let file = UniqueFd_make (fv_fd fv) False;
               body =
                 (if fv_fstat fv \<noteq> 0 \<or> \<not> fv_regular fv then None
                  else if fv_size fv = 0 then Some []
                  else case fv_mapped fv of
                         None \<Rightarrow> fv_stream fv
                       | Some mapped \<Rightarrow> Some (take (fv_size fv) mapped))
           in (body, UniqueFd_dtor file [])))"

definition fallback_favicon :: string where
  "fallback_favicon = ''favicon''"

definition text_plain :: string where
  "text_plain = ''text/plain; charset=utf-8''"

definition add_resp_header :: "string \<Rightarrow> string \<Rightarrow> HttpResponse \<Rightarrow> HttpResponse" where
  "add_resp_header k v r = r\<lparr>headers := headers r @ [(k, v)]\<rparr>"

definition build_response :: "filesystem \<Rightarrow> path \<Rightarrow> HttpRequest \<Rightarrow> HttpResponse" where
  "build_response fs docroot req =
     (let r0 = add_resp_header ''Connection'' (if keep_alive req then ''keep-alive'' else ''close'')
                 (add_resp_header ''Server'' ''CoroutineWebServer'' HttpResponse_default)
      in if is_post req then
           (add_resp_header ''Content-Type'' text_plain (r0\<lparr>body := req_body req\<rparr>))
             \<lparr>head_only := is_head req\<rparr>
         else if req_target req = ''/hello'' then
           (add_resp_header ''Content-Type'' text_plain
             (r0\<lparr>body := ''Hello from CoroutineWebServer'' @ [LF]\<rparr>))\<lparr>head_only := is_head req\<rparr>
         else
           (let resolved = resolve_path fs docroot (req_target req)
            in if resolved = [] \<and> req_target req \<noteq> ''/hello'' then
                 (add_resp_header ''Content-Type'' text_plain
                   (r0\<lparr>status := 400, reason := ''Bad Request'', body := ''Bad Request'' @ [LF]\<rparr>))
                   \<lparr>head_only := is_head req\<rparr>
               else if resolved \<noteq> [] then
                 (case fst (load_file fs resolved) of
                    None \<Rightarrow>
                      if req_target req = ''/favicon.ico'' then
                        (add_resp_header ''Content-Type'' text_plain (r0\<lparr>body := fallback_favicon\<rparr>))
                          \<lparr>head_only := is_head req\<rparr>
                      else
                        (add_resp_header ''Content-Type'' text_plain
                          (r0\<lparr>status := 404, reason := ''Not Found'', body := ''Not Found'' @ [LF]\<rparr>))
                          \<lparr>head_only := is_head req\<rparr>
                  | Some bd \<Rightarrow>
                      (add_resp_header ''Content-Type'' (mime_type_for resolved) (r0\<lparr>body := bd\<rparr>))
                        \<lparr>head_only := is_head req\<rparr>)
               else
                 (add_resp_header ''Content-Type'' text_plain (r0\<lparr>body := fallback_favicon\<rparr>))
                   \<lparr>head_only := is_head req\<rparr>))"

section \<open>Which paths a target reaches\<close>

text \<open>The names walked along a path, the root aside.\<close>

definition walked :: "path \<Rightarrow> string list" where
  "walked p = filter (\<lambda>n. n \<noteq> []) (split_slash p)"

lemma split_slash_snoc: "split_slash (a @ SLASH # b) = split_slash a @ split_slash b"
proof (induction a)
  case Nil
  then show ?case by simp
next
  case (Cons c a)
  obtain w ws where "split_slash a = w # ws" by (cases "split_slash a") auto
  with Cons show ?case by simp
qed

lemma walked_append:
  assumes "\<not> is_absolute b"
  shows "walked (path_append a b) = walked a @ walked b"
proof -
  consider "a = []" | a' where "a = a' @ [SLASH]" | "a \<noteq> []" "last a \<noteq> SLASH"
    by (cases a rule: rev_cases) auto
  then show ?thesis
  proof cases
    case 1
    with assms show ?thesis by (simp add: walked_def path_append_def)
  next
    case (2 a')
    with assms show ?thesis
      by (simp add: walked_def path_append_def split_slash_snoc)
  next
    case 3
    with assms show ?thesis by (simp add: walked_def path_append_def split_slash_snoc)
  qed
qed

lemma is_absolute_append:
  "\<not> is_absolute b \<Longrightarrow> is_absolute (path_append a b) = is_absolute a"
  by (cases a) (auto simp: path_append_def is_absolute_def)

lemma path_append_absolute: "is_absolute b \<Longrightarrow> path_append a b = b"
  by (simp add: path_append_def)

lemma walked_subset: "set (walked p) \<subseteq> set (path_parts p)"
  by (auto simp: walked_def path_parts_def path_names_def Let_def)

lemma lexically_normal_nonempty: "p \<noteq> [] \<Longrightarrow> lexically_normal p \<noteq> []"
  by (auto simp: lexically_normal_def Let_def split: prod.split)

lemma path_append_nonempty: "b \<noteq> [] \<Longrightarrow> path_append a b \<noteq> []"
  by (auto simp: path_append_def)

text \<open>A path below the document root: what is walked after it has no \<^verbatim>\<open>..\<close>.\<close>

definition below :: "path \<Rightarrow> path \<Rightarrow> bool" where
  "below docroot p =
     (is_absolute p = is_absolute docroot \<and>
      (\<exists>ns. walked p = walked docroot @ ns \<and> ''..'' \<notin> set ns))"

lemma below_append:
  assumes "\<not> is_absolute r" "''..'' \<notin> set (walked r)"
  shows "below d (path_append d r)"
  using assms by (auto simp: below_def walked_append is_absolute_append)

lemma below_trans: "below a b \<Longrightarrow> below b c \<Longrightarrow> below a c"
  by (auto simp: below_def)

lemma plain_name: "is_name n \<Longrightarrow> n \<noteq> ''..'' \<Longrightarrow> below d (path_append d n)"
  by (rule below_append) (auto simp: is_name_def is_absolute_def walked_def split_slash_word
      dest: hd_in_set)

lemma resolve_path_below:
  assumes "resolve_path fs d t = p" "p \<noteq> []" "take 2 t \<noteq> ''//''"
  shows "below d p"
proof -
  define t1 where "t1 = strip_query t"
  define t2 where "t2 = (if t1 = [] \<or> t1 = ''/'' then ''/index.html'' else t1)"
  define t3 where "t3 = (if t2 \<noteq> [] \<and> hd t2 = CHR ''/'' then tl t2 else t2)"
  have datum: "below d (path_append (path_append d ''datum'') ''WebServer.png'')"
    by (rule below_trans [OF plain_name plain_name]) (simp_all add: is_name_def SLASH_def)
  have ico: "below d (path_append d ''favicon.ico'')"
    by (rule plain_name) (simp_all add: is_name_def SLASH_def)
  have "\<not> is_absolute t3"
  proof -
    have "t1 = take (length t1) t"
      by (auto simp: t1_def strip_query_def min_def split: option.split)
    then have "take 2 t1 = ''//'' \<Longrightarrow> take 2 t = ''//''"
      by (metis min.commute min.orderE take_all_iff take_take nat_le_linear length_take
          length_Cons list.size(3) numeral_2_eq_2)
    with assms(3) have "take 2 t1 \<noteq> ''//''" by blast
    then show ?thesis
      by (cases t1; cases "tl t1") (auto simp: t3_def t2_def is_absolute_def SLASH_def numeral_2_eq_2)
  qed
  then have rel: "\<not> is_absolute (lexically_normal t3)" by (simp add: is_absolute_normal)
  have gen: "below d (path_append d (lexically_normal t3))" if "path_is_safe (lexically_normal t3)"
    using that rel walked_subset [of "lexically_normal t3"]
    by (intro below_append) (auto simp: path_is_safe_def no_dotdot_iff)
  have "p = (if t2 = ''/hello'' then []
         else if t2 = ''/favicon.ico'' then
           (if fs_exists fs (path_append (path_append d ''datum'') ''WebServer.png'')
            then path_append (path_append d ''datum'') ''WebServer.png''
            else if fs_exists fs (path_append d ''favicon.ico'') then path_append d ''favicon.ico''
            else path_append (path_append d ''datum'') ''WebServer.png'')
         else if \<not> path_is_safe (lexically_normal t3) then []
         else path_append d (lexically_normal t3))"
    using assms(1) unfolding resolve_path_def t1_def [symmetric] t2_def [symmetric] t3_def [symmetric]
      Let_def by (simp add: t3_def Let_def)
  with assms(2) datum ico gen show ?thesis by (auto split: if_splits)
qed

text \<open>Below the root directory no \<^verbatim>\<open>..\<close> survives normalisation.\<close>

lemma norm_names_root:
  assumes "''..'' \<notin> set acc"
  shows "''..'' \<notin> set (fst (norm_names True acc tr ns))"
  using assms
proof (induction ns arbitrary: acc tr)
  case Nil
  then show ?case by simp
next
  case (Cons n ns)
  then show ?case by (cases acc) auto
qed

lemma path_parts_normal_root:
  assumes "is_absolute p"
  shows "''..'' \<notin> set (path_parts (lexically_normal p))"
proof -
  obtain acc tr where at: "norm_names True [] False (path_names p) = (acc, tr)" by (metis surj_pair)
  have names: "\<forall>n \<in> set (rev acc). is_name n" using norm_names_path [of True False p] at by simp
  have dd: "''..'' \<notin> set acc" using norm_names_root [of "[]" False "path_names p"] at by simp
  have p: "p \<noteq> []" using assms by (auto simp: is_absolute_def)
  define sep where "sep = (if acc \<noteq> [] \<and> tr \<and> hd acc \<noteq> ''..'' then [SLASH] else [])"
  have "lexically_normal p = SLASH # join_slash (rev acc) @ sep"
    using assms p at by (simp add: lexically_normal_def sep_def)
  moreover have "set (path_names (join_slash (rev acc) @ sep)) \<subseteq> insert [] (set acc)"
    using path_names_join [OF names] path_names_join_trail [OF names] by (auto simp: sep_def)
  ultimately have "set (path_names (lexically_normal p)) \<subseteq> insert [] (set acc)"
    by (simp only: path_names_slash_Cons)
  then show ?thesis using dd by (auto simp: path_parts_def SLASH_def)
qed

lemma resolve_path_escape:
  assumes "CHR ''?'' \<notin> set p"
  shows "resolve_path fs d (''//'' @ p) = lexically_normal (''/'' @ p)"
proof -
  have abs: "is_absolute (''/'' @ p)" by (simp add: is_absolute_def SLASH_def)
  have "strip_query (''//'' @ p) = ''//'' @ p" using assms by (intro strip_query_id) simp
  moreover have "path_is_safe (lexically_normal (''/'' @ p))"
    using path_parts_normal_root [OF abs] by (simp add: path_is_safe_def no_dotdot_iff)
  moreover have "path_append d (lexically_normal (''/'' @ p)) = lexically_normal (''/'' @ p)"
    using abs is_absolute_normal path_append_absolute by blast
  ultimately show ?thesis by (simp add: resolve_path_def)
qed

section \<open>What a response looks like\<close>

text \<open>The descriptor of an opened file is closed once, whatever the outcome.\<close>

lemma load_file_closes:
  "fs_open fs p = Some fv \<Longrightarrow> 0 \<le> fv_fd fv \<Longrightarrow> snd (load_file fs p) = [fv_fd fv]"
  by (simp add: load_file_def UniqueFd_dtor_def UniqueFd_reset_def UniqueFd_make_def Let_def)

lemma mime_type_clean: "CR \<notin> set (mime_type_for p)"
proof -
  have "set (mime_type_for p) \<subseteq> set ''abcdefghijklmnopqrstuvwxyz/;=-8 ''"
    by (simp add: mime_type_for_def Let_def split: option.split)
  then show ?thesis by (auto simp: CR_def)
qed

lemma build_response_headers:
  "\<exists>ct. headers (build_response fs d req) =
     [(''Server'', ''CoroutineWebServer''),
      (''Connection'', if keep_alive req then ''keep-alive'' else ''close''), (''Content-Type'', ct)] \<and>
     CR \<notin> set ct \<and> CR \<notin> set (reason (build_response fs d req)) \<and>
     head_only (build_response fs d req) = is_head req"
proof -
  have "CR \<notin> set text_plain" by (simp add: text_plain_def CR_def)
  then show ?thesis
    using mime_type_clean
    by (simp add: build_response_def add_resp_header_def HttpResponse_default_def Let_def
        split: option.split) (simp add: CR_def)
qed

section \<open>Properties\<close>

definition sample_fs :: filesystem where
  "sample_fs = \<lparr>fs_exists = (\<lambda>p. p = ''/srv/b.css''),
     fs_open = (\<lambda>p. if p = ''/srv/b.css'' then Some \<lparr>fv_fd = 7, fv_fstat = 0, fv_regular = True,
       fv_size = 2, fv_mapped = Some ''ok'', fv_stream = Some ''ok''\<rparr> else None),
     fs_cwd = Some ''/srv'', fs_cwd_throw = return ''/srv''\<rparr>"

text \<open>C23. Containment: a target that does not start with two slashes is never resolved to a
  path outside the document root. The names walked are those of the root followed by names
  none of which is \<^verbatim>\<open>..\<close>, whatever dots, slashes and queries the target has.\<close>

theorem resolve_path_contained:
  assumes "resolve_path fs docroot target = p" "p \<noteq> []" "take 2 target \<noteq> ''//''"
  shows "is_absolute p = is_absolute docroot \<and>
    (\<exists>ns. walked p = walked docroot @ ns \<and> ''..'' \<notin> set ns)"
  using resolve_path_below [OF assms] by (simp add: below_def)

theorem resolve_path_contained_witness:
  "resolve_path sample_fs ''/srv'' ''/a/../b.css?x=1'' = ''/srv/b.css'' \<and>
   (\<exists>ns. walked ''/srv/b.css'' = walked ''/srv'' @ ns \<and> ''..'' \<notin> set ns)"
proof -
  have "resolve_path sample_fs ''/srv'' ''/a/../b.css?x=1'' = ''/srv/b.css''" by code_simp
  with resolve_path_contained [OF this] show ?thesis by simp
qed

text \<open>The guard misses a second leading slash: only one is removed, the rest is an
  absolute path, and \<^verbatim>\<open>docroot / relative\<close> is that path. Every absolute path of the
  machine is the resolution of the target with one more slash, for every document root.\<close>

theorem resolve_path_escapes:
  assumes "CHR ''?'' \<notin> set p"
  shows "resolve_path fs docroot (''//'' @ p) = lexically_normal (''/'' @ p)"
  using assms by (rule resolve_path_escape)

theorem resolve_path_escapes_witness:
  "resolve_path sample_fs ''/srv'' ''//etc/passwd'' = ''/etc/passwd''"
proof -
  have "lexically_normal ''/etc/passwd'' = ''/etc/passwd''" by code_simp
  then show ?thesis using resolve_path_escapes [of "''etc/passwd''" sample_fs "''/srv''"] by simp
qed

text \<open>Every response has status 200, 400 or 404, and its wire image is framed: a status
  line, the server, connection and content-type headers, the length of the body, a blank
  line that is the first of the image, and the body (nothing for HEAD).\<close>

theorem build_response_wire:
  "\<exists>ct. to_wire (build_response fs docroot req) =
      line_block
        [''HTTP/1.1 '' @ int_to_string (status (build_response fs docroot req)) @ '' '' @
           reason (build_response fs docroot req),
         ''Server: CoroutineWebServer'',
         ''Connection: '' @ (if keep_alive req then ''keep-alive'' else ''close''),
         ''Content-Type: '' @ ct,
         ''Content-Length: '' @ to_string (length (body (build_response fs docroot req)))] @ CRLF @
      (if is_head req then [] else body (build_response fs docroot req)) \<and>
    (\<exists>he. str_find CRLFCRLF (to_wire (build_response fs docroot req)) 0 = Some he \<and>
       drop (he + 4) (to_wire (build_response fs docroot req)) =
         (if is_head req then [] else body (build_response fs docroot req))) \<and>
    status (build_response fs docroot req) \<in> {200, 400, 404}"
proof -
  define r where "r = build_response fs docroot req"
  obtain ct where h: "headers r = [(''Server'', ''CoroutineWebServer''),
      (''Connection'', if keep_alive req then ''keep-alive'' else ''close''), (''Content-Type'', ct)]"
    "CR \<notin> set ct" "CR \<notin> set (reason r)" "head_only r = is_head req"
    using build_response_headers [of fs docroot req] by (auto simp: r_def)
  have names: "\<not> names_content_length (headers r)"
    by (simp add: h(1) names_content_length_def to_lower_def tolower_def)
  have lines: "wire_lines r =
        [''HTTP/1.1 '' @ int_to_string (status r) @ '' '' @ reason r,
         ''Server: CoroutineWebServer'',
         ''Connection: '' @ (if keep_alive req then ''keep-alive'' else ''close''),
         ''Content-Type: '' @ ct, ''Content-Length: '' @ to_string (length (body r))]"
    using names by (simp add: wire_lines_def header_line_def h(1))
  have "\<forall>h \<in> set (headers r). CR \<notin> set (fst h) \<and> CR \<notin> set (snd h)"
    using h(2) by (simp add: h(1)) (simp add: CR_def)
  note head = to_wire_head [OF wire_lines_ok [OF h(3) this]]
  have "status r \<in> {200, 400, 404}"
    by (simp add: r_def build_response_def add_resp_header_def HttpResponse_default_def Let_def
        split: option.split)
  then show ?thesis
    using head to_wire_lines [of r] lines h(4) by (fold r_def) (intro exI [of _ ct], auto)
qed

text \<open>HEAD mirrors GET: the answer to a HEAD request is the head of the answer to the
  same GET request, byte for byte, so that appending GET's body gives GET's answer.\<close>

theorem head_mirrors_get:
  assumes "req_method req = ''GET''"
  shows "to_wire (build_response fs docroot (req\<lparr>req_method := ''HEAD''\<rparr>)) @
      body (build_response fs docroot req) = to_wire (build_response fs docroot req)"
proof -
  let ?h = "req\<lparr>req_method := ''HEAD''\<rparr>"
  have "keep_alive ?h = keep_alive req" by (simp add: keep_alive_def Let_def split: option.split)
  then have "build_response fs docroot ?h = (build_response fs docroot req)\<lparr>head_only := True\<rparr>"
    "head_only (build_response fs docroot req) = False"
    using assms by (simp_all add: build_response_def is_post_def is_head_def add_resp_header_def
        HttpResponse_default_def Let_def split: option.split)
  then show ?thesis by (simp add: to_wire_lines wire_lines_def)
qed

theorem head_mirrors_get_witness:
  "to_wire (build_response sample_fs ''/srv'' \<lparr>req_method = ''HEAD'', req_target = ''/b.css'',
       req_version = ''HTTP/1.1'', req_headers = Map.empty, req_body = []\<rparr>) @
     body (build_response sample_fs ''/srv'' \<lparr>req_method = ''GET'', req_target = ''/b.css'',
       req_version = ''HTTP/1.1'', req_headers = Map.empty, req_body = []\<rparr>) =
   to_wire (build_response sample_fs ''/srv'' \<lparr>req_method = ''GET'', req_target = ''/b.css'',
       req_version = ''HTTP/1.1'', req_headers = Map.empty, req_body = []\<rparr>)"
  using head_mirrors_get [of "\<lparr>req_method = ''GET'', req_target = ''/b.css'',
       req_version = ''HTTP/1.1'', req_headers = Map.empty, req_body = []\<rparr>" sample_fs "''/srv''"]
  by simp

end
