(* ===== verification/HttpConnection.thy ===== *)
theory HttpConnection
  imports HttpFiles
begin

text \<open>
  The coroutines of \<^verbatim>\<open>coroutineWebServer/HttpServer.cpp\<close> that serve one client:
  \<^verbatim>\<open>read_request\<close>, \<^verbatim>\<open>write_all\<close> and \<^verbatim>\<open>handle_connection\<close>. What the
  scheduler delivers to them is a script: whether they run on a scheduler thread, the values \<^verbatim>\<open>running_\<close> shows, the outcomes of
  the receives and of the sends. A coroutine that awaits beyond its script is suspended. The
  main theorem: however the stream of pipelined requests is cut into receives and sends, the
  client gets the responses in order.
\<close>

section \<open>Model\<close>

text \<open>
  \<open>Recv_data d\<close> is a receive of \<open>length d\<close> bytes (0 at the end of the stream). A failed
  operation throws \<^verbatim>\<open>std::system_error\<close> from \<^verbatim>\<open>await_resume\<close>.
\<close>

datatype recv_event = Recv_data string | Recv_error errno
datatype send_event = Sent int | Send_error errno

record world =
  w_on_scheduler :: bool
  w_runs :: "bool list"
  w_recvs :: "recv_event list"
  w_sends :: "send_event list"
  w_out :: string

datatype 'a outcome = Returned 'a | Thrown cpp_exn | Suspended

definition ETIMEDOUT :: errno where "ETIMEDOUT = 110"
definition ECANCELED :: errno where "ECANCELED = 125"

text \<open>\<^verbatim>\<open>running_.load\<close>: after the scripted values the server keeps running.\<close>

definition load_running :: "world \<Rightarrow> bool \<times> world" where
  "load_running w = (case w_runs w of [] \<Rightarrow> (True, w) | b # bs \<Rightarrow> (b, w\<lparr>w_runs := bs\<rparr>))"

definition world_size :: "world \<Rightarrow> nat" where
  "world_size w = length (w_runs w) + length (w_recvs w) + length (w_sends w)"

lemma load_running_frame:
  "load_running w = (b, w1) \<Longrightarrow> w_recvs w1 = w_recvs w \<and> w_sends w1 = w_sends w \<and> w_out w1 = w_out w"
  by (auto simp: load_running_def split: list.splits)

lemma load_running_size:
  "load_running w = (b, w1) \<Longrightarrow> world_size w1 \<le> world_size w \<and> (\<not> b \<longrightarrow> world_size w1 < world_size w)"
  by (auto simp: load_running_def world_size_def split: list.splits)

function read_loop :: "world \<Rightarrow> string \<Rightarrow> HttpRequest option outcome \<times> string \<times> world" where
  "read_loop w buffer =
     (case load_running w of
        (False, w1) \<Rightarrow> (Returned None, buffer, w1)
      | (True, w1) \<Rightarrow>
          (case try_parse_request buffer of
             Some parsed \<Rightarrow> (Returned (Some (request parsed)), drop (consumed parsed) buffer, w1)
           | None \<Rightarrow>
               (case w_recvs w1 of
                  [] \<Rightarrow> (Suspended, buffer, w1)
                | Recv_data d # rs \<Rightarrow>
                    if length d = 0 then (Returned None, buffer, w1\<lparr>w_recvs := rs\<rparr>)
                    else read_loop (w1\<lparr>w_recvs := rs\<rparr>) (buffer @ d)
                | Recv_error e # rs \<Rightarrow>
                    if e = ETIMEDOUT \<or> e = ECANCELED then (Returned None, buffer, w1\<lparr>w_recvs := rs\<rparr>)
                    else (Thrown (System_error e), buffer, w1\<lparr>w_recvs := rs\<rparr>))))"
  by pat_completeness auto
termination
  by (relation "measure (\<lambda>(w, b). length (w_recvs w))") (auto dest!: sym [of _ "load_running _"] load_running_frame)

declare read_loop.simps [simp del]

definition read_request :: "world \<Rightarrow> string \<Rightarrow> HttpRequest option outcome \<times> string \<times> world" where
  "read_request w buffer =
     (if \<not> w_on_scheduler w
      then (Thrown (Runtime_error ''read_request must run on a scheduler thread''), buffer, w)
      else read_loop w buffer)"

function write_loop :: "world \<Rightarrow> string \<Rightarrow> nat \<Rightarrow> unit outcome \<times> world" where
  "write_loop w payload offset =
     (if offset < length payload then
        (case load_running w of
           (False, w1) \<Rightarrow> (Returned (), w1)
         | (True, w1) \<Rightarrow>
             (case w_sends w1 of
                [] \<Rightarrow> (Suspended, w1)
              | Sent n # ss \<Rightarrow>
                  if n \<le> 0 then (Returned (), w1\<lparr>w_sends := ss\<rparr>)
                  else write_loop (w1\<lparr>w_sends := ss,
                         w_out := w_out w1 @ take (nat n) (drop offset payload)\<rparr>) payload (offset + nat n)
              | Send_error e # ss \<Rightarrow> (Thrown (System_error e), w1\<lparr>w_sends := ss\<rparr>)))
      else (Returned (), w))"
  by pat_completeness auto
termination
  by (relation "measure (\<lambda>(w, p, ofs). length (w_sends w))") (auto dest!: sym [of _ "load_running _"] load_running_frame)

declare write_loop.simps [simp del]

definition write_all :: "world \<Rightarrow> string \<Rightarrow> unit outcome \<times> world" where
  "write_all w payload =
     (if \<not> w_on_scheduler w
      then (Thrown (Runtime_error ''write_all must run on a scheduler thread''), w)
      else write_loop w payload 0)"

lemma read_loop_size: "read_loop w b = (r, b', w') \<Longrightarrow> world_size w' \<le> world_size w"
proof (induction w b arbitrary: r b' w' rule: read_loop.induct)
  case (1 w b)
  obtain run w1 where l: "load_running w = (run, w1)" by (metis surj_pair)
  note sz = load_running_size [OF l]
  show ?case
  proof (cases "run \<and> try_parse_request b = None")
    case True
    then show ?thesis
      using 1 l sz
      by (auto simp: read_loop.simps [of w b] world_size_def split: list.splits recv_event.splits if_splits)
        (fastforce simp: world_size_def)+
  next
    case False
    then show ?thesis
      using 1(2) l sz by (auto simp: read_loop.simps [of w b] split: bool.splits option.splits)
  qed
qed

lemma write_loop_size:
  "write_loop w p ofs = (r, w') \<Longrightarrow>
    world_size w' \<le> world_size w \<and> (ofs < length p \<and> r = Returned () \<longrightarrow> world_size w' < world_size w)"
proof (induction w p ofs arbitrary: r w' rule: write_loop.induct)
  case (1 w p ofs)
  obtain run w1 where l: "load_running w = (run, w1)" by (metis surj_pair)
  note sz = load_running_size [OF l]
  show ?case
  proof (cases "ofs < length p \<and> run")
    case True
    then show ?thesis
      using 1 l sz
      by (auto simp: write_loop.simps [of w p ofs] world_size_def split: list.splits send_event.splits if_splits)
        (fastforce simp: world_size_def)+
  next
    case False
    then show ?thesis
      using 1(2) l sz by (auto simp: write_loop.simps [of w p ofs] split: if_splits bool.splits)
  qed
qed

lemma to_wire_nonempty [simp]: "to_wire r \<noteq> []"
  by (simp add: to_wire_lines wire_lines_def)

lemma handle_step_size:
  assumes "load_running w = (True, w1)" "read_request w1 b = (Returned (Some req), b', w2)"
    "write_all w2 (to_wire r) = (Returned u, w3)"
  shows "world_size w3 < world_size w"
proof -
  have "world_size w2 \<le> world_size w1"
    using assms(2) read_loop_size by (auto simp: read_request_def split: if_splits)
  moreover have "world_size w3 < world_size w2"
    using assms(3) write_loop_size [of w2 "to_wire r" 0 "Returned u" w3]
    by (auto simp: write_all_def split: if_splits)
  ultimately show ?thesis using load_running_size [OF assms(1)] by simp
qed

text \<open>The loop of \<^verbatim>\<open>handle_connection\<close>; what \<^verbatim>\<open>catch\<close> swallows ends it.\<close>

function handle_loop :: "filesystem \<Rightarrow> path \<Rightarrow> UniqueFd \<Rightarrow> world \<Rightarrow> string \<Rightarrow> unit outcome \<times> world" where
  "handle_loop fs docroot client w buffer =
     (case load_running w of
        (False, w1) \<Rightarrow> (Returned (), w1)
      | (True, w1) \<Rightarrow>
          if \<not> UniqueFd_valid client then (Returned (), w1)
          else
            (case read_request w1 buffer of
               (Suspended, b, w2) \<Rightarrow> (Suspended, w2)
             | (Thrown e, b, w2) \<Rightarrow> (Returned (), w2)
             | (Returned None, b, w2) \<Rightarrow> (Returned (), w2)
             | (Returned (Some req), b, w2) \<Rightarrow>
                 (case write_all w2 (to_wire (build_response fs docroot req)) of
                    (Suspended, w3) \<Rightarrow> (Suspended, w3)
                  | (Thrown e, w3) \<Rightarrow> (Returned (), w3)
                  | (Returned u, w3) \<Rightarrow>
                      if \<not> keep_alive req then (Returned (), w3)
                      else handle_loop fs docroot client w3 b)))"
  by pat_completeness auto
termination
proof (relation "measure (\<lambda>(fs, d, c, w, b). world_size w)", goal_cases)
  case 1
  show ?case by simp
next
  case 2
  then show ?case by simp (metis handle_step_size)
qed

declare handle_loop.simps [simp del]

definition handle_connection :: "filesystem \<Rightarrow> path \<Rightarrow> UniqueFd \<Rightarrow> world \<Rightarrow> unit outcome \<times> world" where
  "handle_connection fs docroot client w = handle_loop fs docroot client w []"

section \<open>Where the stream is cut does not matter\<close>

lemma try_parse_prefix:
  assumes pb: "try_parse_request b = Some p'" and pbt: "try_parse_request (b @ t) = Some p"
    and n: "content_length (req_headers (request p)) = return n" "length (b @ t) + n < size_max"
  shows "p' = p"
proof -
  obtain he m tg v n' where f: "str_find CRLFCRLF b 0 = Some he"
    "head_fields b he = Some ((m, tg, v), req_headers (request p'))"
    "content_length (req_headers (request p')) = return n'"
    using pb by (rule try_parse_SomeE)
  have "str_find CRLFCRLF (b @ t) 0 = Some he" by (rule str_find_append [OF _ f(1)]) simp
  moreover obtain he2 m2 tg2 v2 n2 where g: "str_find CRLFCRLF (b @ t) 0 = Some he2"
    "head_fields (b @ t) he2 = Some ((m2, tg2, v2), req_headers (request p))"
    using pbt by (rule try_parse_SomeE)
  ultimately have "req_headers (request p') = req_headers (request p)"
    using f(2) head_fields_append [OF f(1), of t] by simp
  then have "try_parse_request (b @ t) = Some p'" using try_parse_append [OF pb, of n t] n by simp
  with pbt show ?thesis by simp
qed

lemma load_running_on [simp]: "w_runs w = [] \<Longrightarrow> load_running w = (True, w)"
  by (simp add: load_running_def)

lemma read_loop_chunks:
  assumes "try_parse_request (b @ concat ds) = Some p"
    and "content_length (req_headers (request p)) = return n" "length (b @ concat ds) + n < size_max"
    and "w_runs w = []" "w_recvs w = map Recv_data ds @ rs" "list_all (\<lambda>d. d \<noteq> []) ds"
  shows "\<exists>b' ds'. read_loop w b = (Returned (Some (request p)), b', w\<lparr>w_recvs := map Recv_data ds' @ rs\<rparr>)
    \<and> b' @ concat ds' = drop (consumed p) (b @ concat ds) \<and> list_all (\<lambda>d. d \<noteq> []) ds'"
  using assms
proof (induction ds arbitrary: b w)
  case Nil
  then show ?case by (auto simp: read_loop.simps [of w b] intro!: exI [of _ "[]"])
next
  case (Cons d ds)
  show ?case
  proof (cases "try_parse_request b")
    case None
    let ?w = "w\<lparr>w_recvs := map Recv_data ds @ rs\<rparr>"
    have "read_loop w b = read_loop ?w (b @ d)"
      using None Cons.prems by (simp add: read_loop.simps [of w b])
    with Cons.IH [of "b @ d" ?w] Cons.prems show ?thesis by simp
  next
    case (Some p')
    then have p': "p' = p" using try_parse_prefix [OF Some Cons.prems(1-3)] by simp
    have "consumed p \<le> length b" using try_parse_frame [OF Some, of n] Cons.prems(2,3) p' by auto
    then show ?thesis
      using Some p' Cons.prems
      by (auto simp: read_loop.simps [of w b] intro!: exI [of _ "d # ds"])
  qed
qed

text \<open>A send that takes at least one byte.\<close>

definition progress :: "send_event \<Rightarrow> bool" where
  "progress s = (case s of Sent n \<Rightarrow> 0 < n | Send_error e \<Rightarrow> False)"

lemma write_loop_all:
  assumes "w_runs w = []" "list_all progress (w_sends w)" "ofs \<le> length p"
    "length p - ofs \<le> length (w_sends w)"
  shows "\<exists>ss. write_loop w p ofs = (Returned (), w\<lparr>w_sends := ss, w_out := w_out w @ drop ofs p\<rparr>) \<and>
    list_all progress ss \<and> length (w_sends w) \<le> length ss + (length p - ofs)"
  using assms
proof (induction w p ofs rule: write_loop.induct)
  case (1 w p ofs)
  show ?case
  proof (cases "ofs < length p")
    case False
    with "1.prems" show ?thesis
      by (auto simp: write_loop.simps [of w p] intro!: exI [of _ "w_sends w"])
  next
    case True
    with "1.prems" obtain s ss where ss: "w_sends w = s # ss" by (cases "w_sends w") auto
    with "1.prems" obtain n where n: "s = Sent n" "0 < n"
      by (auto simp: progress_def split: send_event.splits)
    let ?w = "w\<lparr>w_sends := ss, w_out := w_out w @ take (nat n) (drop ofs p)\<rparr>"
    have step: "write_loop w p ofs = write_loop ?w p (ofs + nat n)"
      using True ss n "1.prems" by (simp add: write_loop.simps [of w p ofs])
    show ?thesis
    proof (cases "ofs + nat n \<le> length p")
      case le: True
      have "\<exists>ss'. write_loop ?w p (ofs + nat n) =
          (Returned (), ?w\<lparr>w_sends := ss', w_out := w_out ?w @ drop (ofs + nat n) p\<rparr>) \<and>
          list_all progress ss' \<and> length (w_sends ?w) \<le> length ss' + (length p - (ofs + nat n))"
        using "1.IH" [OF True _ _ ss n(1)] "1.prems" n le ss True by simp
      moreover have "take (nat n) (drop ofs p) @ drop (ofs + nat n) p = drop ofs p"
        by (metis append_take_drop_id drop_drop add.commute)
      ultimately show ?thesis using step ss n le by auto
    next
      case gt: False
      then have "write_loop ?w p (ofs + nat n) = (Returned (), ?w)"
        by (subst write_loop.simps) simp
      then show ?thesis
        using step ss n gt "1.prems" True by (auto intro!: exI [of _ ss])
    qed
  qed
qed

section \<open>Serving pipelined requests\<close>

text \<open>A request as a client sends it, its bytes, and what the parser makes of it.\<close>

record creq =
  cr_method :: string
  cr_target :: string
  cr_version :: string
  cr_headers :: "(string \<times> string) list"
  cr_body :: string

definition creq_wire :: "creq \<Rightarrow> string" where
  "creq_wire c = print_head (cr_method c) (cr_target c) (cr_version c) (cr_headers c) @ cr_body c"

definition creq_ok :: "creq \<Rightarrow> bool" where
  "creq_ok c = (lines_ok (cr_method c) (cr_target c) (cr_version c) (cr_headers c) \<and>
     content_length (map_of (lower_keys (cr_headers c))) = return (length (cr_body c)))"

definition creq_req :: "creq \<Rightarrow> HttpRequest" where
  "creq_req c = \<lparr>req_method = cr_method c, req_target = strip_query (cr_target c), req_version = cr_version c,
     req_headers = map_of (lower_keys (cr_headers c)), req_body = cr_body c\<rparr>"

definition stream :: "creq list \<Rightarrow> string" where
  "stream cs = concat (map creq_wire cs)"

text \<open>The answers: one per request, up to the first request that does not keep the
  connection.\<close>

fun answers :: "filesystem \<Rightarrow> path \<Rightarrow> creq list \<Rightarrow> string" where
  "answers fs docroot [] = []"
| "answers fs docroot (c # cs) =
     to_wire (build_response fs docroot (creq_req c)) @
     (if keep_alive (creq_req c) then answers fs docroot cs else [])"

lemma try_parse_creq:
  assumes "creq_ok c" "length (creq_wire c) < size_max"
  shows "try_parse_request (creq_wire c @ rest) =
    Some \<lparr>request = creq_req c, consumed = length (creq_wire c)\<rparr>"
  using assms try_parse_lines [of "cr_method c" "cr_target c" "cr_version c" "cr_headers c" "cr_body c" rest]
  by (simp add: creq_wire_def creq_ok_def creq_req_def)

lemma try_parse_Nil [simp]: "try_parse_request [] = None"
  by (simp add: try_parse_request_def str_find_def)

lemma handle_loop_serves:
  assumes "list_all creq_ok cs" "2 * length (stream cs) < size_max"
    and "w_on_scheduler w" "w_runs w = []" "w_recvs w = map Recv_data ds @ [Recv_data []]"
    and "list_all (\<lambda>d. d \<noteq> []) ds" "b @ concat ds = stream cs" "UniqueFd_valid client"
    and "list_all progress (w_sends w)" "length (answers fs docroot cs) \<le> length (w_sends w)"
  shows "\<exists>w'. handle_loop fs docroot client w b = (Returned (), w') \<and>
    w_out w' = w_out w @ answers fs docroot cs"
  using assms
proof (induction cs arbitrary: w b ds)
  case Nil
  then have "b = []" "ds = []" by (cases ds; auto simp: stream_def)+
  with Nil show ?case
    by (simp add: handle_loop.simps [of fs docroot client w] read_request_def read_loop.simps [of w])
next
  case (Cons c cs)
  let ?r = "creq_req c" and ?p = "\<lparr>request = creq_req c, consumed = length (creq_wire c)\<rparr>"
  let ?wire = "to_wire (build_response fs docroot ?r)"
  have parse: "try_parse_request (b @ concat ds) = Some ?p"
    using Cons.prems try_parse_creq [of c "stream cs"] by (simp add: stream_def)
  have cl: "content_length (req_headers (request ?p)) = return (length (cr_body c))"
    using Cons.prems(1) by (simp add: creq_ok_def creq_req_def)
  have len: "length (b @ concat ds) + length (cr_body c) < size_max"
    using Cons.prems(2) unfolding Cons.prems(7) by (simp add: stream_def creq_wire_def)
  obtain b' ds' where r: "read_loop w b = (Returned (Some ?r), b', w\<lparr>w_recvs := map Recv_data ds' @ [Recv_data []]\<rparr>)"
    "b' @ concat ds' = drop (length (creq_wire c)) (b @ concat ds)" "list_all (\<lambda>d. d \<noteq> []) ds'"
    using read_loop_chunks [OF parse cl len Cons.prems(4,5,6)] by auto
  let ?w2 = "w\<lparr>w_recvs := map Recv_data ds' @ [Recv_data []]\<rparr>"
  have rest: "b' @ concat ds' = stream cs" using r(2) unfolding Cons.prems(7) by (simp add: stream_def)
  obtain ss where ss: "write_loop ?w2 ?wire 0 = (Returned (), ?w2\<lparr>w_sends := ss, w_out := w_out w @ ?wire\<rparr>)"
    "list_all progress ss" "length (w_sends w) \<le> length ss + length ?wire"
    using write_loop_all [of ?w2 0 ?wire] Cons.prems(4,9,10) by auto
  let ?w3 = "?w2\<lparr>w_sends := ss, w_out := w_out w @ ?wire\<rparr>"
  have step: "handle_loop fs docroot client w b =
      (if keep_alive ?r then handle_loop fs docroot client ?w3 b' else (Returned (), ?w3))"
    using Cons.prems(3,4,8) r(1) ss(1)
    by (simp add: handle_loop.simps [of fs docroot client w b] read_request_def write_all_def)
  show ?case
  proof (cases "keep_alive ?r")
    case False
    with step show ?thesis by simp
  next
    case True
    have "2 * length (stream cs) < size_max" using Cons.prems(2) by (simp add: stream_def)
    moreover have "length (answers fs docroot cs) \<le> length ss" using Cons.prems(10) ss(3) True by simp
    ultimately show ?thesis
      using Cons.IH [of ?w3 ds' b'] Cons.prems r(3) rest ss(2) step True by auto
  qed
qed

section \<open>A length that wraps\<close>

text \<open>A request whose negative \<^verbatim>\<open>Content-Length\<close> cancels the length of its own head.\<close>

definition replay :: string where
  "replay = print_head ''POST'' ''/x'' ''HTTP/1.1'' [(''content-length'', ''-41'')]"

definition replay_req :: HttpRequest where
  "replay_req = \<lparr>req_method = ''POST'', req_target = ''/x'', req_version = ''HTTP/1.1'',
     req_headers = [''content-length'' \<mapsto> ''-41''], req_body = []\<rparr>"

lemma try_parse_replay:
  "try_parse_request replay = Some \<lparr>request = replay_req, consumed = 0\<rparr>"
proof -
  have ok: "fields_ok ''POST'' ''/x'' ''HTTP/1.1'' [(''content-length'', ''-41'')]"
    by (simp add: fields_ok_def token_ok_def key_ok_def value_ok_def strip_def isspace_def
        to_lower_def tolower_def CR_def)
  have len: "length replay = 41" by (simp add: replay_def print_head_def header_line_def)
  have cl: "content_length [''content-length'' \<mapsto> ''-41''] = return (size_max - 41)"
    by (simp add: content_length_def stoul_def strto_scan_def isspace_def isdigit_def digits_val_def
        digit_val_def size_max_def)
  have "size_add 41 (size_max - 41) = 0" by (simp add: size_add_def size_max_def)
  moreover have "strip_query ''/x'' = ''/x''" by (simp add: strip_query_id)
  ultimately show ?thesis
    using head_fields_print [OF fields_lines(1) [OF ok], of "[]"] fields_lines(2) [OF ok] cl len
    by (simp add: try_parse_head_fields replay_def [symmetric] replay_req_def substr_def)
qed

lemma replay_keep_alive: "keep_alive replay_req"
  by (simp add: keep_alive_def replay_req_def)

lemma write_loop_once:
  assumes "w_runs w = []" "w_sends w = Sent (int (length p)) # ss" "p \<noteq> []"
  shows "write_loop w p 0 = (Returned (), w\<lparr>w_sends := ss, w_out := w_out w @ p\<rparr>)"
  using assms write_loop.simps [of "w\<lparr>w_sends := ss, w_out := w_out w @ p\<rparr>" p "length p"]
  by (simp add: write_loop.simps [of w p 0])

lemma handle_loop_replay:
  assumes "w_on_scheduler w" "w_runs w = []" "UniqueFd_valid client"
    "w_sends w = replicate n (Sent (int (length (to_wire (build_response fs docroot replay_req)))))"
  shows "handle_loop fs docroot client w replay =
    (Suspended, w\<lparr>w_sends := [],
       w_out := w_out w @ concat (replicate n (to_wire (build_response fs docroot replay_req)))\<rparr>)"
  using assms
proof (induction n arbitrary: w)
  case 0
  then show ?case
    by (simp add: handle_loop.simps [of fs docroot client w] read_request_def read_loop.simps [of w]
        try_parse_replay write_all_def write_loop.simps [of w])
next
  case (Suc n)
  let ?wire = "to_wire (build_response fs docroot replay_req)"
  let ?ss = "replicate n (Sent (int (length ?wire)))"
  have "write_loop w ?wire 0 = (Returned (), w\<lparr>w_sends := ?ss, w_out := w_out w @ ?wire\<rparr>)"
    using write_loop_once [of w ?wire ?ss] Suc.prems by simp
  then have "handle_loop fs docroot client w replay =
      handle_loop fs docroot client (w\<lparr>w_sends := ?ss, w_out := w_out w @ ?wire\<rparr>) replay"
    using Suc.prems
    by (simp add: handle_loop.simps [of fs docroot client w] read_request_def read_loop.simps [of w]
        try_parse_replay write_all_def replay_keep_alive)
  with Suc.IH [of "w\<lparr>w_sends := ?ss, w_out := w_out w @ ?wire\<rparr>"] Suc.prems show ?case by simp
qed

text \<open>What reaches the socket is always a prefix of the payload.\<close>

lemma write_loop_prefix:
  "write_loop w p ofs = (r, w') \<Longrightarrow> \<exists>k. w_out w' = w_out w @ take k (drop ofs p)"
proof (induction w p ofs arbitrary: r w' rule: write_loop.induct)
  case (1 w p ofs)
  obtain run w1 where l: "load_running w = (run, w1)" by (metis surj_pair)
  note fr = load_running_frame [OF l]
  show ?case
  proof (cases "ofs < length p \<and> run \<and> (\<exists>n ss. w_sends w1 = Sent n # ss \<and> 0 < n)")
    case True
    then obtain n ss where ns: "w_sends w1 = Sent n # ss" "0 < n" by blast
    let ?w = "w1\<lparr>w_sends := ss, w_out := w_out w1 @ take (nat n) (drop ofs p)\<rparr>"
    have "write_loop ?w p (ofs + nat n) = (r, w')"
      using "1.prems" True l ns by (simp add: write_loop.simps [of w p ofs])
    then obtain k where "w_out w' = w_out ?w @ take k (drop (ofs + nat n) p)"
      using "1.IH" [OF _ _ _ ns(1) refl] True l ns(2) by auto
    then have "w_out w' = w_out w @ take (nat n + k) (drop ofs p)"
      using fr by (simp only: take_add drop_drop) (simp add: add.commute)
    then show ?thesis by blast
  next
    case False
    then have "w_out w' = w_out w"
      using "1.prems" l fr
      by (auto simp: write_loop.simps [of w p ofs] split: if_splits bool.splits list.splits send_event.splits)
    then show ?thesis by (auto intro: exI [of _ 0])
  qed
qed

lemma handle_loop_no_throw: "handle_loop fs docroot client w b = (r, w') \<Longrightarrow> r \<noteq> Thrown e"
proof (induction fs docroot client w b arbitrary: r w' rule: handle_loop.induct)
  case (1 fs docroot client w b)
  show ?case
    using "1.prems"
    by (subst (asm) handle_loop.simps)
      (auto split: prod.splits bool.splits if_splits outcome.splits option.splits, metis "1.IH")
qed

section \<open>Properties\<close>

text \<open>C1. A connection is served completely and in order: whatever way the bytes of any
  number of pipelined well-formed requests are cut into receives, and whatever number of
  bytes each send takes (at least one), the handler returns after the client has closed and
  has sent exactly the responses of the requests, in order, up to the first request that
  does not keep the connection.\<close>

theorem handle_connection_serves:
  assumes "list_all creq_ok cs" "2 * length (stream cs) < size_max"
    and "w_on_scheduler w" "w_runs w = []" "w_recvs w = map Recv_data ds @ [Recv_data []]"
    and "list_all (\<lambda>d. d \<noteq> []) ds" "concat ds = stream cs" "UniqueFd_valid client"
    and "list_all progress (w_sends w)" "length (answers fs docroot cs) \<le> length (w_sends w)"
  shows "\<exists>w'. handle_connection fs docroot client w = (Returned (), w') \<and>
    w_out w' = w_out w @ answers fs docroot cs"
  using handle_loop_serves [OF assms(1-6) _ assms(8-10), of "[]"] assms(7)
  by (simp add: handle_connection_def)

definition sample_get :: creq where
  "sample_get = \<lparr>cr_method = ''GET'', cr_target = ''/hello'', cr_version = ''HTTP/1.1'',
     cr_headers = [], cr_body = []\<rparr>"

lemma sample_get_ok: "creq_ok sample_get" "length (creq_wire sample_get) = 23"
  by (simp_all add: creq_ok_def sample_get_def lines_ok_def lower_keys_def token_ok_def content_length_def
      creq_wire_def print_head_def) (simp_all add: CR_def)

theorem handle_connection_serves_witness:
  "\<exists>w'. handle_connection sample_fs ''/srv'' (UniqueFd_make 5 False)
      \<lparr>w_on_scheduler = True, w_runs = [],
       w_recvs = map Recv_data [take 3 (creq_wire sample_get),
         drop 3 (creq_wire sample_get) @ creq_wire sample_get] @ [Recv_data []],
       w_sends = replicate (length (answers sample_fs ''/srv'' [sample_get, sample_get])) (Sent 1),
       w_out = []\<rparr> = (Returned (), w') \<and>
    w_out w' = answers sample_fs ''/srv'' [sample_get, sample_get]"
proof -
  let ?w = "\<lparr>w_on_scheduler = True, w_runs = [],
       w_recvs = map Recv_data [take 3 (creq_wire sample_get),
         drop 3 (creq_wire sample_get) @ creq_wire sample_get] @ [Recv_data []],
       w_sends = replicate (length (answers sample_fs ''/srv'' [sample_get, sample_get])) (Sent 1),
       w_out = []\<rparr>"
  have ne: "creq_wire sample_get \<noteq> []" "length (creq_wire sample_get) = 23" using sample_get_ok by auto
  have "concat [take 3 (creq_wire sample_get), drop 3 (creq_wire sample_get) @ creq_wire sample_get] =
      stream [sample_get, sample_get]"
    by (simp add: stream_def)
  moreover have "list_all progress (w_sends ?w)" by (simp add: list_all_iff progress_def)
  ultimately show ?thesis
    using handle_connection_serves [of "[sample_get, sample_get]" ?w
        "[take 3 (creq_wire sample_get), drop 3 (creq_wire sample_get) @ creq_wire sample_get]"
        "UniqueFd_make 5 False" sample_fs "''/srv''"] sample_get_ok ne
    by (simp add: stream_def size_max_def UniqueFd_valid_def UniqueFd_make_def del: answers.simps)
qed

text \<open>Reading does not depend on the chunks: when the bytes already buffered and those of
  the next receives together parse to a request, \<^verbatim>\<open>read_request\<close> returns that request for
  every way of cutting them, and the buffer and the receives it leaves hold exactly the bytes
  that follow the request.\<close>

theorem read_request_chunks:
  assumes "try_parse_request (b @ concat ds) = Some p"
    and "content_length (req_headers (request p)) = return n" "length (b @ concat ds) + n < size_max"
    and "w_on_scheduler w" "w_runs w = []" "w_recvs w = map Recv_data ds @ rs" "list_all (\<lambda>d. d \<noteq> []) ds"
  shows "\<exists>b' ds'. read_request w b = (Returned (Some (request p)), b', w\<lparr>w_recvs := map Recv_data ds' @ rs\<rparr>)
    \<and> b' @ concat ds' = drop (consumed p) (b @ concat ds)"
  using read_loop_chunks [OF assms(1-3,5-7)] assms(4) by (auto simp: read_request_def)

theorem read_request_chunks_witness:
  "\<exists>b' ds'. read_request \<lparr>w_on_scheduler = True, w_runs = [],
       w_recvs = map Recv_data [drop 2 (creq_wire sample_get) @ ''GET''] @ [], w_sends = [], w_out = []\<rparr>
     (take 2 (creq_wire sample_get)) =
    (Returned (Some (creq_req sample_get)), b', \<lparr>w_on_scheduler = True, w_runs = [],
       w_recvs = map Recv_data ds' @ [], w_sends = [], w_out = []\<rparr>) \<and> b' @ concat ds' = ''GET''"
proof -
  let ?w = "\<lparr>w_on_scheduler = True, w_runs = [],
       w_recvs = map Recv_data [drop 2 (creq_wire sample_get) @ ''GET''] @ [], w_sends = [], w_out = []\<rparr>"
  let ?p = "\<lparr>request = creq_req sample_get, consumed = 23\<rparr>"
  have "try_parse_request (take 2 (creq_wire sample_get) @ concat [drop 2 (creq_wire sample_get) @ ''GET'']) = Some ?p"
    using try_parse_creq [OF sample_get_ok(1), of "''GET''"] sample_get_ok(2)
    by (simp add: size_max_def del: append_assoc flip: append_assoc)
  moreover have "content_length (req_headers (request ?p)) = return 0"
    using sample_get_ok(1) by (simp add: creq_ok_def creq_req_def)  (simp add: sample_get_def)
  ultimately show ?thesis
    using read_request_chunks [of "take 2 (creq_wire sample_get)" "[drop 2 (creq_wire sample_get) @ ''GET'']" ?p 0 ?w "[]"]
      sample_get_ok(2) by (simp add: size_max_def)
qed

text \<open>Whatever the sends return, fail or wait for, what has left by \<^verbatim>\<open>write_all\<close> is a
  prefix of the payload: no byte is repeated, skipped or reordered.\<close>

theorem write_all_sends_prefix:
  "\<exists>k. w_out (snd (write_all w payload)) = w_out w @ take k payload"
proof (cases "w_on_scheduler w")
  case True
  obtain r w' where "write_loop w payload 0 = (r, w')" by (metis surj_pair)
  with True write_loop_prefix [OF this] show ?thesis by (simp add: write_all_def)
next
  case False
  then show ?thesis by (auto simp: write_all_def intro: exI [of _ 0])
qed

text \<open>No exception leaves \<^verbatim>\<open>handle_connection\<close>, whatever the socket does: it returns or
  waits.\<close>

theorem handle_connection_no_throw:
  "fst (handle_connection fs docroot client w) \<noteq> Thrown e"
  using handle_loop_no_throw [of fs docroot client w "[]" _ _ e]
  by (cases "handle_connection fs docroot client w") (simp add: handle_connection_def)

text \<open>A negative length defeats the framing: \<^verbatim>\<open>std::stoul\<close> wraps it, the end of the body
  wraps back to offset 0, and the handler answers the one request the client sent again and
  again, for as long as the socket takes the answers.\<close>

theorem negative_length_replays:
  assumes "w_on_scheduler w" "w_runs w = []" "UniqueFd_valid client" "w_recvs w = [Recv_data replay]"
    "w_sends w = replicate n (Sent (int (length (to_wire (build_response fs docroot replay_req)))))"
  shows "handle_connection fs docroot client w =
    (Suspended, w\<lparr>w_recvs := [], w_sends := [],
       w_out := w_out w @ concat (replicate n (to_wire (build_response fs docroot replay_req)))\<rparr>)"
proof -
  have ne: "replay \<noteq> []" by (simp add: replay_def print_head_def)
  have "read_loop w [] = read_loop (w\<lparr>w_recvs := []\<rparr>) replay"
    using assms ne by (simp add: read_loop.simps [of w "[]"])
  moreover have "handle_loop fs docroot client (w\<lparr>w_recvs := []\<rparr>) replay =
    (Suspended, w\<lparr>w_recvs := [], w_sends := [],
       w_out := w_out w @ concat (replicate n (to_wire (build_response fs docroot replay_req)))\<rparr>)"
    using handle_loop_replay [of "w\<lparr>w_recvs := []\<rparr>" client n fs docroot] assms by simp
  ultimately show ?thesis
    using assms unfolding handle_connection_def
    by (subst handle_loop.simps, subst (asm) handle_loop.simps) (simp add: read_request_def)
qed

theorem negative_length_replays_witness:
  "\<exists>w'. handle_connection sample_fs ''/srv'' (UniqueFd_make 5 False)
     \<lparr>w_on_scheduler = True, w_runs = [], w_recvs = [Recv_data replay],
      w_sends = replicate 3 (Sent (int (length (to_wire (build_response sample_fs ''/srv'' replay_req))))),
      w_out = []\<rparr> = (Suspended, w') \<and>
    w_out w' = concat (replicate 3 (to_wire (build_response sample_fs ''/srv'' replay_req)))"
  using negative_length_replays [of "\<lparr>w_on_scheduler = True, w_runs = [], w_recvs = [Recv_data replay],
      w_sends = replicate 3 (Sent (int (length (to_wire (build_response sample_fs ''/srv'' replay_req))))),
      w_out = []\<rparr>" "UniqueFd_make 5 False" 3 sample_fs "''/srv''"]
  by (simp add: UniqueFd_valid_def UniqueFd_make_def)

end
