(* ===== verification/BoundedQueue.thy ===== *)
theory BoundedQueue
  imports Prelude "HOL-Library.Multiset"
begin

text \<open>
  The contract of a bounded first-in first-out queue, the interface between the two ring
  buffers of the program (\<^verbatim>\<open>AsyncLogger::LogQueue\<close> and the task ring of
  \<^verbatim>\<open>ThreadPool\<close>) and their clients, with the facts every client uses: what a sequence
  of operations does to the contents, and that taking until empty returns the contents
  in order.
\<close>

datatype 'a queue_op = Enq 'a | Deq

text \<open>The contract's reference: a list that refuses elements beyond its capacity.\<close>

fun list_op :: "nat \<Rightarrow> 'a queue_op \<Rightarrow> 'a list \<Rightarrow> 'a list" where
  "list_op c (Enq x) xs = (if length xs < c then xs @ [x] else xs)"
| "list_op c Deq xs = tl xs"

fun queue_op_run ::
  "('a \<Rightarrow> 'q \<Rightarrow> bool \<times> 'q) \<Rightarrow> ('q \<Rightarrow> 'a option \<times> 'q) \<Rightarrow> 'a queue_op list \<Rightarrow> 'q \<Rightarrow> 'q" where
  "queue_op_run enq deq [] q = q"
| "queue_op_run enq deq (Enq x # ops) q = queue_op_run enq deq ops (snd (enq x q))"
| "queue_op_run enq deq (Deq # ops) q = queue_op_run enq deq ops (snd (deq q))"

text \<open>Taking at most \<open>n\<close> elements, until the queue is empty.\<close>

fun drain :: "('q \<Rightarrow> 'a option \<times> 'q) \<Rightarrow> nat \<Rightarrow> 'q \<Rightarrow> 'a list \<times> 'q" where
  "drain deq 0 q = ([], q)"
| "drain deq (Suc n) q =
     (case deq q of
        (None, q') \<Rightarrow> ([], q')
      | (Some x, q') \<Rightarrow> (let (xs, q'') = drain deq n q' in (x # xs, q'')))"

locale bounded_queue =
  fixes enq :: "'a \<Rightarrow> 'q \<Rightarrow> bool \<times> 'q"
    and deq :: "'q \<Rightarrow> 'a option \<times> 'q"
    and contents :: "'q \<Rightarrow> 'a list"
    and capacity :: "'q \<Rightarrow> nat"
    and invar :: "'q \<Rightarrow> bool"
  assumes enq_full: "invar q \<Longrightarrow> capacity q \<le> length (contents q) \<Longrightarrow> enq x q = (False, q)"
    and enq_room: "invar q \<Longrightarrow> length (contents q) < capacity q \<Longrightarrow>
      fst (enq x q) \<and> contents (snd (enq x q)) = contents q @ [x] \<and>
      capacity (snd (enq x q)) = capacity q \<and> invar (snd (enq x q))"
    and deq_empty: "invar q \<Longrightarrow> contents q = [] \<Longrightarrow> deq q = (None, q)"
    and deq_some: "invar q \<Longrightarrow> contents q = x # xs \<Longrightarrow>
      fst (deq q) = Some x \<and> contents (snd (deq q)) = xs \<and>
      capacity (snd (deq q)) = capacity q \<and> invar (snd (deq q))"
    and contents_bound: "invar q \<Longrightarrow> length (contents q) \<le> capacity q"
begin

lemma enq_list:
  assumes "invar q"
  shows "contents (snd (enq x q)) = list_op (capacity q) (Enq x) (contents q)"
    and "fst (enq x q) \<longleftrightarrow> length (contents q) < capacity q"
    and "capacity (snd (enq x q)) = capacity q" and "invar (snd (enq x q))"
  using enq_room [OF assms, of x] enq_full [OF assms, of x] assms
  by (cases "length (contents q) < capacity q"; auto)+

lemma deq_list:
  assumes "invar q"
  shows "contents (snd (deq q)) = tl (contents q)"
    and "fst (deq q) = (case contents q of [] \<Rightarrow> None | x # xs \<Rightarrow> Some x)"
    and "capacity (snd (deq q)) = capacity q" and "invar (snd (deq q))"
  using deq_some [OF assms] deq_empty [OF assms] assms by (cases "contents q"; auto)+

lemma queue_op_run_list:
  assumes "invar q"
  shows "contents (queue_op_run enq deq ops q) = fold (list_op (capacity q)) ops (contents q)
    \<and> invar (queue_op_run enq deq ops q)"
  using assms
proof (induction ops arbitrary: q)
  case Nil
  then show ?case by simp
next
  case (Cons op ops)
  then show ?case
    by (cases op) (use enq_list [OF Cons.prems] deq_list [OF Cons.prems] in \<open>simp_all\<close>)
qed

lemma drain_take:
  assumes "invar q"
  shows "fst (drain deq n q) = take n (contents q)"
    and "contents (snd (drain deq n q)) = drop n (contents q)"
    and "capacity (snd (drain deq n q)) = capacity q" and "invar (snd (drain deq n q))"
proof -
  have "fst (drain deq n q) = take n (contents q) \<and>
      contents (snd (drain deq n q)) = drop n (contents q) \<and>
      capacity (snd (drain deq n q)) = capacity q \<and> invar (snd (drain deq n q))"
    using assms
  proof (induction n arbitrary: q)
    case 0
    then show ?case by simp
  next
    case (Suc n)
    show ?case
    proof (cases "contents q")
      case Nil
      with Suc.prems deq_empty show ?thesis by simp
    next
      case (Cons x xs)
      obtain q' where q': "deq q = (Some x, q')" "contents q' = xs" "capacity q' = capacity q" "invar q'"
        using deq_some [OF Suc.prems Cons] by (metis prod.collapse)
      with Suc.IH [OF q'(4)] Cons show ?thesis by (cases "drain deq n q'") simp
    qed
  qed
  then show "fst (drain deq n q) = take n (contents q)"
    "contents (snd (drain deq n q)) = drop n (contents q)"
    "capacity (snd (drain deq n q)) = capacity q" "invar (snd (drain deq n q))" by simp_all
qed

lemma drain_all:
  assumes "invar q" "capacity q \<le> n"
  shows "fst (drain deq n q) = contents q" and "contents (snd (drain deq n q)) = []"
  using drain_take [OF assms(1), of n] contents_bound [OF assms(1)] assms(2) by simp_all

end

end
