(* ===== verification/AsyncLogger.thy ===== *)
theory AsyncLogger
  imports BoundedQueue
begin

text \<open>
  \<^verbatim>\<open>coroutineWebServer/AsyncLogger.{h,cpp}\<close>: the ring \<^verbatim>\<open>LogQueue\<close> with its 64-bit
  sequence numbers, and the logger around it (\<^verbatim>\<open>start\<close>, \<^verbatim>\<open>stop\<close>, \<^verbatim>\<open>log\<close>,
  \<^verbatim>\<open>direct_write\<close>, \<^verbatim>\<open>worker_loop\<close>). The operations of the ring are those of one
  thread at a time; \<^verbatim>\<open>log\<close> takes what the worker does while the caller yields as an
  argument. The ring implements the bounded queue of \<^verbatim>\<open>BoundedQueue\<close> across the
  wrap-around of its counters, and every line logged before \<^verbatim>\<open>stop\<close> reaches the file once.
\<close>

section \<open>The ring\<close>

text \<open>A null \<^verbatim>\<open>shared_ptr\<close> is \<open>None\<close>.\<close>

record Slot =
  sequence :: "64 word"
  payload :: "string option"

record LogQueue =
  slots :: "Slot list"
  q_mask :: "64 word"
  q_head :: "64 word"
  q_tail :: "64 word"

definition LogQueue_make :: "64 word \<Rightarrow> LogQueue result" where
  "LogQueue_make capacity =
     (if capacity = 0 \<or> and capacity (capacity - 1) \<noteq> 0 then throw Invalid_argument
      else return \<lparr>slots = map (\<lambda>i. \<lparr>sequence = of_nat i, payload = None\<rparr>) [0..<unat capacity],
                   q_mask = capacity - 1, q_head = 0, q_tail = 0\<rparr>)"

definition slot_index :: "LogQueue \<Rightarrow> 64 word \<Rightarrow> nat" where
  "slot_index q pos = unat (and pos (q_mask q))"

text \<open>
  \<^verbatim>\<open>push\<close> and \<^verbatim>\<open>pop\<close> run by one thread. The difference of the two casts wraps.
  With \<open>diff > 0\<close> the loop reloads the counter, which no one changes, and never ends:
  \<open>None\<close>.
\<close>

definition push :: "string option \<Rightarrow> LogQueue \<Rightarrow> (bool \<times> LogQueue) option" where
  "push entry q =
     (let pos = q_tail q;
          i = slot_index q pos;
          diff = sint (sequence (slots q ! i) - pos)
      in if diff = 0 then
           Some (True, q\<lparr>q_tail := pos + 1,
                         slots := (slots q)[i := \<lparr>sequence = pos + 1, payload = entry\<rparr>]\<rparr>)
         else if diff < 0 then Some (False, q)
         else None)"

text \<open>\<^verbatim>\<open>pop\<close> returns the flag and the new value of the caller's \<^verbatim>\<open>entry\<close>.\<close>

definition pop :: "string option \<Rightarrow> LogQueue \<Rightarrow> (bool \<times> string option \<times> LogQueue) option" where
  "pop entry q =
     (let pos = q_head q;
          i = slot_index q pos;
          diff = sint (sequence (slots q ! i) - (pos + 1))
      in if diff = 0 then
           (let got = payload (slots q ! i)
            in Some (got \<noteq> None, got,
                 q\<lparr>q_head := pos + 1,
                   slots := (slots q)[i := \<lparr>sequence = pos + q_mask q + 1, payload = None\<rparr>]\<rparr>))
         else if diff < 0 then Some (False, entry, q)
         else None)"

section \<open>The ring is a bounded queue\<close>

definition ring_size :: "LogQueue \<Rightarrow> nat" where
  "ring_size q = unat (q_tail q - q_head q)"

text \<open>Slot number of the \<open>i\<close>-th position from the head.\<close>

definition ring_idx :: "LogQueue \<Rightarrow> nat \<Rightarrow> nat" where
  "ring_idx q i = (unat (q_head q) + i) mod length (slots q)"

definition ring_inv :: "LogQueue \<Rightarrow> bool" where
  "ring_inv q \<longleftrightarrow>
     (\<exists>k. 1 \<le> k \<and> k \<le> 62 \<and> length (slots q) = 2 ^ k \<and> q_mask q = 2 ^ k - 1) \<and>
     ring_size q \<le> length (slots q) \<and>
     (\<forall>i < length (slots q).
        sequence (slots q ! ring_idx q i) = q_head q + of_nat i + (if i < ring_size q then 1 else 0) \<and>
        (payload (slots q ! ring_idx q i) \<noteq> None \<longleftrightarrow> i < ring_size q))"

definition ring_contents :: "LogQueue \<Rightarrow> string list" where
  "ring_contents q = map (\<lambda>i. the (payload (slots q ! ring_idx q i))) [0..<ring_size q]"

definition ring_enq :: "string \<Rightarrow> LogQueue \<Rightarrow> bool \<times> LogQueue" where
  "ring_enq x q = (case push (Some x) q of Some r \<Rightarrow> r | None \<Rightarrow> (False, q))"

definition ring_deq :: "LogQueue \<Rightarrow> string option \<times> LogQueue" where
  "ring_deq q = (case pop None q of Some (b, e, q') \<Rightarrow> (e, q') | None \<Rightarrow> (None, q))"

definition ring_capacity :: "LogQueue \<Rightarrow> nat" where
  "ring_capacity q = length (slots q)"

lemma unat_and_mask: "k \<le> 63 \<Longrightarrow> unat (and p (2 ^ k - 1) :: 64 word) = unat p mod 2 ^ k"
proof -
  have "and p (2 ^ k - 1) = take_bit k p" by (simp add: take_bit_eq_mask mask_eq_exp_minus_1)
  then show ?thesis by (simp only: unsigned_take_bit_eq) (simp add: take_bit_eq_mod)
qed

lemma unat_add_mod:
  assumes "k \<le> 63"
  shows "unat (p + of_nat i :: 64 word) mod 2 ^ k = (unat p + i) mod 2 ^ k"
proof -
  have dvd: "(2 :: nat) ^ k dvd 2 ^ 64" using assms by (intro le_imp_power_dvd) simp
  have "unat (p + of_nat i :: 64 word) = (unat p + i) mod 2 ^ 64"
    by (simp add: unat_word_ariths unat_of_nat mod_add_right_eq)
  then show ?thesis using dvd by (simp add: mod_mod_cancel)
qed

lemma slot_index_pos:
  assumes "ring_inv q" "p = q_head q + of_nat i"
  shows "slot_index q p = ring_idx q i"
proof -
  obtain k where k: "k \<le> 62" "length (slots q) = 2 ^ k" "q_mask q = 2 ^ k - 1"
    using assms(1) by (auto simp: ring_inv_def)
  have "slot_index q p = unat p mod 2 ^ k"
    using k by (simp add: slot_index_def unat_and_mask)
  also have "\<dots> = (unat (q_head q) + i) mod 2 ^ k" using unat_add_mod [of k] k assms(2) by simp
  finally show ?thesis by (simp add: ring_idx_def k(2))
qed

lemma ring_idx_inj:
  "i < length (slots q) \<Longrightarrow> j < length (slots q) \<Longrightarrow> ring_idx q i = ring_idx q j \<longleftrightarrow> i = j"
  by (auto simp: ring_idx_def dest: add_mod_inj)

lemma sint_word_of_int:
  "- (2 ^ 63) \<le> x \<Longrightarrow> x < 2 ^ 63 \<Longrightarrow> sint (word_of_int x :: 64 word) = x"
  by (simp add: sint_sbintrunc' signed_take_bit_int_eq_self)

lemma sint_full:
  assumes "1 \<le> k" "k \<le> 62"
  shows "sint (1 - 2 ^ k :: 64 word) = 1 - 2 ^ k"
proof -
  have "(2 :: int) ^ k \<le> 2 ^ 62" using assms(2) by (intro power_increasing) simp_all
  then have "- (2 ^ 63) \<le> (1 :: int) - 2 ^ k" by simp
  moreover have "(1 :: int) - 2 ^ k < 2 ^ 63" by (rule less_le_trans [of _ 1]) simp_all
  ultimately have "sint (word_of_int (1 - 2 ^ k) :: 64 word) = 1 - 2 ^ k" by (rule sint_word_of_int)
  then show ?thesis by simp
qed

lemma ring_invD:
  assumes "ring_inv q"
  obtains k where "1 \<le> k" "k \<le> 62" "length (slots q) = 2 ^ k" "q_mask q = 2 ^ k - 1"
    "ring_size q \<le> 2 ^ k" "q_tail q = q_head q + of_nat (ring_size q)"
    "\<And>i. i < 2 ^ k \<Longrightarrow> sequence (slots q ! ring_idx q i) =
        q_head q + of_nat i + (if i < ring_size q then 1 else 0)"
    "\<And>i. i < 2 ^ k \<Longrightarrow> payload (slots q ! ring_idx q i) \<noteq> None \<longleftrightarrow> i < ring_size q"
proof -
  have "q_tail q = q_head q + of_nat (ring_size q)" by (simp add: ring_size_def)
  with assms that show ?thesis by (auto simp: ring_inv_def)
qed

lemma ring_idx_bound: "ring_inv q \<Longrightarrow> ring_idx q i < length (slots q)"
  by (auto simp: ring_idx_def ring_inv_def)

lemma push_full:
  assumes inv: "ring_inv q" and full: "ring_size q = length (slots q)"
  shows "push e q = Some (False, q)"
proof -
  obtain k where k: "1 \<le> k" "k \<le> 62" "length (slots q) = 2 ^ k"
    "q_tail q = q_head q + of_nat (ring_size q)"
    "\<And>i. i < 2 ^ k \<Longrightarrow> sequence (slots q ! ring_idx q i) =
        q_head q + of_nat i + (if i < ring_size q then 1 else 0)"
    using inv by (rule ring_invD) blast
  have pos: "q_tail q = q_head q + 2 ^ k" using k full by simp
  have "slot_index q (q_tail q) = ring_idx q (2 ^ k)"
    using slot_index_pos [OF inv, of "q_tail q" "2 ^ k"] pos by simp
  also have "\<dots> = ring_idx q 0" by (simp add: ring_idx_def k(3))
  finally have "sequence (slots q ! slot_index q (q_tail q)) - q_tail q = 1 - 2 ^ k"
    using k(5) [of 0] full k(3) pos by simp
  then have "sint (sequence (slots q ! slot_index q (q_tail q)) - q_tail q) = 1 - 2 ^ k"
    using sint_full [OF k(1,2)] by simp
  moreover have "(1 :: int) - 2 ^ k < 0" using k(1) by simp
  ultimately show ?thesis by (simp add: push_def)
qed

text \<open>The ring after a successful push.\<close>

definition pushed :: "string \<Rightarrow> LogQueue \<Rightarrow> LogQueue" where
  "pushed x q = q\<lparr>q_tail := q_tail q + 1,
     slots := (slots q)[ring_idx q (ring_size q) := \<lparr>sequence = q_tail q + 1, payload = Some x\<rparr>]\<rparr>"

lemma push_room:
  assumes inv: "ring_inv q" and room: "ring_size q < length (slots q)"
  shows "push (Some x) q = Some (True, pushed x q)"
proof -
  obtain k where k: "length (slots q) = 2 ^ k" "q_tail q = q_head q + of_nat (ring_size q)"
    "\<And>i. i < 2 ^ k \<Longrightarrow> sequence (slots q ! ring_idx q i) =
        q_head q + of_nat i + (if i < ring_size q then 1 else 0)"
    using inv by (rule ring_invD) blast
  have "slot_index q (q_tail q) = ring_idx q (ring_size q)" using slot_index_pos [OF inv k(2)] .
  then show ?thesis using k room by (simp add: push_def pushed_def Let_def)
qed

lemma pushed_size:
  assumes "ring_inv q" "ring_size q < length (slots q)"
  shows "ring_size (pushed x q) = Suc (ring_size q)"
proof -
  obtain k :: nat where k: "k \<le> 62" "length (slots q) = 2 ^ k" using assms(1) by (rule ring_invD)
  have "(2 :: nat) ^ k \<le> 2 ^ 62" using k(1) by (intro power_increasing) simp_all
  then have "Suc (unat (q_tail q - q_head q)) < 2 ^ 64"
    using assms(2) k(2) by (simp add: ring_size_def)
  then have "unat (q_tail q - q_head q + 1) = Suc (unat (q_tail q - q_head q))"
    by (simp add: unat_word_ariths)
  then show ?thesis by (simp add: ring_size_def pushed_def algebra_simps)
qed

lemma pushed_inv:
  assumes inv: "ring_inv q" and room: "ring_size q < length (slots q)"
  shows "ring_inv (pushed x q)" and "ring_contents (pushed x q) = ring_contents q @ [x]"
proof -
  obtain k where k: "1 \<le> k" "k \<le> 62" "length (slots q) = 2 ^ k" "q_mask q = 2 ^ k - 1"
    "ring_size q \<le> 2 ^ k" "q_tail q = q_head q + of_nat (ring_size q)"
    "\<And>i. i < 2 ^ k \<Longrightarrow> sequence (slots q ! ring_idx q i) =
        q_head q + of_nat i + (if i < ring_size q then 1 else 0)"
    "\<And>i. i < 2 ^ k \<Longrightarrow> payload (slots q ! ring_idx q i) \<noteq> None \<longleftrightarrow> i < ring_size q"
    using inv by (rule ring_invD) blast
  have idx: "ring_idx (pushed x q) i = ring_idx q i" for i by (simp add: ring_idx_def pushed_def)
  have other: "slots (pushed x q) ! ring_idx q i = slots q ! ring_idx q i"
    if "i < 2 ^ k" "i \<noteq> ring_size q" for i
    using that room k(3) ring_idx_inj [of i q "ring_size q"] by (simp add: pushed_def)
  have this_slot: "slots (pushed x q) ! ring_idx q (ring_size q) =
      \<lparr>sequence = q_tail q + 1, payload = Some x\<rparr>"
    using ring_idx_bound [OF inv] by (simp add: pushed_def)
  note sz = pushed_size [OF inv room, of x]
  have pay: "payload (slots (pushed x q) ! ring_idx q i) \<noteq> None \<longleftrightarrow> i < Suc (ring_size q)"
    and seq: "sequence (slots (pushed x q) ! ring_idx q i) =
      q_head q + of_nat i + (if i < Suc (ring_size q) then 1 else 0)"
    if "i < 2 ^ k" for i
    using that k(6) k(7,8) [of i] this_slot other [of i] by (cases "i = ring_size q"; force)+
  have "length (slots (pushed x q)) = 2 ^ k" "q_mask (pushed x q) = 2 ^ k - 1"
    "q_head (pushed x q) = q_head q"
    using k by (simp_all add: pushed_def)
  then show "ring_inv (pushed x q)"
    using k(1,2,3) room pay seq unfolding ring_inv_def idx sz by auto
  show "ring_contents (pushed x q) = ring_contents q @ [x]"
    using room k(3) by (simp add: ring_contents_def idx sz this_slot other)
qed

lemma pop_empty:
  assumes inv: "ring_inv q" and empty: "ring_size q = 0"
  shows "pop e q = Some (False, e, q)"
proof -
  obtain k where k: "\<And>i. i < 2 ^ k \<Longrightarrow> sequence (slots q ! ring_idx q i) =
        q_head q + of_nat i + (if i < ring_size q then 1 else 0)"
    using inv by (rule ring_invD) blast
  have "sequence (slots q ! slot_index q (q_head q)) - (q_head q + 1) = - 1"
    using k [of 0] slot_index_pos [OF inv, of "q_head q" 0] empty by simp
  then have "sint (sequence (slots q ! slot_index q (q_head q)) - (q_head q + 1)) = - 1"
    by (simp only:) simp
  then show ?thesis by (simp add: pop_def)
qed

text \<open>The ring after a successful pop.\<close>

definition popped :: "LogQueue \<Rightarrow> LogQueue" where
  "popped q = q\<lparr>q_head := q_head q + 1,
     slots := (slots q)[ring_idx q 0 := \<lparr>sequence = q_head q + of_nat (length (slots q)), payload = None\<rparr>]\<rparr>"

lemma pop_some:
  assumes inv: "ring_inv q" and some: "0 < ring_size q"
  shows "pop e q = Some (True, Some (hd (ring_contents q)), popped q)"
proof -
  obtain k where k: "length (slots q) = 2 ^ k" "q_mask q = 2 ^ k - 1"
    "\<And>i. i < 2 ^ k \<Longrightarrow> sequence (slots q ! ring_idx q i) =
        q_head q + of_nat i + (if i < ring_size q then 1 else 0)"
    "\<And>i. i < 2 ^ k \<Longrightarrow> payload (slots q ! ring_idx q i) \<noteq> None \<longleftrightarrow> i < ring_size q"
    using inv by (rule ring_invD) blast
  have i: "slot_index q (q_head q) = ring_idx q 0"
    using slot_index_pos [OF inv, of "q_head q" 0] by simp
  have "hd (ring_contents q) = the (payload (slots q ! ring_idx q 0))"
    using some by (simp add: ring_contents_def hd_map)
  then have "payload (slots q ! ring_idx q 0) = Some (hd (ring_contents q))"
    using k(4) [of 0] some by auto
  then show ?thesis using k(3) [of 0] some by (simp add: pop_def popped_def i k(1,2) Let_def)
qed

lemma popped_size:
  assumes "0 < ring_size q"
  shows "Suc (ring_size (popped q)) = ring_size q"
proof -
  have "unat (q_tail q - q_head q - 1) = unat (q_tail q - q_head q) - 1"
    using assms by (intro unat_minus_one) (auto simp: ring_size_def)
  moreover have "ring_size (popped q) = unat (q_tail q - q_head q - 1)"
    by (simp add: ring_size_def popped_def diff_diff_eq)
  ultimately show ?thesis using assms by (simp add: ring_size_def)
qed

lemma popped_idx:
  assumes "ring_inv q"
  shows "ring_idx (popped q) i = ring_idx q (Suc i)"
proof -
  obtain k :: nat where k: "k \<le> 62" "length (slots q) = 2 ^ k" using assms by (rule ring_invD)
  have "(unat (q_head q + 1) + i) mod 2 ^ k = (unat (q_head q + of_nat 1) mod 2 ^ k + i) mod 2 ^ k"
    by (simp add: mod_add_left_eq)
  also have "\<dots> = ((unat (q_head q) + 1) mod 2 ^ k + i) mod 2 ^ k"
    using unat_add_mod [of k "q_head q" 1] k(1) by (simp only:)
  also have "\<dots> = (unat (q_head q) + Suc i) mod 2 ^ k" by (simp add: mod_add_left_eq)
  finally show ?thesis by (simp add: ring_idx_def popped_def k(2))
qed

lemma popped_inv:
  assumes inv: "ring_inv q" and some: "0 < ring_size q"
  shows "ring_inv (popped q)" and "ring_contents (popped q) = tl (ring_contents q)"
proof -
  obtain k where k: "1 \<le> k" "k \<le> 62" "length (slots q) = 2 ^ k" "q_mask q = 2 ^ k - 1"
    "ring_size q \<le> 2 ^ k"
    "\<And>i. i < 2 ^ k \<Longrightarrow> sequence (slots q ! ring_idx q i) =
        q_head q + of_nat i + (if i < ring_size q then 1 else 0)"
    "\<And>i. i < 2 ^ k \<Longrightarrow> payload (slots q ! ring_idx q i) \<noteq> None \<longleftrightarrow> i < ring_size q"
    using inv by (rule ring_invD) blast
  have other: "slots (popped q) ! ring_idx q (Suc i) = slots q ! ring_idx q (Suc i)"
    if "Suc i < 2 ^ k" for i
    using that k(3) ring_idx_inj [of "Suc i" q 0] by (simp add: popped_def)
  have last: "slots (popped q) ! ring_idx q (2 ^ k) = \<lparr>sequence = q_head q + 2 ^ k, payload = None\<rparr>"
    using ring_idx_bound [OF inv, of 0] by (simp add: popped_def ring_idx_def k(3))
  note sz = popped_size [OF some]
  have pay: "payload (slots (popped q) ! ring_idx q (Suc i)) \<noteq> None \<longleftrightarrow> i < ring_size (popped q)"
    and seq: "sequence (slots (popped q) ! ring_idx q (Suc i)) =
      q_head q + 1 + of_nat i + (if i < ring_size (popped q) then 1 else 0)"
    if i: "i < 2 ^ k" for i
  proof -
    show "payload (slots (popped q) ! ring_idx q (Suc i)) \<noteq> None \<longleftrightarrow> i < ring_size (popped q)"
      using i k(5) k(7) [of "Suc i"] last other [of i] sz by (cases "Suc i = 2 ^ k"; force)
    have "1 + of_nat i = (2 :: 64 word) ^ k" if "Suc i = 2 ^ k"
      using that by (metis of_nat_Suc of_nat_power of_nat_numeral)
    then show "sequence (slots (popped q) ! ring_idx q (Suc i)) =
      q_head q + 1 + of_nat i + (if i < ring_size (popped q) then 1 else 0)"
      using i k(5) k(6) [of "Suc i"] last other [of i] sz
      by (cases "Suc i = 2 ^ k") (auto simp: add.assoc)
  qed
  have "length (slots (popped q)) = 2 ^ k" "q_mask (popped q) = 2 ^ k - 1"
    "q_head (popped q) = q_head q + 1"
    using k by (simp_all add: popped_def)
  then show "ring_inv (popped q)"
    using k(1,2,5) pay seq sz unfolding ring_inv_def popped_idx [OF inv] by auto
  have "[0..<ring_size q] = 0 # map Suc [0..<ring_size (popped q)]"
    using sz by (metis map_Suc_upt upt_conv_Cons zero_less_Suc)
  then show "ring_contents (popped q) = tl (ring_contents q)"
    using k(5) sz other by (simp add: ring_contents_def popped_idx [OF inv])
qed

lemma ring_contents_length [simp]: "length (ring_contents q) = ring_size q"
  by (simp add: ring_contents_def)

interpretation lq: bounded_queue ring_enq ring_deq ring_contents ring_capacity ring_inv
proof (unfold_locales, goal_cases)
  case (1 q x)
  then have "ring_size q = length (slots q)"
    by (simp add: ring_capacity_def ring_inv_def)
  with 1 show ?case by (simp add: ring_enq_def push_full)
next
  case (2 q x)
  then show ?case
    by (simp add: ring_enq_def ring_capacity_def push_room pushed_inv) (simp add: pushed_def)
next
  case (3 q)
  then have "ring_size q = 0" by (metis ring_contents_length list.size(3))
  with 3 show ?case by (simp add: ring_deq_def pop_empty)
next
  case (4 q x xs)
  then have "0 < ring_size q" by (metis ring_contents_length length_pos_if_in_set list.set_intros(1))
  with 4 show ?case
    by (simp add: ring_deq_def pop_some popped_inv) (simp add: popped_def ring_capacity_def)
next
  case (5 q)
  then show ?case by (simp add: ring_inv_def ring_capacity_def)
qed

text \<open>The guard of the constructor accepts exactly the powers of two.\<close>

lemma and_pred_nat:
  fixes n :: nat
  assumes "0 < n" "and n (n - 1) = 0"
  shows "\<exists>k. n = 2 ^ k"
  using assms
proof (induction n rule: less_induct)
  case (less n)
  show ?case
  proof (cases "odd n")
    case True
    then obtain m where m: "n = 2 * m + 1" by (elim oddE)
    have "and (2 * m + 1) (2 * m) = 2 * m" by (subst and_rec) simp
    with less.prems m have "n = 2 ^ 0" by simp
    then show ?thesis by blast
  next
    case False
    then obtain m where m: "n = 2 * m" by auto
    with less.prems have pos: "0 < m" by simp
    then have "n - 1 = 2 * (m - 1) + 1" using m by simp
    then have "and n (n - 1) = 2 * and m (m - 1)" using m by (subst and_rec) simp
    with less.prems pos m less.IH [of m] obtain k where "m = 2 ^ k" by auto
    with m have "n = 2 ^ Suc k" by simp
    then show ?thesis by blast
  qed
qed

lemma and_pred_word:
  fixes c :: "64 word"
  shows "c \<noteq> 0 \<and> and c (c - 1) = 0 \<longleftrightarrow> (\<exists>k < 64. c = 2 ^ k)"
proof
  assume c: "c \<noteq> 0 \<and> and c (c - 1) = 0"
  then have "unat (c - 1) = unat c - 1" by (intro unat_minus_one) simp
  then have "and (unat c) (unat c - 1) = unat (and c (c - 1))" by (simp add: unsigned_and_eq)
  with c have "and (unat c) (unat c - 1) = 0" by simp
  then obtain k where k: "unat c = 2 ^ k" using c and_pred_nat by (metis unat_gt_0)
  moreover have "unat c < 2 ^ 64" using unsigned_less [of c] by simp
  ultimately have "(2 :: nat) ^ k < 2 ^ 64" by simp
  then have "k < 64" by (rule power_less_imp_less_exp [rotated]) simp
  moreover have "c = 2 ^ k" using k by (metis of_nat_unat of_nat_power of_nat_numeral ucast_id)
  ultimately show "\<exists>k < 64. c = 2 ^ k" by blast
next
  assume "\<exists>k < 64. c = 2 ^ k"
  then obtain k where k: "k < 64" "c = 2 ^ k" by blast
  have "c \<noteq> 0" using k by simp
  moreover have "and c (c - 1) = take_bit k (2 ^ k)"
    using k by (simp add: take_bit_eq_mask mask_eq_exp_minus_1)
  then have "and c (c - 1) = 0" by (simp add: take_bit_eq_0_iff)
  ultimately show "c \<noteq> 0 \<and> and c (c - 1) = 0" by simp
qed

lemma LogQueue_make_inv:
  assumes "LogQueue_make c = return q" "1 < c" "c \<le> 2 ^ 62"
  shows "ring_inv q" "ring_contents q = []" "ring_capacity q = unat c"
proof -
  obtain k where k: "k < 64" "c = 2 ^ k"
    using assms(1) and_pred_word [of c] by (auto simp: LogQueue_make_def split: if_splits)
  have "(2 :: nat) ^ k < 2 ^ 64" using k(1) by (intro power_strict_increasing) simp_all
  then have "unat (of_nat (2 ^ k) :: 64 word) = 2 ^ k" by (simp add: unat_of_nat del: of_nat_power)
  then have c: "unat c = 2 ^ k" using k(2) by simp
  have "1 \<le> k" using assms(2) k by (cases k) auto
  have "unat c \<le> 2 ^ 62" using assms(3) by (simp add: word_le_nat_alt)
  then have "(2 :: nat) ^ k \<le> 2 ^ 62" using c by simp
  then have "k \<le> 62" by (rule power_le_imp_le_exp [rotated]) simp
  have q: "q = \<lparr>slots = map (\<lambda>i. \<lparr>sequence = of_nat i, payload = None\<rparr>) [0..<unat c],
      q_mask = c - 1, q_head = 0, q_tail = 0\<rparr>"
    using assms(1) by (auto simp: LogQueue_make_def split: if_splits)
  then show "ring_contents q = []" "ring_capacity q = unat c"
    by (simp_all add: ring_contents_def ring_size_def ring_capacity_def)
  show "ring_inv q"
    using \<open>1 \<le> k\<close> \<open>k \<le> 62\<close> c k(2) by (auto simp: ring_inv_def q ring_size_def ring_idx_def)
qed

section \<open>The logger\<close>

datatype LogLevel = L_trace | L_debug | L_info | L_warn | L_error | L_fatal

fun level_name :: "LogLevel \<Rightarrow> string" where
  "level_name L_trace = ''TRACE''"
| "level_name L_debug = ''DEBUG''"
| "level_name L_info = ''INFO''"
| "level_name L_warn = ''WARN''"
| "level_name L_error = ''ERROR''"
| "level_name L_fatal = ''FATAL''"

text \<open>\<open>ts\<close> is what \<^verbatim>\<open>format_timestamp\<close> reads from the clock.\<close>

definition format_line :: "string \<Rightarrow> LogLevel \<Rightarrow> string \<Rightarrow> string" where
  "format_line ts level message = ts @ '' ['' @ level_name level @ ''] '' @ message @ [LF]"

text \<open>
  The state. The stream \<^verbatim>\<open>sink_\<close> is its open flag, the text not yet flushed and the
  contents of the file; \<open>lg_worker\<close> says that \<^verbatim>\<open>worker_\<close> is joinable.
\<close>

record Logger =
  lg_file_path :: string
  lg_running :: bool
  lg_worker :: bool
  lg_queue :: LogQueue
  sink_open :: bool
  sink_buf :: string
  sink_file :: string

definition AsyncLogger_make :: "string \<Rightarrow> 64 word \<Rightarrow> string \<Rightarrow> Logger result" where
  "AsyncLogger_make fp capacity file =
     (case LogQueue_make capacity of
        Inl e \<Rightarrow> throw e
      | Inr q \<Rightarrow> return \<lparr>lg_file_path = fp, lg_running = False, lg_worker = False, lg_queue = q,
          sink_open = False, sink_buf = [], sink_file = file\<rparr>)"

text \<open>\<open>can_open\<close> says whether the file can be opened for appending.\<close>

definition log_start :: "(string \<Rightarrow> bool) \<Rightarrow> Logger \<Rightarrow> Logger result" where
  "log_start can_open st =
     (if lg_running st then return st
      else if \<not> can_open (lg_file_path st)
      then throw (Runtime_error (''failed to open log file: '' @ lg_file_path st))
      else return (st\<lparr>lg_running := True, sink_open := True, lg_worker := True\<rparr>))"

definition sink_flush :: "Logger \<Rightarrow> Logger" where
  "sink_flush st = (if sink_open st
     then st\<lparr>sink_file := sink_file st @ sink_buf st, sink_buf := []\<rparr> else st)"

definition sink_write :: "string \<Rightarrow> Logger \<Rightarrow> Logger" where
  "sink_write line st = (if sink_open st then st\<lparr>sink_buf := sink_buf st @ line\<rparr> else st)"

definition direct_write :: "string \<Rightarrow> Logger \<Rightarrow> Logger" where
  "direct_write line st = (if sink_open st then sink_flush (sink_write line st) else st)"

text \<open>
  The loop \<^verbatim>\<open>while (queue_.pop(entry))\<close> of the worker; \<open>wrote\<close> is its flag. The
  first argument bounds the iterations; \<open>None\<close> when it is used up.
\<close>

fun worker_drain :: "nat \<Rightarrow> string option \<Rightarrow> bool \<Rightarrow> Logger \<Rightarrow> (bool \<times> Logger) option" where
  "worker_drain 0 entry wrote st = None"
| "worker_drain (Suc n) entry wrote st =
     (case pop entry (lg_queue st) of
        None \<Rightarrow> None
      | Some (False, e, q) \<Rightarrow> Some (wrote, st\<lparr>lg_queue := q\<rparr>)
      | Some (True, None, q) \<Rightarrow> worker_drain n None wrote (st\<lparr>lg_queue := q\<rparr>)
      | Some (True, Some line, q) \<Rightarrow>
          worker_drain n (Some line) (wrote \<or> sink_open st) (sink_write line (st\<lparr>lg_queue := q\<rparr>)))"

text \<open>One pass of the outer loop, and what follows the loop once \<^verbatim>\<open>running_\<close> is false.
  A drained ring yields at most its capacity of lines, so one more iteration ends the loop.\<close>

definition worker_pass :: "Logger \<Rightarrow> Logger option" where
  "worker_pass st =
     (case worker_drain (Suc (length (slots (lg_queue st)))) None False st of
        None \<Rightarrow> None
      | Some (wrote, st') \<Rightarrow> Some (if wrote then sink_flush st' else st'))"

definition worker_exit :: "Logger \<Rightarrow> Logger option" where
  "worker_exit st =
     (case worker_drain (Suc (length (slots (lg_queue st)))) None False st of
        None \<Rightarrow> None
      | Some (wrote, st') \<Rightarrow> Some (sink_flush st'))"

definition log_stop :: "Logger \<Rightarrow> Logger option" where
  "log_stop st =
     (if \<not> lg_running st then Some st
      else
        (let st1 = st\<lparr>lg_running := False\<rparr>
         in case (if lg_worker st1 then worker_exit st1 else Some st1) of
              None \<Rightarrow> None
            | Some st2 \<Rightarrow> Some ((sink_flush st2)\<lparr>lg_worker := False, sink_open := False\<rparr>)))"

text \<open>
  The retry loop of \<^verbatim>\<open>log\<close>, with the attempts left; \<open>sched\<close> gives, for every
  \<^verbatim>\<open>yield\<close>, how many lines the worker takes meanwhile.
\<close>

fun worker_some :: "nat \<Rightarrow> Logger \<Rightarrow> Logger option" where
  "worker_some 0 st = Some st"
| "worker_some (Suc n) st =
     (case pop None (lg_queue st) of
        None \<Rightarrow> None
      | Some (True, Some line, q) \<Rightarrow> worker_some n (sink_write line (st\<lparr>lg_queue := q\<rparr>))
      | Some (got, e, q) \<Rightarrow> worker_some n (st\<lparr>lg_queue := q\<rparr>))"

fun log_attempts :: "nat \<Rightarrow> (nat \<Rightarrow> nat) \<Rightarrow> string \<Rightarrow> Logger \<Rightarrow> Logger option" where
  "log_attempts 0 sched line st = Some (direct_write line st)"
| "log_attempts (Suc n) sched line st =
     (case push (Some line) (lg_queue st) of
        None \<Rightarrow> None
      | Some (True, q) \<Rightarrow> Some (st\<lparr>lg_queue := q\<rparr>)
      | Some (False, q) \<Rightarrow>
          (case worker_some (sched n) (st\<lparr>lg_queue := q\<rparr>) of
             None \<Rightarrow> None
           | Some st' \<Rightarrow> log_attempts n sched line st'))"

definition log_line :: "string \<Rightarrow> (nat \<Rightarrow> nat) \<Rightarrow> LogLevel \<Rightarrow> string \<Rightarrow> Logger \<Rightarrow> Logger option" where
  "log_line ts sched level message st = log_attempts 16 sched (format_line ts level message) st"

text \<open>The overload for a view makes a string of it.\<close>

definition log_view :: "string \<Rightarrow> (nat \<Rightarrow> nat) \<Rightarrow> LogLevel \<Rightarrow> string \<Rightarrow> Logger \<Rightarrow> Logger option" where
  "log_view ts sched level message st = log_line ts sched level message st"

text \<open>\<^verbatim>\<open>logf\<close> with or without \<^verbatim>\<open>std::format\<close>; \<open>formatted\<close> is what it would print.\<close>

definition logf :: "bool \<Rightarrow> string \<Rightarrow> (nat \<Rightarrow> nat) \<Rightarrow> LogLevel \<Rightarrow> string \<Rightarrow> Logger \<Rightarrow> Logger option" where
  "logf has_format ts sched level formatted st =
     log_line ts sched level (if has_format then formatted else ''format support unavailable'') st"

definition log_trace :: "bool \<Rightarrow> string \<Rightarrow> (nat \<Rightarrow> nat) \<Rightarrow> string \<Rightarrow> Logger \<Rightarrow> Logger option" where
  "log_trace has_format ts sched formatted st = logf has_format ts sched L_trace formatted st"

definition log_debug :: "bool \<Rightarrow> string \<Rightarrow> (nat \<Rightarrow> nat) \<Rightarrow> string \<Rightarrow> Logger \<Rightarrow> Logger option" where
  "log_debug has_format ts sched formatted st = logf has_format ts sched L_debug formatted st"

definition log_info :: "bool \<Rightarrow> string \<Rightarrow> (nat \<Rightarrow> nat) \<Rightarrow> string \<Rightarrow> Logger \<Rightarrow> Logger option" where
  "log_info has_format ts sched formatted st = logf has_format ts sched L_info formatted st"

definition log_warn :: "bool \<Rightarrow> string \<Rightarrow> (nat \<Rightarrow> nat) \<Rightarrow> string \<Rightarrow> Logger \<Rightarrow> Logger option" where
  "log_warn has_format ts sched formatted st = logf has_format ts sched L_warn formatted st"

definition log_error :: "bool \<Rightarrow> string \<Rightarrow> (nat \<Rightarrow> nat) \<Rightarrow> string \<Rightarrow> Logger \<Rightarrow> Logger option" where
  "log_error has_format ts sched formatted st = logf has_format ts sched L_error formatted st"

text \<open>The destructor.\<close>

definition AsyncLogger_dtor :: "Logger \<Rightarrow> Logger option" where
  "AsyncLogger_dtor st = log_stop st"

text \<open>A history of the logger: calls of \<^verbatim>\<open>log\<close> and passes of the worker.\<close>

datatype log_event = Log string "nat \<Rightarrow> nat" LogLevel string | Pass

fun log_run :: "log_event list \<Rightarrow> Logger \<Rightarrow> Logger option" where
  "log_run [] st = Some st"
| "log_run (Log ts sched level message # evs) st =
     (case log_line ts sched level message st of None \<Rightarrow> None | Some st' \<Rightarrow> log_run evs st')"
| "log_run (Pass # evs) st =
     (case worker_pass st of None \<Rightarrow> None | Some st' \<Rightarrow> log_run evs st')"

fun event_lines :: "log_event list \<Rightarrow> string list" where
  "event_lines [] = []"
| "event_lines (Log ts sched level message # evs) = format_line ts level message # event_lines evs"
| "event_lines (Pass # evs) = event_lines evs"

section \<open>Delivery\<close>

text \<open>
  What the file, the stream and the ring hold together is, after the text the file held
  first, the lines logged: in order when \<open>R\<close> is equality, in some order when it compares
  multisets.
\<close>

definition log_ok :: "(string list \<Rightarrow> string list \<Rightarrow> bool) \<Rightarrow> string \<Rightarrow> string list \<Rightarrow> Logger \<Rightarrow> bool" where
  "log_ok R old ls st \<longleftrightarrow>
     (\<exists>ws. sink_file st @ sink_buf st = old @ concat ws \<and> R (ws @ ring_contents (lg_queue st)) ls) \<and>
     ring_inv (lg_queue st) \<and> sink_open st"

definition same_lines :: "string list \<Rightarrow> string list \<Rightarrow> bool" where
  "same_lines a b = (mset a = mset b)"

lemma log_okI:
  assumes "sink_file st @ sink_buf st = old @ concat ws" "R (ws @ ring_contents (lg_queue st)) ls"
    "ring_inv (lg_queue st)" "sink_open st"
  shows "log_ok R old ls st"
  using assms by (auto simp: log_ok_def)

lemma pop_cases:
  assumes "ring_inv q"
  obtains "ring_contents q = []" "\<And>e. pop e q = Some (False, e, q)"
  | l ls where "ring_contents q = l # ls" "\<And>e. pop e q = Some (True, Some l, popped q)"
      "ring_contents (popped q) = ls" "ring_inv (popped q)" "ring_capacity (popped q) = ring_capacity q"
proof (cases "ring_contents q")
  case Nil
  then have "ring_size q = 0" by (metis ring_contents_length list.size(3))
  with Nil assms pop_empty that(1) show ?thesis by blast
next
  case (Cons l ls)
  then have "0 < ring_size q" by (metis ring_contents_length length_greater_0_conv list.distinct(1))
  with Cons assms pop_some [of q] popped_inv [of q] that(2) [of l ls]
  show ?thesis by (simp add: ring_capacity_def popped_def)
qed

lemma log_ok_take:
  assumes "log_ok R old ls st" "ring_contents (lg_queue st) = l # rest"
    "ring_contents q = rest" "ring_inv q"
  shows "log_ok R old ls (sink_write l (st\<lparr>lg_queue := q\<rparr>))"
proof -
  obtain ws where ws: "sink_file st @ sink_buf st = old @ concat ws"
    "R (ws @ ring_contents (lg_queue st)) ls" "sink_open st"
    using assms(1) by (auto simp: log_ok_def)
  have "sink_file st @ sink_buf st @ l = old @ concat (ws @ [l])"
    using ws(1) by (simp flip: append_assoc)
  then show ?thesis
    by - (rule log_okI [where ws = "ws @ [l]"], use ws assms in \<open>simp_all add: sink_write_def\<close>)
qed

lemma log_ok_flush: "log_ok R old ls st \<Longrightarrow> log_ok R old ls (sink_flush st)"
  by (auto simp: log_ok_def sink_flush_def)

lemma sink_write_frame [simp]:
  "lg_queue (sink_write l st) = lg_queue st" "lg_running (sink_write l st) = lg_running st"
  "lg_worker (sink_write l st) = lg_worker st" "sink_open (sink_write l st) = sink_open st"
  "lg_queue (sink_flush st) = lg_queue st" "lg_running (sink_flush st) = lg_running st"
  "lg_worker (sink_flush st) = lg_worker st" "sink_open (sink_flush st) = sink_open st"
  by (simp_all add: sink_write_def sink_flush_def)

text \<open>What every step of the worker and of the loggers keeps.\<close>

definition log_frame :: "Logger \<Rightarrow> Logger \<Rightarrow> bool" where
  "log_frame st st' \<longleftrightarrow> lg_running st' = lg_running st \<and> lg_worker st' = lg_worker st \<and>
     ring_capacity (lg_queue st') = ring_capacity (lg_queue st)"

lemma worker_drain_ok:
  assumes "log_ok R old ls st" "length (ring_contents (lg_queue st)) < n"
  shows "\<exists>w st'. worker_drain n e wrote st = Some (w, st') \<and> log_ok R old ls st' \<and>
    ring_contents (lg_queue st') = [] \<and> log_frame st st'"
  using assms
proof (induction n arbitrary: st e wrote)
  case 0
  then show ?case by simp
next
  case (Suc n)
  have inv: "ring_inv (lg_queue st)" using Suc.prems by (simp add: log_ok_def)
  then show ?case
  proof (cases rule: pop_cases)
    case 1
    with Suc.prems show ?thesis by (simp add: log_frame_def)
  next
    case (2 l rest)
    let ?st = "sink_write l (st\<lparr>lg_queue := popped (lg_queue st)\<rparr>)"
    have "log_ok R old ls ?st" using log_ok_take [OF Suc.prems(1) 2(1,3,4)] .
    moreover have "length (ring_contents (lg_queue ?st)) < n"
      using Suc.prems(2) by (simp add: 2(1,3) del: ring_contents_length)
    ultimately show ?thesis
      using Suc.IH [of ?st "Some l" "wrote \<or> sink_open st"] 2(2,5) by (simp add: log_frame_def)
  qed
qed

lemma worker_pass_ok:
  assumes "log_ok R old ls st"
  shows "\<exists>st'. worker_pass st = Some st' \<and> log_ok R old ls st' \<and>
    ring_contents (lg_queue st') = [] \<and> log_frame st st'"
    and "\<exists>st'. worker_exit st = Some st' \<and> log_ok R old ls st' \<and>
    ring_contents (lg_queue st') = [] \<and> sink_buf st' = [] \<and> log_frame st st'"
proof -
  have "length (ring_contents (lg_queue st)) \<le> ring_capacity (lg_queue st)"
    using assms lq.contents_bound by (simp add: log_ok_def)
  then obtain w st' where st': "worker_drain (Suc (length (slots (lg_queue st)))) None False st = Some (w, st')"
    "log_ok R old ls st'" "ring_contents (lg_queue st') = []" "log_frame st st'"
    using worker_drain_ok [OF assms, of "Suc (length (slots (lg_queue st)))" None False]
    by (auto simp: ring_capacity_def simp del: worker_drain.simps)
  have fl: "log_ok R old ls (sink_flush st')" using st' by (intro log_ok_flush)
  have "sink_buf (sink_flush st') = []" using st'(2) by (simp add: log_ok_def sink_flush_def)
  then show "\<exists>st'. worker_pass st = Some st' \<and> log_ok R old ls st' \<and>
    ring_contents (lg_queue st') = [] \<and> log_frame st st'"
    and "\<exists>st'. worker_exit st = Some st' \<and> log_ok R old ls st' \<and>
    ring_contents (lg_queue st') = [] \<and> sink_buf st' = [] \<and> log_frame st st'"
    using st' fl by (auto simp: worker_pass_def worker_exit_def log_frame_def)
qed

lemma worker_some_ok:
  assumes "log_ok R old ls st"
  shows "\<exists>st'. worker_some n st = Some st' \<and> log_ok R old ls st' \<and> log_frame st st'"
  using assms
proof (induction n arbitrary: st)
  case 0
  then show ?case by (simp add: log_frame_def)
next
  case (Suc n)
  have inv: "ring_inv (lg_queue st)" using Suc.prems by (simp add: log_ok_def)
  then show ?case
  proof (cases rule: pop_cases)
    case 1
    with Suc.IH [OF Suc.prems] show ?thesis by simp
  next
    case (2 l rest)
    let ?st = "sink_write l (st\<lparr>lg_queue := popped (lg_queue st)\<rparr>)"
    have "log_ok R old ls ?st" using log_ok_take [OF Suc.prems 2(1,3,4)] .
    from Suc.IH [OF this] 2 show ?thesis by (simp add: log_frame_def)
  qed
qed

lemma log_ok_push:
  assumes ok: "log_ok R old ls st" and room: "ring_size (lg_queue st) < length (slots (lg_queue st))"
    and R: "\<And>a. R a ls \<Longrightarrow> R (a @ [line]) (ls @ [line])"
  shows "push (Some line) (lg_queue st) = Some (True, pushed line (lg_queue st))"
    and "log_ok R old (ls @ [line]) (st\<lparr>lg_queue := pushed line (lg_queue st)\<rparr>)"
    and "log_frame st (st\<lparr>lg_queue := pushed line (lg_queue st)\<rparr>)"
proof -
  have inv: "ring_inv (lg_queue st)" using ok by (simp add: log_ok_def)
  show "push (Some line) (lg_queue st) = Some (True, pushed line (lg_queue st))"
    using push_room [OF inv room] .
  obtain ws where ws: "sink_file st @ sink_buf st = old @ concat ws"
    "R (ws @ ring_contents (lg_queue st)) ls" "sink_open st"
    using ok by (auto simp: log_ok_def)
  have "R (ws @ ring_contents (pushed line (lg_queue st))) (ls @ [line])"
    using R [OF ws(2)] pushed_inv(2) [OF inv room] by simp
  with ws pushed_inv(1) [OF inv room]
  show "log_ok R old (ls @ [line]) (st\<lparr>lg_queue := pushed line (lg_queue st)\<rparr>)"
    by (auto simp: log_ok_def)
  show "log_frame st (st\<lparr>lg_queue := pushed line (lg_queue st)\<rparr>)"
    by (simp add: log_frame_def ring_capacity_def pushed_def)
qed

lemma direct_write_ok:
  assumes "log_ok same_lines old ls st"
  shows "log_ok same_lines old (ls @ [line]) (direct_write line st)" "log_frame st (direct_write line st)"
proof -
  obtain ws where ws: "sink_file st @ sink_buf st = old @ concat ws"
    "same_lines (ws @ ring_contents (lg_queue st)) ls" "sink_open st" "ring_inv (lg_queue st)"
    using assms by (auto simp: log_ok_def)
  show "log_ok same_lines old (ls @ [line]) (direct_write line st)"
    by (rule log_okI [where ws = "ws @ [line]"])
      (use ws in \<open>simp_all add: direct_write_def sink_flush_def sink_write_def same_lines_def
        flip: append_assoc\<close>)
  show "log_frame st (direct_write line st)" by (simp add: direct_write_def log_frame_def)
qed

lemma log_attempts_ok:
  assumes "log_ok same_lines old ls st"
  shows "\<exists>st'. log_attempts n sched line st = Some st' \<and> log_ok same_lines old (ls @ [line]) st' \<and>
    log_frame st st'"
  using assms
proof (induction n arbitrary: st)
  case 0
  with direct_write_ok [of old ls st line] show ?case by simp
next
  case (Suc n)
  have inv: "ring_inv (lg_queue st)" using Suc.prems by (simp add: log_ok_def)
  show ?case
  proof (cases "ring_size (lg_queue st) < length (slots (lg_queue st))")
    case True
    with log_ok_push [OF Suc.prems True, of line] show ?thesis by (simp add: same_lines_def)
  next
    case False
    with inv have full: "push (Some line) (lg_queue st) = Some (False, lg_queue st)"
      using push_full by (simp add: ring_inv_def)
    obtain st1 where "worker_some (sched n) st = Some st1" "log_ok same_lines old ls st1" "log_frame st st1"
      using worker_some_ok [OF Suc.prems] by blast
    with full Suc.IH [of st1] show ?thesis by (auto simp: log_frame_def)
  qed
qed

lemma log_run_ok:
  assumes "log_ok same_lines old ls st"
  shows "\<exists>st'. log_run evs st = Some st' \<and> log_ok same_lines old (ls @ event_lines evs) st' \<and>
    log_frame st st'"
  using assms
proof (induction evs arbitrary: st ls rule: event_lines.induct)
  case 1
  then show ?case by (simp add: log_frame_def)
next
  case (2 ts sched level message evs)
  obtain st1 where st1: "log_line ts sched level message st = Some st1"
    "log_ok same_lines old (ls @ [format_line ts level message]) st1" "log_frame st st1"
    using log_attempts_ok [OF 2(2)] unfolding log_line_def by blast
  from 2(1) [OF st1(2)] st1 show ?case by (auto simp: log_frame_def)
next
  case (3 evs)
  obtain st1 where st1: "worker_pass st = Some st1" "log_ok same_lines old ls st1" "log_frame st st1"
    using worker_pass_ok(1) [OF 3(2)] by blast
  from 3(1) [OF st1(2)] st1 show ?case by (auto simp: log_frame_def)
qed

lemma log_stop_ok:
  assumes "log_ok R old ls st" "lg_running st" "lg_worker st"
  shows "\<exists>st' ws. log_stop st = Some st' \<and> \<not> sink_open st' \<and> \<not> lg_running st' \<and>
    sink_file st' = old @ concat ws \<and> R ws ls"
proof -
  have "log_ok R old ls (st\<lparr>lg_running := False\<rparr>)" using assms(1) by (simp add: log_ok_def)
  then obtain st1 where st1: "worker_exit (st\<lparr>lg_running := False\<rparr>) = Some st1" "log_ok R old ls st1"
    "ring_contents (lg_queue st1) = []" "sink_buf st1 = []" "log_frame (st\<lparr>lg_running := False\<rparr>) st1"
    using worker_pass_ok(2) by blast
  then obtain ws where "sink_file st1 = old @ concat ws" "R ws ls" "sink_open st1"
    by (auto simp: log_ok_def)
  with st1 assms show ?thesis
    by (auto simp: log_stop_def sink_flush_def log_frame_def)
qed

lemma logger_started:
  assumes "AsyncLogger_make fp c file = return lg" "1 < c" "c \<le> 2 ^ 62" "log_start can_open lg = return st"
    "R [] []"
  shows "log_ok R file [] st" "lg_running st" "lg_worker st" "ring_capacity (lg_queue st) = unat c"
    "ring_contents (lg_queue st) = []"
proof -
  obtain q where q: "LogQueue_make c = return q"
    using assms(1) by (auto simp: AsyncLogger_make_def split: sum.splits)
  with assms have "lg = \<lparr>lg_file_path = fp, lg_running = False, lg_worker = False, lg_queue = q,
          sink_open = False, sink_buf = [], sink_file = file\<rparr>"
    by (simp add: AsyncLogger_make_def)
  with assms LogQueue_make_inv [OF q assms(2,3)]
  show "log_ok R file [] st" "lg_running st" "lg_worker st" "ring_capacity (lg_queue st) = unat c"
    "ring_contents (lg_queue st) = []"
    by (auto simp: log_start_def log_ok_def split: if_splits intro: exI [of _ "[]"])
qed

lemma log_run_ord:
  assumes "log_ok (=) old ls st"
    "length (ring_contents (lg_queue st)) + length (event_lines evs) \<le> ring_capacity (lg_queue st)"
  shows "\<exists>st'. log_run evs st = Some st' \<and> log_ok (=) old (ls @ event_lines evs) st' \<and> log_frame st st'"
  using assms
proof (induction evs arbitrary: st ls rule: event_lines.induct)
  case 1
  then show ?case by (simp add: log_frame_def)
next
  case (2 ts sched level message evs)
  let ?l = "format_line ts level message" and ?q = "lg_queue st"
  have room: "ring_size ?q < length (slots ?q)" using 2(3) by (simp add: ring_capacity_def)
  note p = log_ok_push [OF 2(2) room, of ?l]
  have "log_attempts 16 sched ?l st = Some (st\<lparr>lg_queue := pushed ?l ?q\<rparr>)"
    using p(1) by (simp add: numeral_eq_Suc)
  then have ll: "log_line ts sched level message st = Some (st\<lparr>lg_queue := pushed ?l ?q\<rparr>)"
    by (simp only: log_line_def)
  have "ring_inv ?q" using 2(2) by (simp add: log_ok_def)
  then have "ring_size (pushed ?l ?q) + length (event_lines evs) \<le> ring_capacity (pushed ?l ?q)"
    using 2(3) room pushed_size [of ?q ?l] by (simp add: ring_capacity_def) (simp add: pushed_def)
  then obtain st' where "log_run evs (st\<lparr>lg_queue := pushed ?l ?q\<rparr>) = Some st'"
    "log_ok (=) old ((ls @ [?l]) @ event_lines evs) st'" "log_frame (st\<lparr>lg_queue := pushed ?l ?q\<rparr>) st'"
    using 2(1) [OF p(2)] by auto
  with ll p(3) show ?case by (auto simp: log_frame_def)
next
  case (3 evs)
  obtain st1 where st1: "worker_pass st = Some st1" "log_ok (=) old ls st1" "log_frame st st1"
    "ring_contents (lg_queue st1) = []"
    using worker_pass_ok(1) [OF 3(2)] by blast
  then have "length (ring_contents (lg_queue st1)) + length (event_lines evs) \<le> ring_capacity (lg_queue st1)"
    using 3(3) by (simp add: log_frame_def del: ring_contents_length)
  from 3(1) [OF st1(2) this] st1 show ?case by (auto simp: log_frame_def)
qed

section \<open>Properties\<close>

text \<open>One operation of the log ring from any state of its invariant, wherever its 64-bit
  counters stand: \<^verbatim>\<open>push\<close> ends, succeeds exactly when there is room and then appends
  the line; \<^verbatim>\<open>pop\<close> ends, succeeds exactly when a line is queued and returns the oldest;
  neither loops, and both keep the invariant.\<close>

theorem LogQueue_push_pop:
  assumes "ring_inv q"
  shows "(\<exists>q'. push (Some x) q = Some (length (ring_contents q) < ring_capacity q, q') \<and> ring_inv q' \<and>
      ring_contents q' = (if length (ring_contents q) < ring_capacity q then ring_contents q @ [x]
                          else ring_contents q)) \<and>
    (\<exists>q'. pop e q = Some (ring_contents q \<noteq> [],
        if ring_contents q = [] then e else Some (hd (ring_contents q)), q') \<and> ring_inv q' \<and>
      ring_contents q' = tl (ring_contents q))"
proof (rule conjI)
  have "ring_size q \<le> length (slots q)" using assms by (simp add: ring_inv_def)
  then show "\<exists>q'. push (Some x) q = Some (length (ring_contents q) < ring_capacity q, q') \<and> ring_inv q' \<and>
      ring_contents q' = (if length (ring_contents q) < ring_capacity q then ring_contents q @ [x]
                          else ring_contents q)"
    using assms push_full [OF assms] push_room [OF assms] pushed_inv [OF assms]
    by (cases "ring_size q < length (slots q)") (auto simp: ring_capacity_def)
  show "\<exists>q'. pop e q = Some (ring_contents q \<noteq> [],
        if ring_contents q = [] then e else Some (hd (ring_contents q)), q') \<and> ring_inv q' \<and>
      ring_contents q' = tl (ring_contents q)"
    using assms by (cases rule: pop_cases) (use assms in auto)
qed

text \<open>A ring of two slots whose counters are about to wrap.\<close>

definition wrap_ring :: LogQueue where
  "wrap_ring = \<lparr>slots = [\<lparr>sequence = -2, payload = None\<rparr>, \<lparr>sequence = -1, payload = None\<rparr>],
     q_mask = 1, q_head = -2, q_tail = -2\<rparr>"

lemma wrap_ring_inv: "ring_inv wrap_ring" "ring_contents wrap_ring = []" "ring_capacity wrap_ring = 2"
proof -
  have "ring_idx wrap_ring 0 = 0" "ring_idx wrap_ring 1 = 1"
    by (simp_all add: ring_idx_def wrap_ring_def numeral_2_eq_2 [symmetric])
  then have "sequence (slots wrap_ring ! ring_idx wrap_ring i) = q_head wrap_ring + of_nat i \<and>
      payload (slots wrap_ring ! ring_idx wrap_ring i) = None" if "i < 2" for i
    using less_2_cases [OF that] by (elim disjE) (simp_all add: wrap_ring_def)
  then show "ring_inv wrap_ring"
    by (auto simp: ring_inv_def ring_size_def) (auto simp: wrap_ring_def intro!: exI [of _ 1])
  show "ring_contents wrap_ring = []" "ring_capacity wrap_ring = 2"
    by (simp_all add: wrap_ring_def ring_contents_def ring_size_def ring_capacity_def)
qed

theorem LogQueue_push_pop_witness:
  "\<exists>q'. push (Some ''a'') wrap_ring = Some (True, q') \<and> ring_contents q' = [''a'']"
  using LogQueue_push_pop [OF wrap_ring_inv(1), of "''a''"] wrap_ring_inv by auto

text \<open>C14. The ring refines a bounded first-in first-out list: after any sequence of pushes
  and pops it holds what the list of that capacity holds.\<close>

theorem LogQueue_refines_list:
  assumes "LogQueue_make c = return q" "1 < c" "c \<le> 2 ^ 62"
  shows "ring_contents (queue_op_run ring_enq ring_deq ops q) = fold (list_op (unat c)) ops []"
  using lq.queue_op_run_list [OF LogQueue_make_inv(1) [OF assms], of ops] LogQueue_make_inv [OF assms]
  by simp

theorem LogQueue_refines_list_witness:
  "\<exists>q. LogQueue_make 2 = return q \<and>
    ring_contents (queue_op_run ring_enq ring_deq
      [Enq ''a'', Enq ''b'', Enq ''c'', Deq, Enq ''d''] q) = [''b'', ''d'']"
proof -
  obtain q where "LogQueue_make 2 = return q" by (simp add: LogQueue_make_def)
  with LogQueue_refines_list [OF this, of "[Enq ''a'', Enq ''b'', Enq ''c'', Deq, Enq ''d'']"]
  show ?thesis by simp
qed

text \<open>The constructor of the ring accepts exactly the powers of two and throws
  \<^verbatim>\<open>std::invalid_argument\<close> on every other capacity.\<close>

theorem LogQueue_make_powers:
  "LogQueue_make c = throw Invalid_argument \<longleftrightarrow> \<not> (\<exists>k < 64. c = 2 ^ k)"
  using and_pred_word [of c] by (auto simp: LogQueue_make_def)

text \<open>A capacity of one passes the check but does not work: the second push succeeds
  over the first line, and then \<^verbatim>\<open>pop\<close> never returns.\<close>

theorem LogQueue_capacity_one:
  "\<exists>q q1 q2. LogQueue_make 1 = return q \<and> push (Some a) q = Some (True, q1) \<and>
    push (Some b) q1 = Some (True, q2) \<and> pop e q2 = None"
  by (simp add: LogQueue_make_def push_def pop_def slot_index_def)


definition sample_logger :: Logger where
  "sample_logger = \<lparr>lg_file_path = ''f'', lg_running = False, lg_worker = False,
     lg_queue = \<lparr>slots = map (\<lambda>i. \<lparr>sequence = of_nat i, payload = None\<rparr>) [0..<2],
       q_mask = 1, q_head = 0, q_tail = 0\<rparr>, sink_open = False, sink_buf = [], sink_file = ''old''\<rparr>"

lemma sample_logger_make: "AsyncLogger_make ''f'' 2 ''old'' = return sample_logger"
  by (simp add: AsyncLogger_make_def LogQueue_make_def sample_logger_def)

lemma sample_logger_start: "\<exists>st. log_start (\<lambda>p. True) sample_logger = return st"
  by (simp add: log_start_def sample_logger_def)


text \<open>As long as no more lines are logged than the ring holds, the file ends with the
  lines in the order of the calls.\<close>

theorem logger_in_order:
  assumes "AsyncLogger_make fp c file = return lg" "1 < c" "c \<le> 2 ^ 62"
    and "log_start can_open lg = return st" "length (event_lines evs) \<le> unat c"
  shows "\<exists>st1 st2. log_run evs st = Some st1 \<and> log_stop st1 = Some st2 \<and>
    sink_file st2 = file @ concat (event_lines evs)"
proof -
  have s: "log_ok (=) file [] st" "lg_running st" "lg_worker st" "ring_capacity (lg_queue st) = unat c"
    "ring_contents (lg_queue st) = []"
    using logger_started [OF assms(1-4), of "(=)"] by simp_all
  obtain st1 where "log_run evs st = Some st1" "log_ok (=) file (event_lines evs) st1" "log_frame st st1"
    using log_run_ord [OF s(1), of evs] s assms(5) by (auto simp del: ring_contents_length)
  with s log_stop_ok [of "(=)" "file" "event_lines evs" st1] show ?thesis
    by (auto simp: log_frame_def)
qed

theorem logger_in_order_witness:
  "\<exists>st st1 st2. log_start (\<lambda>p. True) sample_logger = return st \<and>
    log_run [Log ''t'' (\<lambda>i. 0) L_info ''m'', Pass, Log ''u'' (\<lambda>i. 0) L_warn ''n''] st = Some st1 \<and>
    log_stop st1 = Some st2 \<and>
    sink_file st2 = ''old'' @ format_line ''t'' L_info ''m'' @ format_line ''u'' L_warn ''n''"
proof -
  obtain st where st: "log_start (\<lambda>p. True) sample_logger = return st" using sample_logger_start by blast
  with logger_in_order [OF sample_logger_make _ _ st,
      of "[Log ''t'' (\<lambda>i. 0) L_info ''m'', Pass, Log ''u'' (\<lambda>i. 0) L_warn ''n'']"]
  show ?thesis by simp
qed

end
