(* ===== verification/HttpServer.thy ===== *)
theory HttpServer
  imports HttpConnection AsyncLogger
begin

text \<open>
  The life of the server of \<^verbatim>\<open>coroutineWebServer/HttpServer.cpp\<close>: the listening socket,
  construction, \<^verbatim>\<open>accept_loop\<close>, \<^verbatim>\<open>start\<close>, \<^verbatim>\<open>stop\<close> and \<^verbatim>\<open>wait\<close>, and the
  command line of \<^verbatim>\<open>CoroutineMain.cpp\<close>. The threads of the schedulers interleave with
  the calls as a sequence of events.
\<close>

section \<open>The listening socket\<close>

text \<open>What the system calls return, and the text of \<^verbatim>\<open>strerror\<close>.\<close>

record sock_env =
  so_socket :: fd
  so_bind :: int
  so_listen :: int
  so_strerror :: string

text \<open>The result and the descriptors closed.\<close>

definition create_listen_socket :: "sock_env \<Rightarrow> UniqueFd result \<times> fd list" where
  "create_listen_socket so =
     (if so_socket so < 0 then (throw (Runtime_error (''socket failed: '' @ so_strerror so)), [])
      else if so_bind so < 0 then (throw (Runtime_error (''bind failed: '' @ so_strerror so)), [so_socket so])
      else if so_listen so < 0 then (throw (Runtime_error (''listen failed: '' @ so_strerror so)), [so_socket so])
      else (return (UniqueFd_make (so_socket so) False), []))"

section \<open>Construction\<close>

record Config =
  cfg_port :: "16 word"
  cfg_worker_count :: nat
  cfg_ring_entries :: nat
  cfg_docroot :: path
  cfg_request_timeout :: int

definition Config_default :: Config where
  "Config_default = \<lparr>cfg_port = 8080, cfg_worker_count = 4, cfg_ring_entries = 1024, cfg_docroot = [],
     cfg_request_timeout = 30000000000\<rparr>"

text \<open>
  The constructor. An exception after the socket exists destroys the member, which closes it.
\<close>

definition HttpServer_make ::
  "sock_env \<Rightarrow> filesystem \<Rightarrow> Config \<Rightarrow> (Config \<times> UniqueFd) result \<times> fd list" where
  "HttpServer_make so fs cfg =
     (case create_listen_socket so of
        (Inl e, closes) \<Rightarrow> (throw e, closes)
      | (Inr listen_fd, closes) \<Rightarrow>
          (case detect_docroot fs (cfg_docroot cfg) of
             Inl e \<Rightarrow> (throw e, UniqueFd_dtor listen_fd closes)
           | Inr d \<Rightarrow>
               (let cfg1 = cfg\<lparr>cfg_docroot := d\<rparr>;
                    cfg2 = (if cfg_worker_count cfg1 = 0 then cfg1\<lparr>cfg_worker_count := 1\<rparr> else cfg1)
                in (return (cfg2, listen_fd), closes))))"

section \<open>Accepting\<close>

text \<open>
  The outcomes of \<^verbatim>\<open>async_accept\<close>, each with the value of \<^verbatim>\<open>running_\<close> read before it;
  after an error the flag is read again.
\<close>

datatype accept_event = Accepted fd | Accept_error errno bool

fun accept_loop :: "nat \<Rightarrow> (bool \<times> accept_event) list \<Rightarrow> 64 word \<Rightarrow> (nat \<times> fd) list \<times> 64 word" where
  "accept_loop workers [] nxt = ([], nxt)"
| "accept_loop workers ((run, ev) # evs) nxt =
     (if \<not> run then ([], nxt)
      else
        (case ev of
           Accepted client_fd \<Rightarrow>
             if client_fd < 0 then accept_loop workers evs nxt
             else
               (let index = unat nxt mod workers;
                    (posts, nxt') = accept_loop workers evs (nxt + 1)
                in ((index, client_fd) # posts, nxt'))
         | Accept_error e still_running \<Rightarrow>
             if \<not> still_running then ([], nxt) else accept_loop workers evs nxt))"

section \<open>Start, stop and wait\<close>

datatype thread_state = Created | Looping | Finished

text \<open>
  \<open>srv_acc_flag\<close> and \<open>srv_flags\<close> are the \<^verbatim>\<open>running_\<close> flags of the acceptor's and the
  workers' schedulers; \<open>srv_acc_thread\<close> and \<open>srv_threads\<close> the threads that can be joined,
  those of the workers with the worker they run. \<open>srv_terminated\<close> records the
  \<^verbatim>\<open>std::terminate\<close> of an assignment over a joinable thread.
\<close>

record srv =
  srv_worker_count :: nat
  srv_running :: bool
  srv_acc_flag :: "bool option"
  srv_acc_thread :: "thread_state option"
  srv_flags :: "bool list"
  srv_threads :: "(nat \<times> thread_state) list"
  srv_terminated :: bool

definition srv_init :: "nat \<Rightarrow> srv" where
  "srv_init n = \<lparr>srv_worker_count = n, srv_running = False, srv_acc_flag = None, srv_acc_thread = None,
     srv_flags = [], srv_threads = [], srv_terminated = False\<rparr>"

definition srv_start :: "srv \<Rightarrow> srv" where
  "srv_start s =
     (if srv_running s then s
      else
        let flags = srv_flags s @ replicate (srv_worker_count s) False
        in s\<lparr>srv_running := True, srv_acc_flag := Some False, srv_flags := flags,
             srv_threads := srv_threads s @ map (\<lambda>i. (i, Created)) [0..<length flags],
             srv_terminated := (srv_terminated s \<or> srv_acc_thread s \<noteq> None),
             srv_acc_thread := Some Created\<rparr>)"

definition srv_stop :: "srv \<Rightarrow> srv" where
  "srv_stop s =
     (if \<not> srv_running s then s
      else s\<lparr>srv_running := False, srv_acc_flag := map_option (\<lambda>b. False) (srv_acc_flag s),
             srv_flags := map (\<lambda>b. False) (srv_flags s)\<rparr>)"

text \<open>\<^verbatim>\<open>wait\<close> returns when every thread it joins has finished.\<close>

definition srv_wait :: "srv \<Rightarrow> srv option" where
  "srv_wait s =
     (if srv_acc_thread s \<in> {None, Some Finished} \<and> list_all (\<lambda>(i, t). t = Finished) (srv_threads s)
      then Some (s\<lparr>srv_acc_thread := None, srv_threads := []\<rparr>) else None)"

text \<open>A thread enters \<^verbatim>\<open>UringScheduler::run\<close>, which sets its flag, and later reads the flag
  at the head of the loop.\<close>

definition thread_begin :: "nat \<Rightarrow> srv \<Rightarrow> srv" where
  "thread_begin k s =
     (if k < length (srv_threads s) \<and> snd (srv_threads s ! k) = Created
      then s\<lparr>srv_threads := (srv_threads s)[k := (fst (srv_threads s ! k), Looping)],
             srv_flags := (srv_flags s)[fst (srv_threads s ! k) := True]\<rparr>
      else s)"

definition thread_check :: "nat \<Rightarrow> srv \<Rightarrow> srv" where
  "thread_check k s =
     (if k < length (srv_threads s) \<and> snd (srv_threads s ! k) = Looping \<and>
         \<not> srv_flags s ! fst (srv_threads s ! k)
      then s\<lparr>srv_threads := (srv_threads s)[k := (fst (srv_threads s ! k), Finished)]\<rparr>
      else s)"

definition acceptor_begin :: "srv \<Rightarrow> srv" where
  "acceptor_begin s =
     (if srv_acc_thread s = Some Created
      then s\<lparr>srv_acc_thread := Some Looping, srv_acc_flag := Some True\<rparr> else s)"

definition acceptor_check :: "srv \<Rightarrow> srv" where
  "acceptor_check s =
     (if srv_acc_thread s = Some Looping \<and> srv_acc_flag s = Some False
      then s\<lparr>srv_acc_thread := Some Finished\<rparr> else s)"

text \<open>The events of the server.\<close>

datatype srv_event = Ev_start | Ev_stop | Ev_begin nat | Ev_check nat | Ev_begin_acc | Ev_check_acc

fun srv_step :: "srv_event \<Rightarrow> srv \<Rightarrow> srv" where
  "srv_step Ev_start s = srv_start s"
| "srv_step Ev_stop s = srv_stop s"
| "srv_step (Ev_begin k) s = thread_begin k s"
| "srv_step (Ev_check k) s = thread_check k s"
| "srv_step Ev_begin_acc s = acceptor_begin s"
| "srv_step Ev_check_acc s = acceptor_check s"

text \<open>The destructor, with the events of the threads between its two calls; \<open>None\<close> while it waits.\<close>

definition HttpServer_dtor :: "srv_event list \<Rightarrow> srv \<Rightarrow> srv option" where
  "HttpServer_dtor evs s = srv_wait (fold srv_step evs (srv_stop s))"

section \<open>The command line\<close>

record main_args =
  ma_port :: "16 word"
  ma_threads :: nat
  ma_log_path :: string
  ma_docroot :: path

definition main_args_default :: "nat \<Rightarrow> main_args" where
  "main_args_default hardware_concurrency =
     \<lparr>ma_port = 8080, ma_threads = max 4 hardware_concurrency,
      ma_log_path = ''/tmp/coroutine-webserver.log'', ma_docroot = []\<rparr>"

text \<open>The loop over the arguments; \<open>None\<close> when it prints the usage.\<close>

fun parse_args :: "string list \<Rightarrow> main_args \<Rightarrow> main_args option result" where
  "parse_args [] c = return (Some c)"
| "parse_args [arg] c = (if arg = ''--help'' \<or> arg = ''-h'' then return None else return (Some c))"
| "parse_args (arg # v # rest) c =
     (if arg = ''-p'' then
        (case stoi v of Inl e \<Rightarrow> throw e | Inr n \<Rightarrow> parse_args rest (c\<lparr>ma_port := of_int n\<rparr>))
      else if arg = ''-t'' then
        (case stoul v of Inl e \<Rightarrow> throw e | Inr n \<Rightarrow> parse_args rest (c\<lparr>ma_threads := n\<rparr>))
      else if arg = ''-l'' then parse_args rest (c\<lparr>ma_log_path := v\<rparr>)
      else if arg = ''-d'' then parse_args rest (c\<lparr>ma_docroot := v\<rparr>)
      else if arg = ''--help'' \<or> arg = ''-h'' then return None
      else parse_args (v # rest) c)"

section \<open>Round robin\<close>

text \<open>The clients the loop accepts, up to where it ends.\<close>

fun accepted :: "(bool \<times> accept_event) list \<Rightarrow> fd list" where
  "accepted [] = []"
| "accepted ((run, ev) # evs) =
     (if \<not> run then []
      else (case ev of
              Accepted f \<Rightarrow> if f < 0 then accepted evs else f # accepted evs
            | Accept_error e still \<Rightarrow> if \<not> still then [] else accepted evs))"

lemma accept_loop_posts:
  assumes "unat nxt + length (accepted evs) < 2 ^ 64"
  shows "fst (accept_loop n evs nxt) =
    zip (map (\<lambda>k. (unat nxt + k) mod n) [0..<length (accepted evs)]) (accepted evs)"
  using assms
proof (induction n evs nxt rule: accept_loop.induct)
  case (1 n nxt)
  then show ?case by simp
next
  case (2 n run ev evs nxt)
  show ?case
  proof (cases "run \<and> (\<exists>f. ev = Accepted f \<and> 0 \<le> f)")
    case True
    then obtain f where f: "run" "ev = Accepted f" "0 \<le> f" by blast
    let ?a = "accepted evs"
    have "unat nxt + 1 < 2 ^ 64" using "2.prems" f by simp
    then have nx: "unat (nxt + 1) = Suc (unat nxt)" by (simp add: unat_word_ariths)
    have "fst (accept_loop n evs (nxt + 1)) = zip (map (\<lambda>k. (unat (nxt + 1) + k) mod n) [0..<length ?a]) ?a"
      using "2.IH"(2) [of f] "2.prems" f nx by simp
    moreover have "[0..<Suc (length ?a)] = 0 # map Suc [0..<length ?a]"
      by (metis map_Suc_upt upt_conv_Cons zero_less_Suc)
    ultimately show ?thesis using f nx by (simp add: split_beta comp_def del: upt_Suc)
  next
    case False
    show ?thesis
    proof (cases ev)
      case (Accepted f)
      with False "2.IH"(1) [of f] "2.prems" show ?thesis by (cases run) simp_all
    next
      case (Accept_error e still)
      with "2.IH"(3) [of e still] "2.prems" show ?thesis by (cases run; cases still) simp_all
    qed
  qed
qed

lemma count_list_distinct: "distinct xs \<Longrightarrow> count_list xs x = (if x \<in> set xs then 1 else 0)"
  by (induction xs) auto

lemma round_count:
  assumes "0 < n" "i < n"
  shows "count_list (map (\<lambda>k. (a + k) mod n) [0..<n]) i = 1"
proof -
  let ?xs = "map (\<lambda>k. (a + k) mod n) [0..<n]"
  have d: "distinct ?xs" by (auto simp: distinct_map inj_on_def dest: add_mod_inj)
  have "set ?xs \<subseteq> {..<n}" using assms(1) by auto
  moreover have "card (set ?xs) = n" using distinct_card [OF d] by simp
  ultimately have "set ?xs = {..<n}" by (metis card_lessThan card_subset_eq finite_lessThan)
  with count_list_distinct [OF d, of i] assms(2) show ?thesis by simp
qed

lemma round_robin_count:
  assumes "i < n"
  shows "count_list (map (\<lambda>k. (a + k) mod n) [0..<m]) i \<in> {m div n, m div n + 1}"
  using assms
proof (induction m rule: less_induct)
  case (less m)
  show ?case
  proof (cases "m < n")
    case True
    have "distinct (map (\<lambda>k. (a + k) mod n) [0..<m])"
      using True by (auto simp: distinct_map inj_on_def dest!: add_mod_inj)
    from count_list_distinct [OF this, of i] True show ?thesis by simp
  next
    case False
    then have m: "m = n + (m - n)" "m - n < m" using assms by simp_all
    have "[0..<m] = [0..<n] @ map (\<lambda>k. n + k) [0..<m - n]"
      using upt_add_eq_append [of 0 n "m - n"] map_add_upt [of n "m - n"] m(1)
      by (simp add: add.commute)
    moreover have "(a + (n + k)) mod n = (a + k) mod n" for k
      using mod_add_self1 [of n "a + k"] by (simp only: add.left_commute)
    ultimately have "count_list (map (\<lambda>k. (a + k) mod n) [0..<m]) i =
        1 + count_list (map (\<lambda>k. (a + k) mod n) [0..<m - n]) i"
      using round_count [of n i a] assms by (simp add: comp_def)
    moreover have "m div n = 1 + (m - n) div n"
      using False assms by (simp add: le_div_geq)
    ultimately show ?thesis using less.IH [OF m(2) assms] by auto
  qed
qed

section \<open>Shutdown\<close>

text \<open>A worker thread that runs although the server has been stopped.\<close>

definition stray :: "nat \<Rightarrow> srv \<Rightarrow> bool" where
  "stray k s = (\<not> srv_running s \<and> k < length (srv_threads s) \<and> snd (srv_threads s ! k) = Looping \<and>
     fst (srv_threads s ! k) < length (srv_flags s) \<and> srv_flags s ! fst (srv_threads s ! k))"

lemma nth_update_True: "xs ! j \<Longrightarrow> xs[i := True] ! j"
  by (cases "i < length xs") (auto simp: nth_list_update list_update_beyond)

lemma stray_step: "stray k s \<Longrightarrow> e \<noteq> Ev_start \<Longrightarrow> stray k (srv_step e s)"
  by (cases e)
    (auto simp: stray_def srv_stop_def thread_begin_def thread_check_def acceptor_begin_def acceptor_check_def
      nth_list_update nth_update_True)

lemma stray_steps: "stray k s \<Longrightarrow> Ev_start \<notin> set es \<Longrightarrow> stray k (fold srv_step es s)"
proof (induction es arbitrary: s)
  case Nil
  then show ?case by simp
next
  case (Cons e es)
  with stray_step [of k s e] show ?case by force
qed

lemma stray_waits:
  assumes "stray k s"
  shows "srv_wait s = None"
proof -
  have "srv_threads s ! k \<in> set (srv_threads s)" "snd (srv_threads s ! k) \<noteq> Finished"
    using assms by (simp_all add: stray_def)
  then have "\<not> list_all (\<lambda>(i, t). t = Finished) (srv_threads s)"
    by (auto simp: list_all_iff split_beta)
  then show ?thesis by (simp add: srv_wait_def)
qed

text \<open>A stopped server all of whose threads have begun.\<close>

definition stopping :: "srv \<Rightarrow> bool" where
  "stopping s = (\<not> srv_running s \<and> srv_acc_flag s = Some False \<and>
     srv_acc_thread s \<in> {Some Looping, Some Finished} \<and> list_all (\<lambda>b. \<not> b) (srv_flags s) \<and>
     list_all (\<lambda>(i, t). i < length (srv_flags s) \<and> t \<noteq> Created) (srv_threads s))"

lemma stopping_thread:
  assumes "stopping s" "k < length (srv_threads s)"
  shows "fst (srv_threads s ! k) < length (srv_flags s)" "snd (srv_threads s ! k) \<noteq> Created"
    "\<not> srv_flags s ! fst (srv_threads s ! k)"
proof -
  show "fst (srv_threads s ! k) < length (srv_flags s)" "snd (srv_threads s ! k) \<noteq> Created"
    using assms by (auto simp: stopping_def list_all_length split_beta)
  with assms show "\<not> srv_flags s ! fst (srv_threads s ! k)"
    by (auto simp: stopping_def list_all_length)
qed

lemma stopping_step:
  assumes "stopping s" "e \<noteq> Ev_start"
  shows "stopping (srv_step e s)" "length (srv_threads (srv_step e s)) = length (srv_threads s)"
    "k < length (srv_threads s) \<Longrightarrow> snd (srv_threads s ! k) = Finished \<or> e = Ev_check k \<Longrightarrow>
      snd (srv_threads (srv_step e s) ! k) = Finished"
    "srv_acc_thread s = Some Finished \<or> e = Ev_check_acc \<Longrightarrow> srv_acc_thread (srv_step e s) = Some Finished"
proof -
  note t = stopping_thread [OF assms(1)]
  show "length (srv_threads (srv_step e s)) = length (srv_threads s)"
    using assms(2) by (cases e)
      (simp_all add: srv_stop_def thread_begin_def thread_check_def acceptor_begin_def acceptor_check_def)
  show "stopping (srv_step e s)"
    using assms t
    by (cases e)
      (auto simp: stopping_def srv_stop_def thread_begin_def thread_check_def acceptor_begin_def
        acceptor_check_def list_all_length nth_list_update split_beta)
  show "snd (srv_threads (srv_step e s) ! k) = Finished"
    if "k < length (srv_threads s)" "snd (srv_threads s ! k) = Finished \<or> e = Ev_check k"
    using that assms t [OF that(1)]
    by (cases e; cases "snd (srv_threads s ! k)")
      (auto simp: stopping_def srv_stop_def thread_begin_def thread_check_def acceptor_begin_def
        acceptor_check_def nth_list_update)
  show "srv_acc_thread (srv_step e s) = Some Finished"
    if "srv_acc_thread s = Some Finished \<or> e = Ev_check_acc"
    using that assms
    by (cases e) (auto simp: stopping_def srv_stop_def thread_begin_def thread_check_def acceptor_begin_def
        acceptor_check_def)
qed

lemma stopping_steps:
  assumes "stopping s" "Ev_start \<notin> set es"
  shows "stopping (fold srv_step es s)" "length (srv_threads (fold srv_step es s)) = length (srv_threads s)"
    "k < length (srv_threads s) \<Longrightarrow> snd (srv_threads s ! k) = Finished \<or> Ev_check k \<in> set es \<Longrightarrow>
      snd (srv_threads (fold srv_step es s) ! k) = Finished"
    "srv_acc_thread s = Some Finished \<or> Ev_check_acc \<in> set es \<Longrightarrow>
      srv_acc_thread (fold srv_step es s) = Some Finished"
proof -
  have "stopping (fold srv_step es s) \<and> length (srv_threads (fold srv_step es s)) = length (srv_threads s) \<and>
    (k < length (srv_threads s) \<longrightarrow> snd (srv_threads s ! k) = Finished \<or> Ev_check k \<in> set es \<longrightarrow>
      snd (srv_threads (fold srv_step es s) ! k) = Finished) \<and>
    (srv_acc_thread s = Some Finished \<or> Ev_check_acc \<in> set es \<longrightarrow>
      srv_acc_thread (fold srv_step es s) = Some Finished)"
    using assms
  proof (induction es arbitrary: s)
    case Nil
    then show ?case by simp
  next
    case (Cons e es)
    then have "stopping s" "e \<noteq> Ev_start" by auto
    note st = stopping_step [OF this]
    with Cons st(3) [of k] st(4) show ?case by auto
  qed
  then show "stopping (fold srv_step es s)" "length (srv_threads (fold srv_step es s)) = length (srv_threads s)"
    "k < length (srv_threads s) \<Longrightarrow> snd (srv_threads s ! k) = Finished \<or> Ev_check k \<in> set es \<Longrightarrow>
      snd (srv_threads (fold srv_step es s) ! k) = Finished"
    "srv_acc_thread s = Some Finished \<or> Ev_check_acc \<in> set es \<Longrightarrow>
      srv_acc_thread (fold srv_step es s) = Some Finished"
    by blast+
qed

lemma shutdown_waits:
  assumes "srv_running s" "srv_acc_flag s \<noteq> None" "srv_acc_thread s = Some Looping"
    and "list_all (\<lambda>(i, t). i < length (srv_flags s) \<and> t = Looping) (srv_threads s)"
    and "Ev_start \<notin> set es" "Ev_check_acc \<in> set es" "list_all (\<lambda>k. Ev_check k \<in> set es) [0..<length (srv_threads s)]"
  shows "srv_wait (fold srv_step es (srv_stop s)) \<noteq> None"
proof -
  have st: "stopping (srv_stop s)" "length (srv_threads (srv_stop s)) = length (srv_threads s)"
    using assms(1-4) by (auto simp: stopping_def srv_stop_def list_all_iff)
  let ?f = "fold srv_step es (srv_stop s)"
  have "snd (srv_threads ?f ! k) = Finished" if "k < length (srv_threads s)" for k
    using stopping_steps(3) [OF st(1) assms(5), of k] that st(2) assms(7) by (simp add: list_all_iff)
  moreover have "length (srv_threads ?f) = length (srv_threads s)"
    using stopping_steps(2) [OF st(1) assms(5)] st(2) by simp
  ultimately have "list_all (\<lambda>(i, t). t = Finished) (srv_threads ?f)"
    by (simp add: list_all_length split_beta)
  moreover have "srv_acc_thread ?f = Some Finished"
    using stopping_steps(4) [OF st(1) assms(5)] assms(6) by simp
  ultimately show ?thesis by (simp add: srv_wait_def)
qed

section \<open>Properties\<close>

text \<open>C29. The acceptor loses no client and spreads them evenly: every accepted descriptor is
  posted once, in order; the workers are taken in turn, so that of \<open>m\<close> clients every
  worker gets \<open>m div n\<close> or one more.\<close>

theorem accept_loop_balanced:
  assumes "unat nxt + length (accepted evs) < 2 ^ 64" "0 < workers"
  shows "map snd (fst (accept_loop workers evs nxt)) = accepted evs \<and>
    list_all (\<lambda>p. fst p < workers) (fst (accept_loop workers evs nxt)) \<and>
    (\<forall>i. i < workers \<longrightarrow> count_list (map fst (fst (accept_loop workers evs nxt))) i
      \<in> {length (accepted evs) div workers, length (accepted evs) div workers + 1})"
proof -
  let ?ks = "map (\<lambda>k. (unat nxt + k) mod workers) [0..<length (accepted evs)]"
  have z: "fst (accept_loop workers evs nxt) = zip ?ks (accepted evs)"
    using accept_loop_posts [OF assms(1)] .
  have "list_all (\<lambda>p. fst p < workers) (zip ?ks (accepted evs))"
    using assms(2) by (auto simp: list_all_iff dest!: set_zip_leftD)
  then show ?thesis using round_robin_count [of _ workers "unat nxt" "length (accepted evs)"]
    by (simp add: z)
qed

theorem accept_loop_balanced_witness:
  "map snd (fst (accept_loop 2 [(True, Accepted 5), (True, Accept_error 103 True), (True, Accepted 6),
      (False, Accepted 7)] 1)) = [5, 6]"
  using accept_loop_balanced [of 1 "[(True, Accepted 5), (True, Accept_error 103 True), (True, Accepted 6),
      (False, Accepted 7)]" 2] by simp

text \<open>A shutdown completes when every thread had begun: after \<^verbatim>\<open>stop\<close>, as soon as each
  thread has read its flag once, in any order and among any other events, \<^verbatim>\<open>wait\<close>
  returns.\<close>

theorem shutdown_completes:
  assumes "srv_running s" "srv_acc_flag s \<noteq> None" "srv_acc_thread s = Some Looping"
    and "list_all (\<lambda>(i, t). i < length (srv_flags s) \<and> t = Looping) (srv_threads s)"
    and "Ev_start \<notin> set es" "Ev_check_acc \<in> set es" "list_all (\<lambda>k. Ev_check k \<in> set es) [0..<length (srv_threads s)]"
  shows "srv_wait (fold srv_step es (srv_stop s)) \<noteq> None"
  by (rule shutdown_waits [OF assms])

theorem shutdown_completes_witness:
  "srv_wait (fold srv_step [Ev_check 1, Ev_check_acc, Ev_check 0]
     (srv_stop (fold srv_step [Ev_start, Ev_begin_acc, Ev_begin 1, Ev_begin 0] (srv_init 2)))) \<noteq> None"
proof -
  let ?s = "fold srv_step [Ev_start, Ev_begin_acc, Ev_begin 1, Ev_begin 0] (srv_init 2)"
  have "?s = \<lparr>srv_worker_count = 2, srv_running = True, srv_acc_flag = Some True,
      srv_acc_thread = Some Looping, srv_flags = [True, True],
      srv_threads = [(0, Looping), (1, Looping)], srv_terminated = False\<rparr>"
    by code_simp
  then show ?thesis
    using shutdown_completes [of ?s "[Ev_check 1, Ev_check_acc, Ev_check 0]"]
    by (simp add: numeral_2_eq_2)
qed

text \<open>A shutdown can hang: a worker thread that enters \<^verbatim>\<open>run\<close> only after \<^verbatim>\<open>stop\<close> sets
  its flag again, \<^verbatim>\<open>stop\<close> is not effective a second time, and \<^verbatim>\<open>wait\<close> never returns,
  whatever happens next short of a new \<^verbatim>\<open>start\<close>.\<close>

theorem shutdown_hangs:
  assumes "0 < n" "Ev_start \<notin> set es"
  shows "srv_wait (fold srv_step ([Ev_start, Ev_stop, Ev_begin 0] @ es) (srv_init n)) = None"
proof -
  have "stray 0 (fold srv_step [Ev_start, Ev_stop, Ev_begin 0] (srv_init n))"
    using assms(1)
    by (simp add: srv_init_def srv_start_def srv_stop_def thread_begin_def stray_def)
  from stray_waits [OF stray_steps [OF this assms(2)]] show ?thesis by simp
qed

theorem shutdown_hangs_witness:
  "srv_wait (fold srv_step ([Ev_start, Ev_stop, Ev_begin 0] @ [Ev_stop, Ev_check 0, Ev_begin_acc, Ev_check_acc])
     (srv_init 4)) = None"
  using shutdown_hangs [of 4 "[Ev_stop, Ev_check 0, Ev_begin_acc, Ev_check_acc]"] by simp

text \<open>A server whose construction throws after the socket was made closes it, and one
  whose construction succeeds keeps it open, has at least one worker and a document root.\<close>

theorem HttpServer_make_socket:
  assumes "0 \<le> so_socket so"
  shows "case HttpServer_make so fs cfg of
      (Inl e, closes) \<Rightarrow> closes = [so_socket so]
    | (Inr (cfg', u), closes) \<Rightarrow> closes = [] \<and> ufd_fd u = so_socket so \<and> 0 < cfg_worker_count cfg' \<and>
        detect_docroot fs (cfg_docroot cfg) = return (cfg_docroot cfg')"
  using assms
  by (auto simp: HttpServer_make_def create_listen_socket_def ufd_defs Let_def split: sum.split)

theorem HttpServer_make_socket_witness:
  "snd (HttpServer_make \<lparr>so_socket = 3, so_bind = 0, so_listen = -1, so_strerror = ''x''\<rparr> sample_fs Config_default) = [3]"
proof -
  let ?so = "\<lparr>so_socket = 3, so_bind = 0, so_listen = -1, so_strerror = ''x''\<rparr>"
  have "fst (HttpServer_make ?so sample_fs Config_default) = throw (Runtime_error ''listen failed: x'')"
    by (simp add: HttpServer_make_def create_listen_socket_def)
  with HttpServer_make_socket [of ?so sample_fs Config_default] show ?thesis
    by (cases "HttpServer_make ?so sample_fs Config_default") simp
qed

text \<open>The command line is read back: printed port, thread count, log path and document
  root give those values, the port below \<open>2 ^ 16\<close>; a larger port is reduced modulo
  \<open>2 ^ 16\<close> without an error.\<close>

theorem parse_args_roundtrip:
  assumes "p < 2 ^ 31" "t < size_max"
  shows "parse_args [''-p'', to_string p, ''-t'', to_string t, ''-l'', l, ''-d'', d] c =
      return (Some (c\<lparr>ma_port := of_nat p, ma_threads := t, ma_log_path := l, ma_docroot := d\<rparr>)) \<and>
    unat (of_nat p :: 16 word) = p mod 2 ^ 16"
  using assms stoi_to_string [of p] stoul_to_string [of t] by (simp add: unat_of_nat)

theorem parse_args_roundtrip_witness:
  "parse_args [''-p'', to_string 70000, ''-t'', to_string 8, ''-l'', ''x'', ''-d'', ''y''] (main_args_default 2) =
    return (Some \<lparr>ma_port = 4464, ma_threads = 8, ma_log_path = ''x'', ma_docroot = ''y''\<rparr>)"
  using parse_args_roundtrip [of 70000 8 "''x''" "''y''" "main_args_default 2"]
  by (simp add: size_max_def main_args_default_def)

end
