(* ===== verification/UringScheduler.thy ===== *)
theory UringScheduler
  imports Prelude
begin

text \<open>
  \<^verbatim>\<open>coroutineWebServer/UringScheduler.{h,cpp}\<close>: \<^verbatim>\<open>OperationBase\<close>, the awaiters and
  the run loop of \<^verbatim>\<open>UringScheduler\<close>. liburing is an argument (\<open>uring\<close>), and so is what
  a coroutine does between two suspensions (\<open>frame_ops\<close>). Coroutine handles and operations
  are numbers. The lemmas show that the queues are first-in first-out, that an operation
  resumes its coroutine at most once, and what \<^verbatim>\<open>stop\<close> does to the loop.
\<close>

section \<open>Operations\<close>

type_synonym handle = nat

record OperationBase =
  op_scheduler :: bool
  op_continuation :: "handle option"
  op_completed :: bool
  op_result :: int
  op_flags :: nat

definition OperationBase_init :: OperationBase where
  "OperationBase_init = \<lparr>op_scheduler = True, op_continuation = None, op_completed = False,
     op_result = 0, op_flags = 0\<rparr>"

text \<open>\<^verbatim>\<open>await_resume\<close>.\<close>

definition op_await_resume :: "OperationBase \<Rightarrow> int result" where
  "op_await_resume op = (if op_result op < 0 then throw (System_error (- op_result op)) else return (op_result op))"

record ReadyItem =
  ri_handle :: "handle option"
  ri_destroy :: bool

text \<open>\<^verbatim>\<open>enqueue\<close> on the ready queue; a null handle is dropped.\<close>

definition enqueue :: "handle option \<Rightarrow> bool \<Rightarrow> ReadyItem list \<Rightarrow> ReadyItem list" where
  "enqueue h d ready = (case h of None \<Rightarrow> ready | Some x \<Rightarrow> ready @ [\<lparr>ri_handle = Some x, ri_destroy = d\<rparr>])"

definition op_complete ::
  "int \<Rightarrow> nat \<Rightarrow> OperationBase \<Rightarrow> ReadyItem list \<Rightarrow> OperationBase \<times> ReadyItem list" where
  "op_complete res cqe_flags op ready =
     (if op_completed op then (op, ready)
      else
        let op1 = op\<lparr>op_completed := True, op_result := res, op_flags := cqe_flags\<rparr>
        in (op1, if op_scheduler op1 \<and> op_continuation op1 \<noteq> None
                 then enqueue (op_continuation op1) False ready else ready))"

section \<open>Awaiters\<close>

text \<open>A submission queue entry as the \<^verbatim>\<open>io_uring_prep_\<close> functions fill it.\<close>

datatype sqe_op =
    Prep_accept fd int
  | Prep_multishot_accept fd int
  | Prep_recv fd "32 word" int
  | Prep_send fd "32 word" int
  | Prep_read fd "32 word" int
  | Prep_write fd "32 word" int
  | Prep_timeout int int
  | Prep_cancel "64 word"

text \<open>
  liburing: \<open>u_get_sqe\<close> returns a slot or null, \<open>u_fill\<close> writes an operation and its user
  data (the operation object) to a slot, \<open>u_set_link\<close> sets \<^verbatim>\<open>IOSQE_IO_LINK\<close> on it,
  \<open>u_submit\<close> submits.
\<close>

record 'r uring =
  u_get_sqe :: "'r \<Rightarrow> nat option \<times> 'r"
  u_fill :: "nat \<Rightarrow> sqe_op \<Rightarrow> nat \<Rightarrow> 'r \<Rightarrow> 'r"
  u_set_link :: "nat \<Rightarrow> 'r \<Rightarrow> 'r"
  u_submit :: "'r \<Rightarrow> int \<times> 'r"

definition uring_submit :: "'r uring \<Rightarrow> 'r \<Rightarrow> 'r result" where
  "uring_submit u r = (case u_submit u r of (rc, r') \<Rightarrow> if rc < 0 then throw (System_error (- rc)) else return r')"

text \<open>The first lines of every \<^verbatim>\<open>submit\<close>: get an entry, submitting once to make room.\<close>

definition acquire_sqe :: "'r uring \<Rightarrow> 'r \<Rightarrow> (nat \<times> 'r) result" where
  "acquire_sqe u r =
     (case u_get_sqe u r of
        (Some s, r1) \<Rightarrow> return (s, r1)
      | (None, r1) \<Rightarrow>
          (case uring_submit u r1 of
             Inl e \<Rightarrow> throw e
           | Inr r2 \<Rightarrow>
               (case u_get_sqe u r2 of
                  (Some s, r3) \<Rightarrow> return (s, r3)
                | (None, r3) \<Rightarrow> throw (Runtime_error ''io_uring queue is full''))))"

definition submit_one :: "'r uring \<Rightarrow> sqe_op \<Rightarrow> nat \<Rightarrow> 'r \<Rightarrow> 'r result" where
  "submit_one u sq op r =
     (case acquire_sqe u r of Inl e \<Rightarrow> throw e | Inr (s, r1) \<Rightarrow> return (u_fill u s sq op r1))"

text \<open>The awaiters, with their constructor arguments.\<close>

datatype awaiter =
    AcceptAwaiter fd int bool
  | RecvAwaiter fd nat int "int option"
  | SendAwaiter fd nat int
  | ReadAwaiter fd nat int
  | WriteAwaiter fd nat int
  | TimeoutAwaiter int
  | CancelAwaiter "64 word"

text \<open>Splitting a duration in nanoseconds, \<^verbatim>\<open>duration_cast\<close> truncating toward zero.\<close>

definition timespec_of :: "int \<Rightarrow> int \<times> int" where
  "timespec_of ns =
     (let sec = (if 0 \<le> ns then ns div 1000000000 else - ((- ns) div 1000000000))
      in (sec, ns - sec * 1000000000))"

definition AcceptAwaiter_submit ::
  "bool \<Rightarrow> 'r uring \<Rightarrow> fd \<Rightarrow> int \<Rightarrow> bool \<Rightarrow> nat \<Rightarrow> 'r \<Rightarrow> 'r result" where
  "AcceptAwaiter_submit has_multishot u f flags multishot op r =
     submit_one u (if has_multishot \<and> multishot then Prep_multishot_accept f flags else Prep_accept f flags) op r"

definition RecvAwaiter_submit ::
  "'r uring \<Rightarrow> fd \<Rightarrow> nat \<Rightarrow> int \<Rightarrow> int option \<Rightarrow> nat \<Rightarrow> 'r \<Rightarrow> 'r result" where
  "RecvAwaiter_submit u f len flags timeout op r =
     (case acquire_sqe u r of
        Inl e \<Rightarrow> throw e
      | Inr (recv_sqe, r1) \<Rightarrow>
          (let r2 = u_fill u recv_sqe (Prep_recv f (of_nat len) flags) op r1
           in case timeout of
                None \<Rightarrow> return r2
              | Some ns \<Rightarrow>
                  (case acquire_sqe u r2 of
                     Inl e \<Rightarrow> throw e
                   | Inr (timeout_sqe, r3) \<Rightarrow>
                       (let (sec, nsec) = timespec_of ns;
                            r4 = u_set_link u recv_sqe r3
                        in return (u_fill u timeout_sqe (Prep_timeout sec nsec) op r4)))))"

definition SendAwaiter_submit :: "'r uring \<Rightarrow> fd \<Rightarrow> nat \<Rightarrow> int \<Rightarrow> nat \<Rightarrow> 'r \<Rightarrow> 'r result" where
  "SendAwaiter_submit u f len flags op r = submit_one u (Prep_send f (of_nat len) flags) op r"

definition ReadAwaiter_submit :: "'r uring \<Rightarrow> fd \<Rightarrow> nat \<Rightarrow> int \<Rightarrow> nat \<Rightarrow> 'r \<Rightarrow> 'r result" where
  "ReadAwaiter_submit u f len offset op r =
     submit_one u (if 0 \<le> offset then Prep_read f (of_nat len) offset else Prep_read f (of_nat len) 0) op r"

definition WriteAwaiter_submit :: "'r uring \<Rightarrow> fd \<Rightarrow> nat \<Rightarrow> int \<Rightarrow> nat \<Rightarrow> 'r \<Rightarrow> 'r result" where
  "WriteAwaiter_submit u f len offset op r =
     submit_one u (if 0 \<le> offset then Prep_write f (of_nat len) offset else Prep_write f (of_nat len) 0) op r"

definition TimeoutAwaiter_submit :: "'r uring \<Rightarrow> int \<Rightarrow> nat \<Rightarrow> 'r \<Rightarrow> 'r result" where
  "TimeoutAwaiter_submit u ns op r =
     (let (sec, nsec) = timespec_of ns in submit_one u (Prep_timeout sec nsec) op r)"

definition CancelAwaiter_submit :: "'r uring \<Rightarrow> 64 word \<Rightarrow> nat \<Rightarrow> 'r \<Rightarrow> 'r result" where
  "CancelAwaiter_submit u token op r = submit_one u (Prep_cancel token) op r"

fun awaiter_submit :: "bool \<Rightarrow> 'r uring \<Rightarrow> awaiter \<Rightarrow> nat \<Rightarrow> 'r \<Rightarrow> 'r result" where
  "awaiter_submit ms u (AcceptAwaiter f flags multishot) op r = AcceptAwaiter_submit ms u f flags multishot op r"
| "awaiter_submit ms u (RecvAwaiter f len flags timeout) op r = RecvAwaiter_submit u f len flags timeout op r"
| "awaiter_submit ms u (SendAwaiter f len flags) op r = SendAwaiter_submit u f len flags op r"
| "awaiter_submit ms u (ReadAwaiter f len offset) op r = ReadAwaiter_submit u f len offset op r"
| "awaiter_submit ms u (WriteAwaiter f len offset) op r = WriteAwaiter_submit u f len offset op r"
| "awaiter_submit ms u (TimeoutAwaiter ns) op r = TimeoutAwaiter_submit u ns op r"
| "awaiter_submit ms u (CancelAwaiter token) op r = CancelAwaiter_submit u token op r"

text \<open>\<^verbatim>\<open>OperationBase::await_suspend\<close>; \<open>current\<close> says that the thread runs a scheduler.\<close>

definition op_await_suspend ::
  "bool \<Rightarrow> 'r uring \<Rightarrow> bool \<Rightarrow> awaiter \<Rightarrow> handle \<Rightarrow> nat \<Rightarrow> OperationBase \<Rightarrow> 'r \<Rightarrow> (OperationBase \<times> 'r) result" where
  "op_await_suspend ms u current aw h op_id op r =
     (let op1 = op\<lparr>op_continuation := Some h, op_scheduler := current\<rparr>
      in if \<not> current then throw (Runtime_error ''Operation awaited outside UringScheduler context'')
         else case awaiter_submit ms u aw op_id r of
                Inl e \<Rightarrow> throw e
              | Inr r' \<Rightarrow> return (op1, r'))"

text \<open>\<^verbatim>\<open>submit_or_throw\<close>.\<close>

definition submit_or_throw :: "bool \<Rightarrow> 'r uring \<Rightarrow> awaiter \<Rightarrow> nat \<Rightarrow> 'r \<Rightarrow> (int \<times> 'r) result" where
  "submit_or_throw ms u aw op_id r =
     (case awaiter_submit ms u aw op_id r of
        Inl e \<Rightarrow> throw e
      | Inr r1 \<Rightarrow> (case uring_submit u r1 of Inl e \<Rightarrow> throw e | Inr r2 \<Rightarrow> return (0, r2)))"

text \<open>The functions that make an awaiter; the buffers are their lengths, and \<^verbatim>\<open>addr\<close> is left to the kernel.\<close>

definition async_accept :: "fd \<Rightarrow> int \<Rightarrow> bool \<Rightarrow> awaiter" where
  "async_accept f flags multishot = AcceptAwaiter f flags multishot"

definition async_recv :: "fd \<Rightarrow> nat \<Rightarrow> int \<Rightarrow> awaiter" where
  "async_recv f len flags = RecvAwaiter f len flags None"

definition async_recv_for :: "fd \<Rightarrow> nat \<Rightarrow> int \<Rightarrow> int \<Rightarrow> awaiter" where
  "async_recv_for f len timeout flags = RecvAwaiter f len flags (Some timeout)"

definition async_send :: "fd \<Rightarrow> nat \<Rightarrow> int \<Rightarrow> awaiter" where
  "async_send f len flags = SendAwaiter f len flags"

definition async_read :: "fd \<Rightarrow> nat \<Rightarrow> int \<Rightarrow> awaiter" where
  "async_read f len offset = ReadAwaiter f len offset"

definition async_write :: "fd \<Rightarrow> nat \<Rightarrow> int \<Rightarrow> awaiter" where
  "async_write f len offset = WriteAwaiter f len offset"

definition async_timeout :: "int \<Rightarrow> awaiter" where
  "async_timeout timeout = TimeoutAwaiter timeout"

definition async_cancel :: "64 word \<Rightarrow> awaiter" where
  "async_cancel token = CancelAwaiter token"

section \<open>The scheduler\<close>

type_synonym ops = "nat \<rightharpoonup> OperationBase"

text \<open>What running a piece of user code (a coroutine up to its next suspension, or a posted
  function) does: the new state of the coroutines, the handles it enqueues, the functions it
  posts, and the operations that exist afterwards.\<close>

record 'e user_step =
  us_env :: 'e
  us_ready :: "(handle option \<times> bool) list"
  us_posts :: "nat list"
  us_ops :: ops

record 'e frame_ops =
  f_resume :: "handle \<Rightarrow> 'e \<Rightarrow> ops \<Rightarrow> 'e user_step"
  f_post :: "nat \<Rightarrow> 'e \<Rightarrow> ops \<Rightarrow> 'e user_step"
  f_done :: "handle \<Rightarrow> 'e \<Rightarrow> bool"
  f_destroy :: "handle \<Rightarrow> 'e \<Rightarrow> 'e"

text \<open>
  The state of a scheduler. \<open>sc_resumed\<close>, \<open>sc_ran\<close> and \<open>sc_destroyed\<close> record the calls
  made; \<open>sc_dangling\<close> records a completion for an operation that no longer exists.
\<close>

record 'e sched =
  sc_running :: bool
  sc_ready :: "ReadyItem list"
  sc_posts :: "nat list"
  sc_ops :: ops
  sc_env :: 'e
  sc_resumed :: "handle list"
  sc_ran :: "nat list"
  sc_destroyed :: "handle list"
  sc_dangling :: bool

text \<open>The constructor, with what \<^verbatim>\<open>io_uring_queue_init\<close> returns for a number of entries; the members have
  their initialisers.\<close>

definition UringScheduler_make :: "(nat \<Rightarrow> int) \<Rightarrow> 'e \<Rightarrow> nat \<Rightarrow> (nat \<times> 'e sched) result" where
  "UringScheduler_make queue_init env entries0 =
     (let entries = (if entries0 = 0 then 1024 else entries0); rc = queue_init entries
      in if rc < 0 then throw (System_error (- rc))
         else return (entries, \<lparr>sc_running = False, sc_ready = [], sc_posts = [], sc_ops = Map.empty, sc_env = env,
                sc_resumed = [], sc_ran = [], sc_destroyed = [], sc_dangling = False\<rparr>))"

definition sched_stop :: "'e sched \<Rightarrow> 'e sched" where
  "sched_stop s = s\<lparr>sc_running := False\<rparr>"

text \<open>The destructor; \<open>queue_exit\<close> is what \<^verbatim>\<open>io_uring_queue_exit\<close> does to the ring.\<close>

definition UringScheduler_dtor :: "('r \<Rightarrow> 'r) \<Rightarrow> 'e sched \<times> 'r \<Rightarrow> 'e sched \<times> 'r" where
  "UringScheduler_dtor queue_exit x = (case x of (s, ring) \<Rightarrow> (sched_stop s, queue_exit ring))"

definition sched_enqueue :: "handle option \<Rightarrow> bool \<Rightarrow> 'e sched \<Rightarrow> 'e sched" where
  "sched_enqueue h d s = s\<lparr>sc_ready := enqueue h d (sc_ready s)\<rparr>"

text \<open>\<^verbatim>\<open>scheduler_enqueue\<close>, which \<^verbatim>\<open>Task.h\<close> declares and calls.\<close>

definition scheduler_enqueue :: "handle option \<Rightarrow> bool \<Rightarrow> 'e sched \<Rightarrow> 'e sched" where
  "scheduler_enqueue h d s = sched_enqueue h d s"

definition sched_post :: "nat \<Rightarrow> 'e sched \<Rightarrow> 'e sched" where
  "sched_post fn s = s\<lparr>sc_posts := sc_posts s @ [fn]\<rparr>"

definition apply_step :: "'e user_step \<Rightarrow> 'e sched \<Rightarrow> 'e sched" where
  "apply_step st s =
     fold sched_post (us_posts st)
       (fold (\<lambda>(h, d). sched_enqueue h d) (us_ready st) (s\<lparr>sc_env := us_env st, sc_ops := us_ops st\<rparr>))"

definition resume_ready :: "'e frame_ops \<Rightarrow> ReadyItem \<Rightarrow> 'e sched \<Rightarrow> 'e sched" where
  "resume_ready f item s =
     (case ri_handle item of
        None \<Rightarrow> s
      | Some h \<Rightarrow>
          (let s1 = apply_step (f_resume f h (sc_env s) (sc_ops s)) (s\<lparr>sc_resumed := sc_resumed s @ [h]\<rparr>)
           in if ri_destroy item \<and> f_done f h (sc_env s1)
              then s1\<lparr>sc_env := f_destroy f h (sc_env s1), sc_destroyed := sc_destroyed s1 @ [h]\<rparr>
              else s1))"

definition run_post :: "'e frame_ops \<Rightarrow> nat \<Rightarrow> 'e sched \<Rightarrow> 'e sched" where
  "run_post f fn s = apply_step (f_post f fn (sc_env s) (sc_ops s)) (s\<lparr>sc_ran := sc_ran s @ [fn]\<rparr>)"

definition drain_posts :: "'e frame_ops \<Rightarrow> 'e sched \<Rightarrow> 'e sched" where
  "drain_posts f s = fold (run_post f) (sc_posts s) (s\<lparr>sc_posts := []\<rparr>)"

definition drain_ready :: "'e frame_ops \<Rightarrow> 'e sched \<Rightarrow> 'e sched" where
  "drain_ready f s = fold (resume_ready f) (sc_ready s) (s\<lparr>sc_ready := []\<rparr>)"

text \<open>A completion: the operation it points to (or null), its result and flags.\<close>

type_synonym cqe = "nat option \<times> int \<times> nat"

fun handle_cqe :: "cqe \<Rightarrow> 'e sched \<Rightarrow> 'e sched" where
  "handle_cqe (None, res, fl) s = s"
| "handle_cqe (Some i, res, fl) s =
     (case sc_ops s i of
        None \<Rightarrow> s\<lparr>sc_dangling := True\<rparr>
      | Some op \<Rightarrow>
          (let (op', ready) = op_complete res fl op (sc_ready s)
           in s\<lparr>sc_ops := (sc_ops s)(i \<mapsto> op'), sc_ready := ready\<rparr>))"

text \<open>What other threads do to the scheduler.\<close>

datatype ext = Ext_post nat | Ext_enqueue "handle option" bool | Ext_stop

fun ext_step :: "ext \<Rightarrow> 'e sched \<Rightarrow> 'e sched" where
  "ext_step (Ext_post fn) s = sched_post fn s"
| "ext_step (Ext_enqueue h d) s = sched_enqueue h d s"
| "ext_step Ext_stop s = sched_stop s"

text \<open>One iteration of the loop of \<^verbatim>\<open>run\<close>: what other threads do before the posts and
  before the ready queue are drained, and the completions the ring then shows.\<close>

record round =
  rd_before :: "ext list"
  rd_between :: "ext list"
  rd_cqes :: "cqe list"

definition run_round :: "'e frame_ops \<Rightarrow> round \<Rightarrow> 'e sched \<Rightarrow> 'e sched" where
  "run_round f r s =
     fold handle_cqe (rd_cqes r)
       (drain_ready f (fold ext_step (rd_between r) (drain_posts f (fold ext_step (rd_before r) s))))"

text \<open>The loop, over the rounds the environment provides; \<open>None\<close> while it still runs after
  the last of them.\<close>

fun run_loop :: "'e frame_ops \<Rightarrow> round list \<Rightarrow> 'e sched \<Rightarrow> 'e sched option" where
  "run_loop f [] s = (if sc_running s then None else Some (drain_ready f (drain_posts f s)))"
| "run_loop f (r # rs) s =
     (if sc_running s then run_loop f rs (run_round f r s)
      else Some (drain_ready f (drain_posts f s)))"

definition sched_run :: "'e frame_ops \<Rightarrow> round list \<Rightarrow> 'e sched \<Rightarrow> 'e sched option" where
  "sched_run f rs s = run_loop f rs (s\<lparr>sc_running := True\<rparr>)"

section \<open>Queues\<close>

lemma sched_enqueue_frame [simp]:
  "sc_running (sched_enqueue h d s) = sc_running s" "sc_posts (sched_enqueue h d s) = sc_posts s"
  "sc_resumed (sched_enqueue h d s) = sc_resumed s" "sc_ran (sched_enqueue h d s) = sc_ran s"
  "sc_destroyed (sched_enqueue h d s) = sc_destroyed s" "sc_env (sched_enqueue h d s) = sc_env s"
  "sc_ops (sched_enqueue h d s) = sc_ops s" "sc_dangling (sched_enqueue h d s) = sc_dangling s"
  by (simp_all add: sched_enqueue_def)

lemma sched_post_frame [simp]:
  "sc_running (sched_post p s) = sc_running s" "sc_ready (sched_post p s) = sc_ready s"
  "sc_resumed (sched_post p s) = sc_resumed s" "sc_ran (sched_post p s) = sc_ran s"
  "sc_destroyed (sched_post p s) = sc_destroyed s" "sc_env (sched_post p s) = sc_env s"
  "sc_ops (sched_post p s) = sc_ops s" "sc_dangling (sched_post p s) = sc_dangling s"
  by (simp_all add: sched_post_def)

lemma fold_enqueue_frame [simp]:
  "sc_running (fold (\<lambda>(h, d). sched_enqueue h d) xs s) = sc_running s"
  "sc_posts (fold (\<lambda>(h, d). sched_enqueue h d) xs s) = sc_posts s"
  "sc_resumed (fold (\<lambda>(h, d). sched_enqueue h d) xs s) = sc_resumed s"
  "sc_ran (fold (\<lambda>(h, d). sched_enqueue h d) xs s) = sc_ran s"
  "sc_destroyed (fold (\<lambda>(h, d). sched_enqueue h d) xs s) = sc_destroyed s"
  "sc_env (fold (\<lambda>(h, d). sched_enqueue h d) xs s) = sc_env s"
  "sc_ops (fold (\<lambda>(h, d). sched_enqueue h d) xs s) = sc_ops s"
  "sc_dangling (fold (\<lambda>(h, d). sched_enqueue h d) xs s) = sc_dangling s"
  by (induction xs arbitrary: s) auto

lemma fold_post_frame [simp]:
  "sc_running (fold sched_post ps s) = sc_running s" "sc_ready (fold sched_post ps s) = sc_ready s"
  "sc_resumed (fold sched_post ps s) = sc_resumed s" "sc_ran (fold sched_post ps s) = sc_ran s"
  "sc_destroyed (fold sched_post ps s) = sc_destroyed s" "sc_env (fold sched_post ps s) = sc_env s"
  "sc_ops (fold sched_post ps s) = sc_ops s" "sc_dangling (fold sched_post ps s) = sc_dangling s"
  "sc_posts (fold sched_post ps s) = sc_posts s @ ps"
  by (induction ps arbitrary: s) (auto simp: sched_post_def)

text \<open>The items a list of enqueue calls appends.\<close>

definition ready_items :: "(handle option \<times> bool) list \<Rightarrow> ReadyItem list" where
  "ready_items xs = map (\<lambda>(h, d). \<lparr>ri_handle = h, ri_destroy = d\<rparr>) (filter (\<lambda>(h, d). h \<noteq> None) xs)"

lemma fold_enqueue_ready [simp]:
  "sc_ready (fold (\<lambda>(h, d). sched_enqueue h d) xs s) = sc_ready s @ ready_items xs"
  by (induction xs arbitrary: s)
    (auto simp: ready_items_def sched_enqueue_def enqueue_def split: option.splits)

lemma apply_step_simps [simp]:
  "sc_running (apply_step st s) = sc_running s" "sc_resumed (apply_step st s) = sc_resumed s"
  "sc_ran (apply_step st s) = sc_ran s" "sc_destroyed (apply_step st s) = sc_destroyed s"
  "sc_env (apply_step st s) = us_env st" "sc_ops (apply_step st s) = us_ops st"
  "sc_dangling (apply_step st s) = sc_dangling s"
  "sc_ready (apply_step st s) = sc_ready s @ ready_items (us_ready st)"
  "sc_posts (apply_step st s) = sc_posts s @ us_posts st"
  by (simp_all add: apply_step_def)

lemma resume_ready_simps [simp]:
  "sc_running (resume_ready f i s) = sc_running s" "sc_ran (resume_ready f i s) = sc_ran s"
  "sc_dangling (resume_ready f i s) = sc_dangling s"
  "sc_resumed (resume_ready f i s) = sc_resumed s @ (case ri_handle i of None \<Rightarrow> [] | Some h \<Rightarrow> [h])"
  by (simp_all add: resume_ready_def Let_def split: option.split)

lemma run_post_simps [simp]:
  "sc_running (run_post f p s) = sc_running s" "sc_ran (run_post f p s) = sc_ran s @ [p]"
  "sc_dangling (run_post f p s) = sc_dangling s" "sc_resumed (run_post f p s) = sc_resumed s"
  "sc_destroyed (run_post f p s) = sc_destroyed s"
  by (simp_all add: run_post_def)

text \<open>Handles of a ready queue, null ones left out.\<close>

definition handles :: "ReadyItem list \<Rightarrow> handle list" where
  "handles items = concat (map (\<lambda>i. case ri_handle i of None \<Rightarrow> [] | Some h \<Rightarrow> [h]) items)"

lemma fold_resume_simps [simp]:
  "sc_running (fold (resume_ready f) xs s) = sc_running s"
  "sc_ran (fold (resume_ready f) xs s) = sc_ran s"
  "sc_dangling (fold (resume_ready f) xs s) = sc_dangling s"
  "sc_resumed (fold (resume_ready f) xs s) = sc_resumed s @ handles xs"
  by (induction xs arbitrary: s) (auto simp: handles_def)

lemma fold_run_post_simps [simp]:
  "sc_running (fold (run_post f) ps s) = sc_running s"
  "sc_ran (fold (run_post f) ps s) = sc_ran s @ ps"
  "sc_dangling (fold (run_post f) ps s) = sc_dangling s"
  "sc_resumed (fold (run_post f) ps s) = sc_resumed s"
  "sc_destroyed (fold (run_post f) ps s) = sc_destroyed s"
  by (induction ps arbitrary: s) auto

lemma drain_simps [simp]:
  "sc_running (drain_ready f s) = sc_running s" "sc_ran (drain_ready f s) = sc_ran s"
  "sc_resumed (drain_ready f s) = sc_resumed s @ handles (sc_ready s)"
  "sc_running (drain_posts f s) = sc_running s" "sc_ran (drain_posts f s) = sc_ran s @ sc_posts s"
  "sc_resumed (drain_posts f s) = sc_resumed s" "sc_destroyed (drain_posts f s) = sc_destroyed s"
  "sc_dangling (drain_ready f s) = sc_dangling s" "sc_dangling (drain_posts f s) = sc_dangling s"
  by (simp_all add: drain_ready_def drain_posts_def)

lemma handle_cqe_simps [simp]:
  "sc_running (handle_cqe c s) = sc_running s" "sc_resumed (handle_cqe c s) = sc_resumed s"
  "sc_ran (handle_cqe c s) = sc_ran s" "sc_destroyed (handle_cqe c s) = sc_destroyed s"
  "sc_posts (handle_cqe c s) = sc_posts s"
  by (induction c s rule: handle_cqe.induct) (auto split: option.split prod.split)

lemma fold_handle_cqe_simps [simp]:
  "sc_running (fold handle_cqe cs s) = sc_running s" "sc_resumed (fold handle_cqe cs s) = sc_resumed s"
  "sc_ran (fold handle_cqe cs s) = sc_ran s" "sc_destroyed (fold handle_cqe cs s) = sc_destroyed s"
  "sc_posts (fold handle_cqe cs s) = sc_posts s"
  by (induction cs arbitrary: s) auto

section \<open>Rounds\<close>

lemma ext_step_simps [simp]:
  "sc_running (ext_step e s) = (sc_running s \<and> e \<noteq> Ext_stop)"
  "sc_resumed (ext_step e s) = sc_resumed s" "sc_ran (ext_step e s) = sc_ran s"
  "sc_destroyed (ext_step e s) = sc_destroyed s"
  by (cases e; simp add: sched_stop_def)+

lemma fold_ext_simps [simp]:
  "sc_running (fold ext_step es s) = (sc_running s \<and> Ext_stop \<notin> set es)"
  "sc_resumed (fold ext_step es s) = sc_resumed s" "sc_ran (fold ext_step es s) = sc_ran s"
  "sc_destroyed (fold ext_step es s) = sc_destroyed s"
  by (induction es arbitrary: s) auto

lemma ext_appends:
  "\<exists>xs. sc_ready (fold ext_step es s) = sc_ready s @ xs"
  "\<exists>ps. sc_posts (fold ext_step es s) = sc_posts s @ ps"
proof -
  have one: "(\<exists>xs. sc_ready (ext_step e s) = sc_ready s @ xs) \<and> (\<exists>ps. sc_posts (ext_step e s) = sc_posts s @ ps)"
    for e and s :: "'e sched"
    by (cases e) (auto simp: sched_enqueue_def sched_post_def sched_stop_def enqueue_def split: option.split)
  show "\<exists>xs. sc_ready (fold ext_step es s) = sc_ready s @ xs"
    "\<exists>ps. sc_posts (fold ext_step es s) = sc_posts s @ ps"
    by (induction es arbitrary: s; simp; metis one append.assoc)+
qed

lemma run_post_appends: "\<exists>xs. sc_ready (fold (run_post f) ps s) = sc_ready s @ xs"
proof (induction ps arbitrary: s)
  case Nil
  then show ?case by simp
next
  case (Cons p ps)
  from Cons [of "run_post f p s"] show ?case by (auto simp: run_post_def)
qed

lemma run_round_running:
  "sc_running (run_round f r s) =
    (sc_running s \<and> Ext_stop \<notin> set (rd_before r) \<and> Ext_stop \<notin> set (rd_between r))"
  by (auto simp: run_round_def)

lemma run_loop_None:
  "run_loop f rs s = None \<longleftrightarrow>
     sc_running s \<and> list_all (\<lambda>r. Ext_stop \<notin> set (rd_before r) \<and> Ext_stop \<notin> set (rd_between r)) rs"
  by (induction f rs s rule: run_loop.induct) (auto simp: run_round_running)

lemma run_round_order:
  "\<exists>hs ps. sc_resumed (run_round f r s) = sc_resumed s @ handles (sc_ready s) @ hs \<and>
    sc_ran (run_round f r s) = sc_ran s @ sc_posts s @ ps"
proof -
  let ?s1 = "fold ext_step (rd_before r) s"
  obtain ps where ps: "sc_posts ?s1 = sc_posts s @ ps" using ext_appends(2) by blast
  obtain x1 where x1: "sc_ready ?s1 = sc_ready s @ x1" using ext_appends(1) by blast
  let ?s2 = "drain_posts f ?s1"
  obtain x2 where x2: "sc_ready ?s2 = sc_ready ?s1 @ x2"
    using run_post_appends [of f "sc_posts ?s1" "?s1\<lparr>sc_posts := []\<rparr>"] by (auto simp: drain_posts_def)
  let ?s3 = "fold ext_step (rd_between r) ?s2"
  obtain x3 where x3: "sc_ready ?s3 = sc_ready ?s2 @ x3" using ext_appends(1) by blast
  have "sc_resumed (run_round f r s) = sc_resumed s @ handles (sc_ready ?s3)"
    "sc_ran (run_round f r s) = sc_ran s @ sc_posts ?s1"
    by (simp_all add: run_round_def)
  then show ?thesis by (simp add: ps x1 x2 x3 handles_def)
qed

section \<open>Frames that are never destroyed\<close>

text \<open>No item of the queue would destroy frame \<open>h\<close>.\<close>

definition unflagged :: "handle \<Rightarrow> ReadyItem list \<Rightarrow> bool" where
  "unflagged h items = list_all (\<lambda>i. ri_handle i = Some h \<longrightarrow> \<not> ri_destroy i) items"

text \<open>No user code starts frame \<open>h\<close> (again).\<close>

definition never_started :: "'e frame_ops \<Rightarrow> handle \<Rightarrow> bool" where
  "never_started f h =
     (\<forall>x env ops. (Some h, True) \<notin> set (us_ready (f_resume f x env ops)) \<and>
        (Some h, True) \<notin> set (us_ready (f_post f x env ops)))"

lemma unflagged_items: "unflagged h (ready_items xs) \<longleftrightarrow> (Some h, True) \<notin> set xs"
  by (auto simp: unflagged_def ready_items_def list_all_iff)

lemma unflagged_append [simp]: "unflagged h (xs @ ys) \<longleftrightarrow> unflagged h xs \<and> unflagged h ys"
  by (simp add: unflagged_def)

lemma unflagged_Nil [simp]: "unflagged h []"
  by (simp add: unflagged_def)

lemma resume_ready_unflagged:
  assumes "never_started f h" "unflagged h (sc_ready s)" "ri_handle i = Some h \<longrightarrow> \<not> ri_destroy i"
  shows "unflagged h (sc_ready (resume_ready f i s))"
    and "count_list (sc_destroyed (resume_ready f i s)) h = count_list (sc_destroyed s) h"
  using assms
  by (auto simp: resume_ready_def never_started_def unflagged_items Let_def split: option.split)

lemma fold_resume_unflagged:
  assumes "never_started f h" "unflagged h (sc_ready s)" "unflagged h is"
  shows "unflagged h (sc_ready (fold (resume_ready f) is s)) \<and>
    count_list (sc_destroyed (fold (resume_ready f) is s)) h = count_list (sc_destroyed s) h"
  using assms(2,3)
proof (induction "is" arbitrary: s)
  case Nil
  then show ?case by simp
next
  case (Cons i "is")
  then have "ri_handle i = Some h \<longrightarrow> \<not> ri_destroy i" "unflagged h is" by (simp_all add: unflagged_def)
  with Cons resume_ready_unflagged [OF assms(1), of s i] show ?case by simp
qed

lemma fold_run_post_unflagged:
  assumes "never_started f h" "unflagged h (sc_ready s)"
  shows "unflagged h (sc_ready (fold (run_post f) ps s))"
  using assms(2)
proof (induction ps arbitrary: s)
  case Nil
  then show ?case by simp
next
  case (Cons p ps)
  with assms(1) show ?case by (simp add: run_post_def never_started_def unflagged_items)
qed

lemma fold_ext_unflagged:
  assumes "unflagged h (sc_ready s)" "Ext_enqueue (Some h) True \<notin> set es"
  shows "unflagged h (sc_ready (fold ext_step es s))"
  using assms
proof (induction es arbitrary: s)
  case Nil
  then show ?case by simp
next
  case (Cons e es)
  then have "unflagged h (sc_ready (ext_step e s))"
    by (cases e) (auto simp: sched_enqueue_def sched_stop_def enqueue_def unflagged_def split: option.split)
  with Cons show ?case by simp
qed

lemma fold_cqe_unflagged:
  assumes "unflagged h (sc_ready s)"
  shows "unflagged h (sc_ready (fold handle_cqe cs s))"
  using assms
proof (induction cs arbitrary: s)
  case Nil
  then show ?case by simp
next
  case (Cons c cs)
  then have "unflagged h (sc_ready (handle_cqe c s))"
    by (cases "(c, s)" rule: handle_cqe.cases)
      (auto simp: op_complete_def enqueue_def unflagged_def Let_def split: option.split)
  with Cons show ?case by simp
qed

definition round_clean :: "handle \<Rightarrow> round \<Rightarrow> bool" where
  "round_clean h r = (Ext_enqueue (Some h) True \<notin> set (rd_before r) \<and>
     Ext_enqueue (Some h) True \<notin> set (rd_between r))"

lemma run_round_unflagged:
  assumes "never_started f h" "unflagged h (sc_ready s)" "round_clean h r"
  shows "unflagged h (sc_ready (run_round f r s))"
    and "count_list (sc_destroyed (run_round f r s)) h = count_list (sc_destroyed s) h"
proof -
  let ?s3 = "fold ext_step (rd_between r) (drain_posts f (fold ext_step (rd_before r) s))"
  have "unflagged h (sc_ready (drain_posts f (fold ext_step (rd_before r) s)))"
    unfolding drain_posts_def
    by (rule fold_run_post_unflagged [OF assms(1)])
      (use assms fold_ext_unflagged [of h s "rd_before r"] in \<open>simp add: round_clean_def\<close>)
  then have "unflagged h (sc_ready ?s3)"
    using assms(3) by (intro fold_ext_unflagged) (simp_all add: round_clean_def)
  then have d: "unflagged h (sc_ready (drain_ready f ?s3))"
    "count_list (sc_destroyed (drain_ready f ?s3)) h = count_list (sc_destroyed ?s3) h"
    using fold_resume_unflagged [OF assms(1), of "?s3\<lparr>sc_ready := []\<rparr>" "sc_ready ?s3"]
    by (simp_all add: drain_ready_def)
  then show "unflagged h (sc_ready (run_round f r s))"
    "count_list (sc_destroyed (run_round f r s)) h = count_list (sc_destroyed s) h"
    by (simp_all add: run_round_def fold_cqe_unflagged)
qed

lemma finish_unflagged:
  assumes "never_started f h" "unflagged h (sc_ready s)"
  shows "count_list (sc_destroyed (drain_ready f (drain_posts f s))) h = count_list (sc_destroyed s) h"
proof -
  have "unflagged h (sc_ready (drain_posts f s))"
    using fold_run_post_unflagged [OF assms(1), of "s\<lparr>sc_posts := []\<rparr>" "sc_posts s"] assms(2)
    by (simp add: drain_posts_def)
  then show ?thesis
    using fold_resume_unflagged [OF assms(1), of "(drain_posts f s)\<lparr>sc_ready := []\<rparr>" "sc_ready (drain_posts f s)"]
    by (simp add: drain_ready_def)
qed

lemma run_loop_unflagged:
  assumes "never_started f h" "unflagged h (sc_ready s)" "list_all (round_clean h) rs"
    "run_loop f rs s = Some s'"
  shows "count_list (sc_destroyed s') h = count_list (sc_destroyed s) h"
  using assms(2-4)
proof (induction rs arbitrary: s)
  case Nil
  with finish_unflagged [OF assms(1)] show ?case by (auto split: if_splits)
next
  case (Cons r rs)
  with run_round_unflagged [OF assms(1), of s r] finish_unflagged [OF assms(1), of s]
  show ?case by (auto split: if_splits)
qed

section \<open>Properties\<close>

text \<open>No starvation and first-in first-out order: one iteration of the run loop calls every
  function posted before it and resumes every coroutine that was ready before it, once and in
  the order of the queues, before anything that arrives or is enqueued meanwhile.\<close>

theorem run_round_fifo:
  "\<exists>hs ps. sc_resumed (run_round f r s) = sc_resumed s @ handles (sc_ready s) @ hs \<and>
    sc_ran (run_round f r s) = sc_ran s @ sc_posts s @ ps"
  by (rule run_round_order)

text \<open>When the run loop ends: exactly when a \<^verbatim>\<open>stop\<close> comes during one of its iterations.
  What happened before \<^verbatim>\<open>run\<close> does not count: \<^verbatim>\<open>run\<close> sets \<^verbatim>\<open>running_\<close> itself, so a
  \<^verbatim>\<open>stop\<close> that precedes it is lost and the loop runs on.\<close>

theorem sched_run_ends_iff:
  "sched_run f rs s = None \<longleftrightarrow>
     list_all (\<lambda>r. Ext_stop \<notin> set (rd_before r) \<and> Ext_stop \<notin> set (rd_between r)) rs"
  by (simp add: sched_run_def run_loop_None)

text \<open>A coroutine is resumed at most once per operation: however many completions arrive
  for it, the first one sets the result and enqueues the continuation, and the others change
  nothing.\<close>

theorem op_complete_once:
  assumes "\<not> op_completed op"
  shows "fold (\<lambda>(res, fl) (o1, q). op_complete res fl o1 q) ((res, fl) # more_cqes) (op, ready) =
      op_complete res fl op ready \<and>
    op_result (fst (op_complete res fl op ready)) = res \<and>
    snd (op_complete res fl op ready) =
      ready @ (if op_scheduler op then
        (case op_continuation op of None \<Rightarrow> [] | Some h \<Rightarrow> [\<lparr>ri_handle = Some h, ri_destroy = False\<rparr>]) else [])"
proof -
  have completed: "fold (\<lambda>(res, fl) (o1, q). op_complete res fl o1 q) cs (o1, q) = (o1, q)"
    if "op_completed o1" for cs o1 q
    using that by (induction cs) (auto simp: op_complete_def)
  have "op_completed (fst (op_complete res fl op ready))"
    using assms by (simp add: op_complete_def Let_def)
  then have "fold (\<lambda>(res, fl) (o1, q). op_complete res fl o1 q) more_cqes (op_complete res fl op ready) =
      op_complete res fl op ready"
    using completed [of "fst (op_complete res fl op ready)" more_cqes] by (cases "op_complete res fl op ready") simp
  with assms show ?thesis
    by (auto simp: op_complete_def enqueue_def Let_def split: option.split)
qed

theorem op_complete_once_witness:
  "fold (\<lambda>(res, fl) (o1, q). op_complete res fl o1 q) [(5, 0), (-62, 0)]
     (OperationBase_init\<lparr>op_continuation := Some 3\<rparr>, []) =
   op_complete 5 0 (OperationBase_init\<lparr>op_continuation := Some 3\<rparr>) []"
  using op_complete_once [of "OperationBase_init\<lparr>op_continuation := Some 3\<rparr>" 5 0 "[(-62, 0)]" "[]"]
  by (simp add: OperationBase_init_def)

text \<open>A detached coroutine that is suspended at the end of its first resumption leaks: it
  is queued again only by completions, which never ask for its destruction, so that no run of
  the scheduler destroys its frame, not even after it has finished.\<close>

theorem detached_frame_leaks:
  assumes "never_started f h" "unflagged h (sc_ready s)" "list_all (round_clean h) rs"
    and "sched_run f rs s = Some s'"
  shows "count_list (sc_destroyed s') h = count_list (sc_destroyed s) h"
  using run_loop_unflagged [OF assms(1) _ assms(3), of "s\<lparr>sc_running := True\<rparr>" s'] assms(2,4)
  by (simp add: sched_run_def)

text \<open>Coroutines that do nothing but finish, for examples.\<close>

definition idle_frames :: "unit frame_ops" where
  "idle_frames = \<lparr>f_resume = (\<lambda>h e ops. \<lparr>us_env = (), us_ready = [], us_posts = [], us_ops = Map.empty\<rparr>),
     f_post = (\<lambda>p e ops. \<lparr>us_env = (), us_ready = [], us_posts = [], us_ops = ops\<rparr>),
     f_done = (\<lambda>h e. True), f_destroy = (\<lambda>h e. e)\<rparr>"

definition idle_sched :: "unit sched" where
  "idle_sched = \<lparr>sc_running = False, sc_ready = [], sc_posts = [],
     sc_ops = [7 \<mapsto> OperationBase_init\<lparr>op_continuation := Some 3\<rparr>], sc_env = (), sc_resumed = [],
     sc_ran = [], sc_destroyed = [], sc_dangling = False\<rparr>"

theorem detached_frame_leaks_witness:
  "\<exists>s'. sched_run idle_frames
      [\<lparr>rd_before = [], rd_between = [], rd_cqes = [(Some 7, 5, 0)]\<rparr>,
       \<lparr>rd_before = [Ext_stop], rd_between = [], rd_cqes = []\<rparr>] idle_sched = Some s' \<and>
    sc_resumed s' = [3] \<and> count_list (sc_destroyed s') 3 = 0"
proof -
  let ?rs = "[\<lparr>rd_before = [], rd_between = [], rd_cqes = [(Some 7, 5, 0)]\<rparr>,
       \<lparr>rd_before = [Ext_stop], rd_between = [], rd_cqes = []\<rparr>]"
  have "\<exists>s'. sched_run idle_frames ?rs idle_sched = Some s' \<and> sc_resumed s' = [3]"
    by (simp add: sched_run_def run_round_def drain_posts_def drain_ready_def idle_sched_def idle_frames_def
        OperationBase_init_def op_complete_def enqueue_def resume_ready_def apply_step_def sched_stop_def)
  then obtain s' where s': "sched_run idle_frames ?rs idle_sched = Some s'" "sc_resumed s' = [3]" by blast
  have "never_started idle_frames 3" by (simp add: never_started_def idle_frames_def)
  moreover have "unflagged 3 (sc_ready idle_sched)" by (simp add: idle_sched_def)
  moreover have "list_all (round_clean 3) ?rs" by (simp add: round_clean_def)
  ultimately have "count_list (sc_destroyed s') 3 = count_list (sc_destroyed idle_sched) 3"
    using detached_frame_leaks s'(1) by blast
  with s' show ?thesis by (simp add: idle_sched_def)
qed

text \<open>Two completions of one operation in different iterations are not safe: the awaiter
  is gone once the coroutine has been resumed after the first, and the second is delivered to
  an operation that no longer exists. The timed receive submits two entries for the same
  operation.\<close>

theorem second_completion_dangles:
  assumes "sc_ops s i = Some op" "\<not> op_completed op" "op_scheduler op" "op_continuation op = Some h"
    and "sc_ready s = []" "sc_posts s = []"
    and "\<forall>ops. us_ops (f_resume f h (sc_env s) ops) i = None"
    and "\<forall>ops. us_ready (f_resume f h (sc_env s) ops) = []"
  shows "sc_dangling (run_round f \<lparr>rd_before = [], rd_between = [], rd_cqes = [(Some i, res2, fl2)]\<rparr>
    (run_round f \<lparr>rd_before = [], rd_between = [], rd_cqes = [(Some i, res1, fl1)]\<rparr> s))"
  using assms
  by (simp add: run_round_def drain_posts_def drain_ready_def op_complete_def enqueue_def resume_ready_def)

theorem second_completion_dangles_witness:
  "sc_dangling (run_round idle_frames \<lparr>rd_before = [], rd_between = [], rd_cqes = [(Some 7, -62, 0)]\<rparr>
    (run_round idle_frames \<lparr>rd_before = [], rd_between = [], rd_cqes = [(Some 7, 5, 0)]\<rparr> idle_sched))"
  using second_completion_dangles [of idle_sched 7 "OperationBase_init\<lparr>op_continuation := Some 3\<rparr>" 3 idle_frames]
  by (simp add: idle_sched_def idle_frames_def OperationBase_init_def)

end
