(* ===== verification/CoroutineMain.thy ===== *)
theory CoroutineMain
  imports HttpServer UringScheduler
begin

text \<open>
  \<^verbatim>\<open>coroutineWebServer/CoroutineMain.cpp\<close>: the signal handler and \<^verbatim>\<open>main\<close>, which starts the logger and
  the server, sleeps until a signal has come, and shuts both down. What the other threads do
  meanwhile (events of the server's threads, calls and passes of the logger) is part of the
  environment.
\<close>

section \<open>The program\<close>

datatype signal = Sig_int | Sig_term | Sig_pipe

text \<open>\<^verbatim>\<open>on_signal\<close> is installed for the first two; the third is ignored.\<close>

definition on_signal :: "bool \<Rightarrow> bool" where
  "on_signal g_stop = True"

definition deliver :: "signal option \<Rightarrow> bool \<Rightarrow> bool" where
  "deliver s g_stop =
     (case s of None \<Rightarrow> g_stop | Some Sig_int \<Rightarrow> on_signal g_stop | Some Sig_term \<Rightarrow> on_signal g_stop | Some Sig_pipe \<Rightarrow> g_stop)"

text \<open>The loop that sleeps, over the signals of each interval: how often it has slept, or \<open>None\<close> while it
  goes on.\<close>

fun sleep_loop :: "signal option list \<Rightarrow> bool \<Rightarrow> nat option" where
  "sleep_loop [] g_stop = (if g_stop then Some 0 else None)"
| "sleep_loop (s # ss) g_stop = (if g_stop then Some 0 else map_option Suc (sleep_loop ss (deliver s g_stop)))"

record main_env =
  me_args :: "string list"
  me_hardware :: nat
  me_sock :: sock_env
  me_fs :: filesystem
  me_can_open :: "string \<Rightarrow> bool"
  me_file :: "string \<Rightarrow> string"
  me_rings :: "nat \<Rightarrow> nat \<Rightarrow> int"
  me_format :: bool
  me_time :: "nat \<Rightarrow> string"
  me_yield :: "nat \<Rightarrow> nat \<Rightarrow> nat"
  me_signals :: "signal option list"
  me_running :: "srv_event list"
  me_stopping :: "srv_event list"
  me_logs1 :: "log_event list"
  me_logs2 :: "log_event list"
  me_logs3 :: "log_event list"

text \<open>The \<open>k\<close>-th line that \<^verbatim>\<open>main\<close> has logged, a call of \<^verbatim>\<open>info\<close>.\<close>

definition info_event :: "main_env \<Rightarrow> nat \<Rightarrow> string \<Rightarrow> log_event" where
  "info_event e k msg = Log (me_time e k) (me_yield e k) L_info (if me_format e then msg else ''format support unavailable'')"

definition main_config :: "main_args \<Rightarrow> Config" where
  "main_config a = Config_default\<lparr>cfg_port := ma_port a, cfg_worker_count := ma_threads a, cfg_docroot := ma_docroot a,
     cfg_request_timeout := 30 * 1000000000\<rparr>"

text \<open>The calls of the logger from its start to its stop.\<close>

definition main_logs :: "main_env \<Rightarrow> main_args \<Rightarrow> log_event list" where
  "main_logs e a =
     [info_event e 0 (''starting coroutine web server on port '' @ to_string (unat (ma_port a)))] @ me_logs1 e @
     [info_event e 1 (''CoroutineWebServer started on port '' @ to_string (unat (ma_port a)))] @ me_logs2 e @
     [info_event e 2 ''stopping coroutine web server''] @ me_logs3 e @
     [info_event e 3 ''CoroutineWebServer stopped'']"

datatype main_result = Usage | Uncaught cpp_exn | Sleeping | Hanging | Main_returned int Logger srv

text \<open>The schedulers of \<^verbatim>\<open>HttpServer::start\<close>, the acceptor's and the workers', in the order of their
  construction; \<open>rings i\<close> is what \<^verbatim>\<open>io_uring_queue_init\<close> returns for the \<open>i\<close>-th.\<close>

fun make_schedulers :: "(nat \<Rightarrow> nat \<Rightarrow> int) \<Rightarrow> nat \<Rightarrow> nat list \<Rightarrow> unit result" where
  "make_schedulers rings entries [] = return ()"
| "make_schedulers rings entries (i # is) =
     (case UringScheduler_make (rings i) () entries of Inl x \<Rightarrow> throw x | Inr sc \<Rightarrow> make_schedulers rings entries is)"

text \<open>The end of \<^verbatim>\<open>main\<close>: the shutdown and the destructors of the server and of the logger.\<close>

definition main_end :: "main_env \<Rightarrow> main_args \<Rightarrow> Logger \<Rightarrow> srv \<Rightarrow> main_result" where
  "main_end e a lg s =
     (case srv_wait (fold srv_step (me_stopping e) (srv_stop s)) of
        None \<Rightarrow> Hanging
      | Some s1 \<Rightarrow>
          (case log_run (main_logs e a) lg of
             None \<Rightarrow> Hanging
           | Some lg1 \<Rightarrow>
               (case log_stop lg1 of
                  None \<Rightarrow> Hanging
                | Some lg2 \<Rightarrow>
                    (case (HttpServer_dtor [] s1, AsyncLogger_dtor lg2) of
                       (Some s2, Some lg3) \<Rightarrow> Main_returned 0 lg3 s2
                     | _ \<Rightarrow> Hanging))))"

definition main :: "main_env \<Rightarrow> main_result" where
  "main e =
     (case parse_args (me_args e) (main_args_default (me_hardware e)) of
        Inl x \<Rightarrow> Uncaught x
      | Inr None \<Rightarrow> Usage
      | Inr (Some a) \<Rightarrow>
          (case AsyncLogger_make (ma_log_path a) 8192 (me_file e (ma_log_path a)) of
             Inl x \<Rightarrow> Uncaught x
           | Inr lg \<Rightarrow>
               (case log_start (me_can_open e) lg of
                  Inl x \<Rightarrow> Uncaught x
                | Inr lg1 \<Rightarrow>
                    (case HttpServer_make (me_sock e) (me_fs e) (main_config a) of
                       (Inl x, closes) \<Rightarrow> Uncaught x
                     | (Inr (cfg, listen_fd), closes) \<Rightarrow>
                         (case make_schedulers (me_rings e) (cfg_ring_entries cfg) [0..<cfg_worker_count cfg + 1] of
                            Inl x \<Rightarrow> Uncaught x
                          | Inr u \<Rightarrow>
                              (let s = fold srv_step (me_running e) (srv_start (srv_init (cfg_worker_count cfg)))
                               in if sleep_loop (me_signals e) False = None then Sleeping else main_end e a lg1 s))))))"

section \<open>Schedulers and the sleep loop\<close>

lemma make_schedulers_ok:
  "(\<And>i n. 0 \<le> rings i n) \<Longrightarrow> make_schedulers rings entries is = return ()"
  by (induction "is") (simp_all add: UringScheduler_make_def Let_def not_less)

lemma sleep_loop_ends:
  "sleep_loop ss g \<noteq> None \<longleftrightarrow> g \<or> Some Sig_int \<in> set ss \<or> Some Sig_term \<in> set ss"
proof (induction ss arbitrary: g)
  case (Cons s ss)
  have "deliver s g \<longleftrightarrow> g \<or> s = Some Sig_int \<or> s = Some Sig_term"
    by (auto simp: deliver_def on_signal_def split: option.splits signal.splits)
  then show ?case using Cons.IH [of "deliver s g"] by auto
qed simp

section \<open>A server that runs\<close>

text \<open>Between \<^verbatim>\<open>start\<close> and \<^verbatim>\<open>stop\<close> every thread is created or loops, and one that loops has its flag set.\<close>

definition serving :: "srv \<Rightarrow> bool" where
  "serving s \<longleftrightarrow> srv_running s \<and> srv_acc_flag s \<noteq> None \<and> length (srv_threads s) = length (srv_flags s) \<and>
     (srv_acc_thread s = Some Created \<or> srv_acc_thread s = Some Looping \<and> srv_acc_flag s = Some True) \<and>
     (\<forall>k < length (srv_threads s). fst (srv_threads s ! k) = k \<and>
        (snd (srv_threads s ! k) = Created \<or> snd (srv_threads s ! k) = Looping \<and> srv_flags s ! k))"

lemma serving_start: "serving (srv_start (srv_init n))" "length (srv_threads (srv_start (srv_init n))) = n"
  by (simp_all add: serving_def srv_start_def srv_init_def)

lemma serving_step:
  assumes "serving s" "e \<notin> {Ev_start, Ev_stop}"
  shows "serving (srv_step e s)" "length (srv_threads (srv_step e s)) = length (srv_threads s)"
    "srv_acc_thread s = Some Looping \<or> e = Ev_begin_acc \<Longrightarrow> srv_acc_thread (srv_step e s) = Some Looping"
    "k < length (srv_threads s) \<Longrightarrow> snd (srv_threads s ! k) = Looping \<or> e = Ev_begin k \<Longrightarrow>
      snd (srv_threads (srv_step e s) ! k) = Looping"
  using assms
  by (cases e; auto simp: serving_def thread_begin_def thread_check_def acceptor_begin_def acceptor_check_def
      nth_list_update)+

lemma serving_steps:
  assumes "serving s" "Ev_start \<notin> set es" "Ev_stop \<notin> set es"
  shows "serving (fold srv_step es s) \<and> length (srv_threads (fold srv_step es s)) = length (srv_threads s) \<and>
    (srv_acc_thread s = Some Looping \<or> Ev_begin_acc \<in> set es \<longrightarrow> srv_acc_thread (fold srv_step es s) = Some Looping) \<and>
    (\<forall>k < length (srv_threads s). snd (srv_threads s ! k) = Looping \<or> Ev_begin k \<in> set es \<longrightarrow>
      snd (srv_threads (fold srv_step es s) ! k) = Looping)"
  using assms
proof (induction es arbitrary: s)
  case (Cons e es)
  then have e: "e \<notin> {Ev_start, Ev_stop}" by auto
  note st = serving_step [OF Cons.prems(1) e]
  show ?case using Cons.IH [OF st(1)] Cons.prems(2,3) st(2-4) by auto
qed simp

lemma serving_stop_waits:
  assumes "Ev_start \<notin> set es" "Ev_stop \<notin> set es" "Ev_begin_acc \<in> set es" "\<forall>k < n. Ev_begin k \<in> set es"
    and "Ev_start \<notin> set es'" "Ev_check_acc \<in> set es'" "\<forall>k < n. Ev_check k \<in> set es'"
  shows "\<exists>s. srv_wait (fold srv_step es' (srv_stop (fold srv_step es (srv_start (srv_init n))))) = Some s \<and>
    srv_threads s = [] \<and> srv_acc_thread s = None \<and> \<not> srv_running s"
proof -
  let ?s = "fold srv_step es (srv_start (srv_init n))"
  have s: "serving ?s" "length (srv_threads ?s) = n" "srv_acc_thread ?s = Some Looping"
    "\<And>k. k < n \<Longrightarrow> snd (srv_threads ?s ! k) = Looping"
    using serving_steps [OF serving_start(1) [of n] assms(1,2)] assms(3,4) by (simp_all add: serving_start)
  have all: "list_all (\<lambda>(i, t). i < length (srv_flags ?s) \<and> t = Looping) (srv_threads ?s)"
    using s by (auto simp: list_all_length split_beta serving_def)
  have r: "srv_running ?s" "srv_acc_flag ?s \<noteq> None" using s(1) by (simp_all add: serving_def)
  have "srv_wait (fold srv_step es' (srv_stop ?s)) \<noteq> None"
    by (rule shutdown_waits [OF r s(3) all assms(5,6)]) (simp add: list_all_length s(2) assms(7))
  moreover have "\<not> srv_running (fold srv_step es' (srv_stop ?s))"
  proof -
    have "stopping (srv_stop ?s)" using r all s(3) by (auto simp: stopping_def srv_stop_def list_all_iff)
    from stopping_steps(1) [OF this assms(5)] show ?thesis by (simp add: stopping_def)
  qed
  ultimately show ?thesis by (auto simp: srv_wait_def split: if_splits)
qed

section \<open>Properties\<close>

text \<open>C26. Once \<^verbatim>\<open>SIGINT\<close> or \<^verbatim>\<open>SIGTERM\<close> has come, a run of the program that could start returns 0: if each thread
  of the server has entered its loop before the signal was seen and then reads its flag, \<^verbatim>\<open>main\<close> joins
  them all, stops the logger, and the log file holds what it held before followed by every line that
  was logged, each once.\<close>

theorem main_shuts_down:
  assumes args: "parse_args (me_args e) (main_args_default (me_hardware e)) = return (Some a)"
    and open': "me_can_open e (ma_log_path a)"
    and server: "HttpServer_make (me_sock e) (me_fs e) (main_config a) = (return (cfg, listen_fd), closes)"
      "\<And>i n. 0 \<le> me_rings e i n"
    and sig: "Some Sig_int \<in> set (me_signals e) \<or> Some Sig_term \<in> set (me_signals e)"
    and begun: "Ev_start \<notin> set (me_running e)" "Ev_stop \<notin> set (me_running e)" "Ev_begin_acc \<in> set (me_running e)"
      "\<forall>k < cfg_worker_count cfg. Ev_begin k \<in> set (me_running e)"
    and ended: "Ev_start \<notin> set (me_stopping e)" "Ev_check_acc \<in> set (me_stopping e)"
      "\<forall>k < cfg_worker_count cfg. Ev_check k \<in> set (me_stopping e)"
  shows "\<exists>lg s ws. main e = Main_returned 0 lg s \<and> srv_threads s = [] \<and> srv_acc_thread s = None \<and> \<not> sink_open lg \<and>
    sink_file lg = me_file e (ma_log_path a) @ concat ws \<and> mset ws = mset (event_lines (main_logs e a))"
proof -
  obtain lg0 where lg0: "AsyncLogger_make (ma_log_path a) 8192 (me_file e (ma_log_path a)) = return lg0"
    "lg_file_path lg0 = ma_log_path a" "\<not> lg_running lg0"
    using and_pred_word [of "8192 :: 64 word"]
    by (auto simp: AsyncLogger_make_def LogQueue_make_def)
  obtain lg1 where lg1: "log_start (me_can_open e) lg0 = return lg1" using open' lg0 by (simp add: log_start_def)
  have c: "(1 :: 64 word) < 8192" "(8192 :: 64 word) \<le> 2 ^ 62" by simp_all
  have st: "log_ok same_lines (me_file e (ma_log_path a)) [] lg1" "lg_running lg1" "lg_worker lg1"
    using logger_started [OF lg0(1) c lg1, of same_lines] by (simp_all add: same_lines_def)
  obtain lg2 where lg2: "log_run (main_logs e a) lg1 = Some lg2"
    "log_ok same_lines (me_file e (ma_log_path a)) (event_lines (main_logs e a)) lg2" "log_frame lg1 lg2"
    using log_run_ok [OF st(1), of "main_logs e a"] by auto
  obtain lg3 ws where lg3: "log_stop lg2 = Some lg3" "\<not> sink_open lg3" "\<not> lg_running lg3"
    "sink_file lg3 = me_file e (ma_log_path a) @ concat ws" "same_lines ws (event_lines (main_logs e a))"
    using log_stop_ok [OF lg2(2)] st lg2(3) by (auto simp: log_frame_def)
  obtain s where s: "srv_wait (fold srv_step (me_stopping e)
      (srv_stop (fold srv_step (me_running e) (srv_start (srv_init (cfg_worker_count cfg)))))) = Some s"
    "srv_threads s = []" "srv_acc_thread s = None" "\<not> srv_running s"
    using serving_stop_waits [OF begun ended] by blast
  have "HttpServer_dtor [] s = Some s" using s by (simp add: HttpServer_dtor_def srv_stop_def srv_wait_def)
  moreover have "AsyncLogger_dtor lg3 = Some lg3" using lg3(3) by (simp add: AsyncLogger_dtor_def log_stop_def)
  moreover have "sleep_loop (me_signals e) False \<noteq> None" using sig sleep_loop_ends by blast
  ultimately have "main e = Main_returned 0 lg3 s"
    using args lg0(1) lg1 server(1) make_schedulers_ok [OF server(2)] s(1) lg2(1) lg3(1)
    by (simp add: main_def main_end_def Let_def)
  then show ?thesis using s lg3 by (auto simp: same_lines_def)
qed

text \<open>The whole program hangs when a signal is seen before a worker has entered its loop.\<close>

theorem main_hangs:
  assumes args: "parse_args (me_args e) (main_args_default (me_hardware e)) = return (Some a)"
    and open': "me_can_open e (ma_log_path a)"
    and server: "HttpServer_make (me_sock e) (me_fs e) (main_config a) = (return (cfg, listen_fd), closes)"
      "\<And>i n. 0 \<le> me_rings e i n"
    and sig: "Some Sig_int \<in> set (me_signals e)" "me_running e = []"
    and late: "me_stopping e = Ev_begin 0 # es" "Ev_start \<notin> set es" "0 < cfg_worker_count cfg"
  shows "main e = Hanging"
proof -
  obtain lg0 lg1 where lg: "AsyncLogger_make (ma_log_path a) 8192 (me_file e (ma_log_path a)) = return lg0"
    "log_start (me_can_open e) lg0 = return lg1"
    using and_pred_word [of "8192 :: 64 word"] open'
    by (auto simp: AsyncLogger_make_def LogQueue_make_def log_start_def)
  let ?s = "srv_stop (srv_start (srv_init (cfg_worker_count cfg)))"
  have "stray 0 (srv_step (Ev_begin 0) ?s)"
    using late(3) by (simp add: srv_init_def srv_start_def srv_stop_def thread_begin_def stray_def)
  from stray_waits [OF stray_steps [OF this late(2)]]
  have "srv_wait (fold srv_step (me_stopping e) ?s) = None" by (simp add: late(1))
  moreover have "sleep_loop (me_signals e) False \<noteq> None" using sig(1) sleep_loop_ends by blast
  ultimately show ?thesis using args lg server(1) make_schedulers_ok [OF server(2)] sig(2)
    by (simp add: main_def main_end_def Let_def)
qed

section \<open>Witnesses\<close>

definition wit_main :: "srv_event list \<Rightarrow> srv_event list \<Rightarrow> main_env" where
  "wit_main running stopping' = \<lparr>me_args = [''-d'', ''/srv''], me_hardware = 0,
     me_sock = \<lparr>so_socket = 3, so_bind = 0, so_listen = 0, so_strerror = []\<rparr>, me_fs = sample_fs,
     me_can_open = (\<lambda>p. True), me_file = (\<lambda>p. ''old''), me_rings = (\<lambda>i n. 0), me_format = True,
     me_time = (\<lambda>k. ''t''), me_yield = (\<lambda>k i. 0), me_signals = [None, Some Sig_pipe, Some Sig_int],
     me_running = running, me_stopping = stopping', me_logs1 = [], me_logs2 = [Pass], me_logs3 = []\<rparr>"

definition wit_args :: main_args where
  "wit_args = (main_args_default 0)\<lparr>ma_docroot := ''/srv''\<rparr>"

lemma wit_main_starts:
  "parse_args (me_args (wit_main r t)) (main_args_default (me_hardware (wit_main r t))) = return (Some wit_args)"
  "HttpServer_make (me_sock (wit_main r t)) (me_fs (wit_main r t)) (main_config wit_args) =
    (return (main_config wit_args, UniqueFd_make 3 False), [])"
  by (simp_all add: wit_main_def wit_args_def HttpServer_make_def create_listen_socket_def detect_docroot_def
      main_config_def main_args_default_def Let_def)

theorem main_shuts_down_witness:
  "\<exists>lg s ws. main (wit_main (Ev_begin_acc # map Ev_begin [0..<4]) (Ev_check_acc # map Ev_check [0..<4])) = Main_returned 0 lg s \<and>
    sink_file lg = ''old'' @ concat ws"
proof -
  let ?e = "wit_main (Ev_begin_acc # map Ev_begin [0..<4]) (Ev_check_acc # map Ev_check [0..<4])"
  have c: "cfg_worker_count (main_config wit_args) = 4"
    by (simp add: main_config_def wit_args_def main_args_default_def)
  have "\<exists>lg s ws. main ?e = Main_returned 0 lg s \<and> srv_threads s = [] \<and> srv_acc_thread s = None \<and> \<not> sink_open lg \<and>
      sink_file lg = me_file ?e (ma_log_path wit_args) @ concat ws \<and> mset ws = mset (event_lines (main_logs ?e wit_args))"
    by (rule main_shuts_down [OF wit_main_starts(1) _ wit_main_starts(2)]) (auto simp: wit_main_def c)
  then show ?thesis by (auto simp: wit_main_def)
qed

theorem main_hangs_witness: "main (wit_main [] [Ev_begin 0, Ev_check 0, Ev_stop]) = Hanging"
  by (rule main_hangs [OF wit_main_starts(1) _ wit_main_starts(2), where es = "[Ev_check 0, Ev_stop]"])
    (simp_all add: wit_main_def main_config_def wit_args_def main_args_default_def)

end
