(* ===== verification/CoServing.thy ===== *)
theory CoServing
  imports HttpServer UringScheduler
begin

text \<open>
  The connection coroutines on the scheduler. \<^verbatim>\<open>HttpConnection\<close> runs one connection to its end over a
  script of results; here the same code is cut at its \<^verbatim>\<open>co_await\<close>s: a connection is suspended at a
  receive or at a send, the completion of its operation makes it ready, and the scheduler of
  \<^verbatim>\<open>UringScheduler\<close> resumes it. Any number of connections share the scheduler, and their
  completions come in any order. A connection is the frames of \<^verbatim>\<open>handle_connection\<close> and of the coroutine
  that it awaits under one handle (they pass control to each other without the scheduler), its
  operations have one address, the ring is taken to have room for every entry, and an exception that
  a coroutine rethrows is taken to reach its handler, which \<^verbatim>\<open>Task\<close> discusses. The lemmas show that every
  connection is the handler by itself on the results that were delivered to it, that connections do
  not disturb each other, and that a connection that has ended has answered its client.
\<close>

section \<open>A connection between two suspensions\<close>

text \<open>Where it is suspended: before its first resumption, at the receive of \<^verbatim>\<open>read_request\<close> with the buffer, or
  at the send of \<^verbatim>\<open>write_all\<close> with the request, the buffer, the payload and the offset.\<close>

datatype conn_at = Cn_new | Cn_recv string | Cn_send HttpRequest string string nat | Cn_end

definition next_run :: "bool list \<Rightarrow> bool \<times> bool list" where
  "next_run runs = (case runs of [] \<Rightarrow> (True, []) | b # bs \<Rightarrow> (b, bs))"

lemma next_run_length: "next_run runs = (b, r) \<Longrightarrow> length r \<le> length runs \<and> (\<not> b \<longrightarrow> length r < length runs)"
  by (auto simp: next_run_def split: list.splits)

text \<open>The code from the head of the loop of \<^verbatim>\<open>handle_connection\<close>, of \<^verbatim>\<open>read_request\<close> and of \<^verbatim>\<open>write_all\<close> to the next
  suspension, with the values that \<^verbatim>\<open>running_\<close> shows.\<close>

function conn_loop :: "filesystem \<Rightarrow> path \<Rightarrow> UniqueFd \<Rightarrow> string \<Rightarrow> bool list \<Rightarrow> conn_at \<times> bool list"
  and conn_read :: "filesystem \<Rightarrow> path \<Rightarrow> UniqueFd \<Rightarrow> string \<Rightarrow> bool list \<Rightarrow> conn_at \<times> bool list"
  and conn_write :: "filesystem \<Rightarrow> path \<Rightarrow> UniqueFd \<Rightarrow> HttpRequest \<Rightarrow> string \<Rightarrow> string \<Rightarrow> nat \<Rightarrow> bool list \<Rightarrow> conn_at \<times> bool list"
where
  "conn_loop fs docroot client buffer runs =
     (case next_run runs of
        (False, r1) \<Rightarrow> (Cn_end, r1)
      | (True, r1) \<Rightarrow> if \<not> UniqueFd_valid client then (Cn_end, r1) else conn_read fs docroot client buffer r1)"
| "conn_read fs docroot client buffer runs =
     (case next_run runs of
        (False, r1) \<Rightarrow> (Cn_end, r1)
      | (True, r1) \<Rightarrow>
          (case try_parse_request buffer of
             Some parsed \<Rightarrow>
               conn_write fs docroot client (request parsed) (drop (consumed parsed) buffer)
                 (to_wire (build_response fs docroot (request parsed))) 0 r1
           | None \<Rightarrow> (Cn_recv buffer, r1)))"
| "conn_write fs docroot client req buffer wire offset runs =
     (if offset < length wire then
        (case next_run runs of
           (False, r1) \<Rightarrow> if \<not> keep_alive req then (Cn_end, r1) else conn_loop fs docroot client buffer r1
         | (True, r1) \<Rightarrow> (Cn_send req buffer wire offset, r1))
      else if \<not> keep_alive req then (Cn_end, runs) else conn_loop fs docroot client buffer runs)"
  by pat_completeness auto
termination
  by (relation "measure (case_sum (\<lambda>(fs, d, c, b, runs). 4 * length runs + 2)
      (case_sum (\<lambda>(fs, d, c, b, runs). 4 * length runs + 1)
        (\<lambda>(fs, d, c, req, b, p, ofs, runs). 4 * length runs + (if ofs < length p then 0 else 3))))")
    (auto dest!: sym [of _ "next_run _"] next_run_length)

declare conn_loop.simps [simp del] conn_read.simps [simp del] conn_write.simps [simp del]

text \<open>The code after the two \<^verbatim>\<open>co_await\<close>s. A failed operation throws: a time-out ends \<^verbatim>\<open>read_request\<close> without a
  request, anything else reaches the \<^verbatim>\<open>catch\<close> of \<^verbatim>\<open>handle_connection\<close>; both end the connection.\<close>

fun after_recv :: "filesystem \<Rightarrow> path \<Rightarrow> UniqueFd \<Rightarrow> string \<Rightarrow> recv_event \<Rightarrow> bool list \<Rightarrow> conn_at \<times> bool list" where
  "after_recv fs docroot client buffer (Recv_data d) runs =
     (if length d = 0 then (Cn_end, runs) else conn_read fs docroot client (buffer @ d) runs)"
| "after_recv fs docroot client buffer (Recv_error e) runs = (Cn_end, runs)"

fun after_send :: "filesystem \<Rightarrow> path \<Rightarrow> UniqueFd \<Rightarrow> HttpRequest \<Rightarrow> string \<Rightarrow> string \<Rightarrow> nat \<Rightarrow> send_event \<Rightarrow> bool list \<Rightarrow>
    conn_at \<times> bool list" where
  "after_send fs docroot client req buffer wire offset (Sent n) runs =
     (if n \<le> 0 then (if \<not> keep_alive req then (Cn_end, runs) else conn_loop fs docroot client buffer runs)
      else conn_write fs docroot client req buffer wire (offset + nat n) runs)"
| "after_send fs docroot client req buffer wire offset (Send_error e) runs = (Cn_end, runs)"

section \<open>The connections of a scheduler\<close>

text \<open>A connection with the bytes its client has sent and that are still to be received, the bytes sent to it,
  and the history of its results and of \<^verbatim>\<open>running_\<close>.\<close>

record conn =
  cn_client :: UniqueFd
  cn_at :: conn_at
  cn_runs :: "bool list"
  cn_in :: string
  cn_out :: string
  cn_script :: "bool list"
  cn_recvs :: "recv_event list"
  cn_sends :: "send_event list"

definition conn_make :: "fd \<Rightarrow> bool list \<Rightarrow> string \<Rightarrow> conn" where
  "conn_make client_fd runs input = \<lparr>cn_client = UniqueFd_make client_fd False, cn_at = Cn_new, cn_runs = runs, cn_in = input,
     cn_out = [], cn_script = runs, cn_recvs = [], cn_sends = []\<rparr>"

text \<open>What \<^verbatim>\<open>await_resume\<close> gives: an error, or the count of bytes that the kernel has copied.\<close>

definition recv_of :: "int \<Rightarrow> string \<Rightarrow> recv_event" where
  "recv_of res input = (if res < 0 then Recv_error (- res) else Recv_data (take (nat res) input))"

definition send_of :: "int \<Rightarrow> send_event" where
  "send_of res = (if res < 0 then Send_error (- res) else Sent res)"

text \<open>A connection is resumed with the result of its operation.\<close>

definition conn_go :: "filesystem \<Rightarrow> path \<Rightarrow> int \<Rightarrow> conn \<Rightarrow> conn" where
  "conn_go fs docroot res c =
     (case cn_at c of
        Cn_new \<Rightarrow>
          (case conn_loop fs docroot (cn_client c) [] (cn_runs c) of (a, r) \<Rightarrow> c\<lparr>cn_at := a, cn_runs := r\<rparr>)
      | Cn_recv b \<Rightarrow>
          (case after_recv fs docroot (cn_client c) b (recv_of res (cn_in c)) (cn_runs c) of
             (a, r) \<Rightarrow> c\<lparr>cn_at := a, cn_runs := r, cn_in := drop (nat res) (cn_in c),
               cn_recvs := cn_recvs c @ [recv_of res (cn_in c)]\<rparr>)
      | Cn_send req b p ofs \<Rightarrow>
          (case after_send fs docroot (cn_client c) req b p ofs (send_of res) (cn_runs c) of
             (a, r) \<Rightarrow> c\<lparr>cn_at := a, cn_runs := r, cn_out := cn_out c @ take (nat res) (drop ofs p),
               cn_sends := cn_sends c @ [send_of res]\<rparr>)
      | Cn_end \<Rightarrow> c)"

text \<open>The frames of a worker. A posted function has a client (its descriptor, and for the run the values of
  \<^verbatim>\<open>running_\<close> and the bytes it will send) and starts its connection, detached; a
  connection that does not end waits for an operation of its own; destroying the frame of a connection
  closes its descriptor.\<close>

record coenv =
  ce_conns :: "handle \<rightharpoonup> conn"
  ce_next :: handle
  ce_closed :: "fd list"

definition coenv_init :: coenv where
  "coenv_init = \<lparr>ce_conns = Map.empty, ce_next = 0, ce_closed = []\<rparr>"

definition op_wait :: "handle \<Rightarrow> OperationBase" where
  "op_wait h = OperationBase_init\<lparr>op_continuation := Some h\<rparr>"

definition conn_resume :: "filesystem \<Rightarrow> path \<Rightarrow> handle \<Rightarrow> coenv \<Rightarrow> ops \<Rightarrow> coenv user_step" where
  "conn_resume fs docroot h env ops =
     (case ce_conns env h of
        None \<Rightarrow> \<lparr>us_env = env, us_ready = [], us_posts = [], us_ops = ops\<rparr>
      | Some c \<Rightarrow>
          (let c' = conn_go fs docroot (case ops h of None \<Rightarrow> 0 | Some op \<Rightarrow> op_result op) c
           in \<lparr>us_env = env\<lparr>ce_conns := (ce_conns env)(h \<mapsto> c')\<rparr>, us_ready = [], us_posts = [],
               us_ops = ops(h := if cn_at c' = Cn_end then None else Some (op_wait h))\<rparr>))"

definition conn_post :: "(nat \<Rightarrow> fd \<times> bool list \<times> string) \<Rightarrow> nat \<Rightarrow> coenv \<Rightarrow> ops \<Rightarrow> coenv user_step" where
  "conn_post who fn env ops =
     \<lparr>us_env = env\<lparr>ce_conns := (ce_conns env)(ce_next env \<mapsto> (case who fn of (f, runs, input) \<Rightarrow> conn_make f runs input)), ce_next := ce_next env + 1\<rparr>,
      us_ready = [(Some (ce_next env), True)], us_posts = [], us_ops = ops\<rparr>"

definition conn_frames :: "filesystem \<Rightarrow> path \<Rightarrow> (nat \<Rightarrow> fd \<times> bool list \<times> string) \<Rightarrow> coenv frame_ops" where
  "conn_frames fs docroot who =
     \<lparr>f_resume = conn_resume fs docroot, f_post = conn_post who,
      f_done = (\<lambda>h env. case ce_conns env h of None \<Rightarrow> False | Some c \<Rightarrow> cn_at c = Cn_end),
      f_destroy = (\<lambda>h env. case ce_conns env h of None \<Rightarrow> env
         | Some c \<Rightarrow> env\<lparr>ce_conns := (ce_conns env)(h := None), ce_closed := UniqueFd_dtor (cn_client c) (ce_closed env)\<rparr>)\<rparr>"

section \<open>The rest of a suspended connection\<close>

text \<open>What \<^verbatim>\<open>HttpConnection\<close> does after a suspension, over the results that are still to come.\<close>

definition recv_rest :: "world \<Rightarrow> string \<Rightarrow> HttpRequest option outcome \<times> string \<times> world" where
  "recv_rest w buffer =
     (case w_recvs w of
        [] \<Rightarrow> (Suspended, buffer, w)
      | Recv_data d # rs \<Rightarrow>
          if length d = 0 then (Returned None, buffer, w\<lparr>w_recvs := rs\<rparr>) else read_loop (w\<lparr>w_recvs := rs\<rparr>) (buffer @ d)
      | Recv_error e # rs \<Rightarrow>
          if e = ETIMEDOUT \<or> e = ECANCELED then (Returned None, buffer, w\<lparr>w_recvs := rs\<rparr>)
          else (Thrown (System_error e), buffer, w\<lparr>w_recvs := rs\<rparr>))"

definition send_rest :: "world \<Rightarrow> string \<Rightarrow> nat \<Rightarrow> unit outcome \<times> world" where
  "send_rest w wire offset =
     (case w_sends w of
        [] \<Rightarrow> (Suspended, w)
      | Sent n # ss \<Rightarrow>
          if n \<le> 0 then (Returned (), w\<lparr>w_sends := ss\<rparr>)
          else write_loop (w\<lparr>w_sends := ss, w_out := w_out w @ take (nat n) (drop offset wire)\<rparr>) wire (offset + nat n)
      | Send_error e # ss \<Rightarrow> (Thrown (System_error e), w\<lparr>w_sends := ss\<rparr>))"

definition fin_write :: "filesystem \<Rightarrow> path \<Rightarrow> UniqueFd \<Rightarrow> HttpRequest \<Rightarrow> string \<Rightarrow> unit outcome \<times> world \<Rightarrow> unit outcome \<times> world" where
  "fin_write fs docroot client req buffer r =
     (case r of
        (Suspended, w) \<Rightarrow> (Suspended, w)
      | (Thrown e, w) \<Rightarrow> (Returned (), w)
      | (Returned u, w) \<Rightarrow> if \<not> keep_alive req then (Returned (), w) else handle_loop fs docroot client w buffer)"

definition fin_read :: "filesystem \<Rightarrow> path \<Rightarrow> UniqueFd \<Rightarrow> HttpRequest option outcome \<times> string \<times> world \<Rightarrow> unit outcome \<times> world" where
  "fin_read fs docroot client r =
     (case r of
        (Suspended, b, w) \<Rightarrow> (Suspended, w)
      | (Thrown e, b, w) \<Rightarrow> (Returned (), w)
      | (Returned None, b, w) \<Rightarrow> (Returned (), w)
      | (Returned (Some req), b, w) \<Rightarrow> fin_write fs docroot client req b (write_all w (to_wire (build_response fs docroot req))))"

fun conn_rest :: "filesystem \<Rightarrow> path \<Rightarrow> UniqueFd \<Rightarrow> conn_at \<Rightarrow> world \<Rightarrow> unit outcome \<times> world" where
  "conn_rest fs docroot client Cn_new w = handle_loop fs docroot client w []"
| "conn_rest fs docroot client (Cn_recv b) w = fin_read fs docroot client (recv_rest w b)"
| "conn_rest fs docroot client (Cn_send req b p ofs) w = fin_write fs docroot client req b (send_rest w p ofs)"
| "conn_rest fs docroot client Cn_end w = (Returned (), w)"

lemma load_next: "load_running w = (case next_run (w_runs w) of (b, r) \<Rightarrow> (b, w\<lparr>w_runs := r\<rparr>))"
  by (simp add: load_running_def next_run_def split: list.split)

lemma read_loop_rest:
  "read_loop w b =
     (case load_running w of
        (False, w1) \<Rightarrow> (Returned None, b, w1)
      | (True, w1) \<Rightarrow>
          (case try_parse_request b of
             Some parsed \<Rightarrow> (Returned (Some (request parsed)), drop (consumed parsed) b, w1)
           | None \<Rightarrow> recv_rest w1 b))"
  unfolding recv_rest_def by (rule read_loop.simps)

lemma write_loop_rest:
  "write_loop w p ofs =
     (if ofs < length p then (case load_running w of (False, w1) \<Rightarrow> (Returned (), w1) | (True, w1) \<Rightarrow> send_rest w1 p ofs)
      else (Returned (), w))"
  unfolding send_rest_def by (rule write_loop.simps)

lemma handle_loop_rest:
  "handle_loop fs docroot client w b =
     (case load_running w of
        (False, w1) \<Rightarrow> (Returned (), w1)
      | (True, w1) \<Rightarrow> if \<not> UniqueFd_valid client then (Returned (), w1) else fin_read fs docroot client (read_request w1 b))"
  by (subst handle_loop.simps) (auto simp: fin_read_def fin_write_def split: prod.split outcome.split option.split bool.split)

text \<open>Cutting the code at its suspensions does not change what it does.\<close>

lemma conn_advance:
  "w_on_scheduler w \<Longrightarrow> runs = w_runs w \<Longrightarrow> conn_loop fs docroot client b runs = (a, r) \<Longrightarrow>
     handle_loop fs docroot client w b = conn_rest fs docroot client a (w\<lparr>w_runs := r\<rparr>)"
  "w_on_scheduler w \<Longrightarrow> runs = w_runs w \<Longrightarrow> conn_read fs docroot client b runs = (a, r) \<Longrightarrow>
     fin_read fs docroot client (read_loop w b) = conn_rest fs docroot client a (w\<lparr>w_runs := r\<rparr>)"
  "w_on_scheduler w \<Longrightarrow> runs = w_runs w \<Longrightarrow> conn_write fs docroot client req b p ofs runs = (a, r) \<Longrightarrow>
     fin_write fs docroot client req b (write_loop w p ofs) = conn_rest fs docroot client a (w\<lparr>w_runs := r\<rparr>)"
proof (induction fs docroot client b runs and fs docroot client b runs and fs docroot client req b p ofs runs
    arbitrary: w a r and w a r and w a r rule: conn_loop_conn_read_conn_write.induct)
  case (1 fs docroot client b runs)
  obtain run r1 where n: "next_run runs = (run, r1)" by (metis surj_pair)
  show ?case
  proof (cases "run \<and> UniqueFd_valid client")
    case True
    then show ?thesis
      using "1.IH" [of run r1 "w\<lparr>w_runs := r1\<rparr>" a r] "1.prems" n
      by (simp add: conn_loop.simps [of fs docroot client b "w_runs w"] handle_loop_rest [of fs docroot client w] load_next read_request_def)
  next
    case False
    then show ?thesis
      using "1.prems" n
      by (auto simp: conn_loop.simps [of fs docroot client b "w_runs w"] handle_loop_rest [of fs docroot client w] load_next
          split: bool.splits)
  qed
next
  case (2 fs docroot client b runs)
  obtain run r1 where n: "next_run runs = (run, r1)" by (metis surj_pair)
  show ?case
  proof (cases "run \<and> try_parse_request b \<noteq> None")
    case True
    then obtain parsed where "try_parse_request b = Some parsed" by blast
    with True show ?thesis
      using "2.IH" [of run r1 parsed "w\<lparr>w_runs := r1\<rparr>" a r] "2.prems" n
      by (simp add: conn_read.simps [of fs docroot client b "w_runs w"] read_loop_rest [of w] load_next fin_read_def write_all_def)
  next
    case False
    then show ?thesis
      using "2.prems" n
      by (auto simp: conn_read.simps [of fs docroot client b "w_runs w"] read_loop_rest [of w] load_next fin_read_def
          split: bool.splits)
  qed
next
  case (3 fs docroot client req b p ofs runs)
  obtain run r1 where n: "next_run runs = (run, r1)" by (metis surj_pair)
  show ?case
    using "3.IH"(1) [of run r1 "w\<lparr>w_runs := r1\<rparr>" a r] "3.IH"(2) [of w a r] "3.prems" n
    by (auto simp: conn_write.simps [of fs docroot client req b p ofs "w_runs w"] write_loop_rest [of w] load_next fin_write_def
        split: bool.splits if_splits)
qed

text \<open>A connection is where its history has led it: whatever results are still to come, the rest of the
  connection is the rest of \<^verbatim>\<open>handle_connection\<close> on the whole script.\<close>

definition conn_world :: "bool list \<Rightarrow> recv_event list \<Rightarrow> send_event list \<Rightarrow> string \<Rightarrow> world" where
  "conn_world runs rs ss out = \<lparr>w_on_scheduler = True, w_runs = runs, w_recvs = rs, w_sends = ss, w_out = out\<rparr>"

lemma conn_world_simps [simp]:
  "w_on_scheduler (conn_world runs rs ss out)" "w_runs (conn_world runs rs ss out) = runs"
  "w_recvs (conn_world runs rs ss out) = rs" "w_sends (conn_world runs rs ss out) = ss" "w_out (conn_world runs rs ss out) = out"
  "(conn_world runs rs ss out)\<lparr>w_runs := runs'\<rparr> = conn_world runs' rs ss out"
  "(conn_world runs rs ss out)\<lparr>w_recvs := rs'\<rparr> = conn_world runs rs' ss out"
  "(conn_world runs rs ss out)\<lparr>w_sends := ss'\<rparr> = conn_world runs rs ss' out"
  "(conn_world runs rs ss out)\<lparr>w_out := out'\<rparr> = conn_world runs rs ss out'"
  by (simp_all add: conn_world_def)

definition conn_ok :: "filesystem \<Rightarrow> path \<Rightarrow> conn \<Rightarrow> bool" where
  "conn_ok fs docroot c \<longleftrightarrow> (\<forall>rs ss. handle_connection fs docroot (cn_client c)
       (conn_world (cn_script c) (cn_recvs c @ rs) (cn_sends c @ ss) []) =
     conn_rest fs docroot (cn_client c) (cn_at c) (conn_world (cn_runs c) rs ss (cn_out c)))"

lemma conn_make_ok: "conn_ok fs docroot (conn_make f runs input)"
  by (simp add: conn_ok_def conn_make_def handle_connection_def)

lemma after_recv_rest:
  assumes "after_recv fs docroot client b ev runs = (a, r)"
  shows "conn_rest fs docroot client (Cn_recv b) (conn_world runs (ev # rs) ss out) =
    conn_rest fs docroot client a (conn_world r rs ss out)"
proof (cases ev)
  case (Recv_data d)
  then show ?thesis
    using assms conn_advance(2) [of "conn_world runs rs ss out" runs fs docroot client "b @ d" a r]
    by (auto simp: recv_rest_def fin_read_def split: if_splits)
next
  case (Recv_error e)
  then show ?thesis using assms by (auto simp: recv_rest_def fin_read_def)
qed

lemma after_send_rest:
  assumes "after_send fs docroot client req b p ofs ev runs = (a, r)"
  shows "conn_rest fs docroot client (Cn_send req b p ofs) (conn_world runs rs (ev # ss) out) =
    conn_rest fs docroot client a (conn_world r rs ss (out @ (case ev of Sent n \<Rightarrow> take (nat n) (drop ofs p) | Send_error e \<Rightarrow> [])))"
proof (cases ev)
  case (Sent n)
  then show ?thesis
    using assms conn_advance(1) [of "conn_world runs rs ss out" runs fs docroot client b a r]
      conn_advance(3) [of "conn_world runs rs ss (out @ take (nat n) (drop ofs p))" runs fs docroot client req b p "ofs + nat n" a r]
    by (auto simp: send_rest_def fin_write_def split: if_splits)
next
  case (Send_error e)
  then show ?thesis using assms by (auto simp: send_rest_def fin_write_def)
qed

lemma conn_go_ok:
  assumes "conn_ok fs docroot c"
  shows "conn_ok fs docroot (conn_go fs docroot res c)"
proof (cases "cn_at c")
  case Cn_new
  obtain a r where "conn_loop fs docroot (cn_client c) [] (cn_runs c) = (a, r)" by (metis surj_pair)
  then show ?thesis
    using assms Cn_new conn_advance(1) [of "conn_world (cn_runs c) rs ss (cn_out c)" "cn_runs c" fs docroot "cn_client c" "[]" a r for rs ss]
    by (simp add: conn_ok_def conn_go_def)
next
  case (Cn_recv b)
  obtain a r where g: "after_recv fs docroot (cn_client c) b (recv_of res (cn_in c)) (cn_runs c) = (a, r)" by (metis surj_pair)
  then show ?thesis using assms Cn_recv after_recv_rest [OF g] by (simp add: conn_ok_def conn_go_def)
next
  case (Cn_send req b p ofs)
  obtain a r where g: "after_send fs docroot (cn_client c) req b p ofs (send_of res) (cn_runs c) = (a, r)" by (metis surj_pair)
  have "(case send_of res of Sent n \<Rightarrow> take (nat n) (drop ofs p) | Send_error e \<Rightarrow> []) = take (nat res) (drop ofs p)"
    by (simp add: send_of_def)
  then show ?thesis using assms Cn_send after_send_rest [OF g] g by (simp add: conn_ok_def conn_go_def)
next
  case Cn_end
  then show ?thesis using assms by (simp add: conn_go_def)
qed

lemma conn_not_new:
  "fst (conn_loop fs docroot client b runs) \<noteq> Cn_new" "fst (conn_read fs docroot client b runs) \<noteq> Cn_new"
  "fst (conn_write fs docroot client req b p ofs runs) \<noteq> Cn_new"
proof (induction fs docroot client b runs and fs docroot client b runs and fs docroot client req b p ofs runs
    rule: conn_loop_conn_read_conn_write.induct)
  case (1 fs docroot client b runs)
  then show ?case by (subst conn_loop.simps) (auto split: prod.split bool.split)
next
  case (2 fs docroot client b runs)
  then show ?case by (subst conn_read.simps) (auto split: prod.split bool.split option.split)
next
  case (3 fs docroot client req b p ofs runs)
  then show ?case by (subst conn_write.simps) (auto split: prod.split bool.split)
qed

lemma conn_go_not_new: "cn_at (conn_go fs docroot res c) \<noteq> Cn_new"
proof -
  have r: "fst (after_recv fs docroot client b ev runs) \<noteq> Cn_new" for client b ev runs
    using conn_not_new(2) by (cases ev) auto
  have s: "fst (after_send fs docroot client req b p ofs ev runs) \<noteq> Cn_new" for client req b p ofs ev runs
    using conn_not_new(1,3) by (cases ev) auto
  show ?thesis
    using conn_not_new(1) [of fs docroot "cn_client c" "[]" "cn_runs c"]
      r [of "cn_client c" _ "recv_of res (cn_in c)" "cn_runs c"] s [of "cn_client c" _ _ _ _ "send_of res" "cn_runs c"]
    by (auto simp: conn_go_def split: conn_at.split prod.split) (metis fst_conv)+
qed

lemma conn_go_client [simp]: "cn_client (conn_go fs docroot res c) = cn_client c"
  by (auto simp: conn_go_def split: conn_at.split prod.split)

section \<open>The scheduler keeps one item or one operation per connection\<close>

definition items :: "handle \<Rightarrow> ReadyItem list \<Rightarrow> ReadyItem list" where
  "items h q = filter (\<lambda>i. ri_handle i = Some h) q"

lemma items_simps [simp]:
  "items h [] = []" "items h (xs @ ys) = items h xs @ items h ys"
  "items h (i # xs) = (if ri_handle i = Some h then i # items h xs else items h xs)"
  by (simp_all add: items_def)

definition waits_ok :: "handle \<Rightarrow> OperationBase option \<Rightarrow> ReadyItem list \<Rightarrow> bool" where
  "waits_ok h o1 q \<longleftrightarrow> (case o1 of None \<Rightarrow> False
     | Some op \<Rightarrow> op_continuation op = Some h \<and> op_scheduler op \<and>
         q = (if op_completed op then [\<lparr>ri_handle = Some h, ri_destroy = False\<rparr>] else []))"

definition slot_ok :: "filesystem \<Rightarrow> path \<Rightarrow> coenv \<Rightarrow> ops \<Rightarrow> ReadyItem list \<Rightarrow> handle \<Rightarrow> bool" where
  "slot_ok fs docroot env ops q h \<longleftrightarrow>
     (case ce_conns env h of
        None \<Rightarrow> items h q = [] \<and> ops h = None
      | Some c \<Rightarrow> h < ce_next env \<and> conn_ok fs docroot c \<and>
          (if cn_at c = Cn_new then items h q = [\<lparr>ri_handle = Some h, ri_destroy = True\<rparr>] \<and> ops h = None
           else if cn_at c = Cn_end then items h q = [] \<and> ops h = None
           else waits_ok h (ops h) (items h q)))"

definition co_inv :: "filesystem \<Rightarrow> path \<Rightarrow> ReadyItem list \<Rightarrow> coenv sched \<Rightarrow> bool" where
  "co_inv fs docroot q s \<longleftrightarrow> (\<forall>h. slot_ok fs docroot (sc_env s) (sc_ops s) q h)"

text \<open>A connection by itself: its state, with the result that is to resume it.\<close>

definition solo_of :: "coenv sched \<Rightarrow> handle \<Rightarrow> (conn \<times> int option) option" where
  "solo_of s h =
     (case ce_conns (sc_env s) h of
        None \<Rightarrow> None
      | Some c \<Rightarrow> Some (c, if cn_at c = Cn_new then Some 0
          else case sc_ops s h of None \<Rightarrow> None | Some op \<Rightarrow> if op_completed op then Some (op_result op) else None))"

definition solo_resume :: "filesystem \<Rightarrow> path \<Rightarrow> (conn \<times> int option) option \<Rightarrow> (conn \<times> int option) option" where
  "solo_resume fs docroot x =
     (case x of
        Some (c, Some res) \<Rightarrow>
          (let c' = conn_go fs docroot res c in if cn_at c = Cn_new \<and> cn_at c' = Cn_end then None else Some (c', None))
      | _ \<Rightarrow> x)"

definition solo_cqe :: "handle \<Rightarrow> cqe \<Rightarrow> (conn \<times> int option) option \<Rightarrow> (conn \<times> int option) option" where
  "solo_cqe h q x =
     (case x of
        Some (c, None) \<Rightarrow> if fst q = Some h \<and> cn_at c \<noteq> Cn_end then Some (c, Some (fst (snd q))) else x
      | _ \<Rightarrow> x)"

definition solo_round :: "filesystem \<Rightarrow> path \<Rightarrow> handle \<Rightarrow> round \<Rightarrow> (conn \<times> int option) option \<Rightarrow> (conn \<times> int option) option" where
  "solo_round fs docroot h r x = fold (solo_cqe h) (rd_cqes r) (solo_resume fs docroot x)"

lemma conn_frames_simps [simp]:
  "f_resume (conn_frames fs docroot who) = conn_resume fs docroot" "f_post (conn_frames fs docroot who) = conn_post who"
  "f_done (conn_frames fs docroot who) h env = (case ce_conns env h of None \<Rightarrow> False | Some c \<Rightarrow> cn_at c = Cn_end)"
  "f_destroy (conn_frames fs docroot who) h env = (case ce_conns env h of None \<Rightarrow> env
     | Some c \<Rightarrow> env\<lparr>ce_conns := (ce_conns env)(h := None), ce_closed := UniqueFd_dtor (cn_client c) (ce_closed env)\<rparr>)"
  by (simp_all add: conn_frames_def)

lemma co_invD: "co_inv fs docroot q s \<Longrightarrow> slot_ok fs docroot (sc_env s) (sc_ops s) q h"
  by (simp add: co_inv_def)

text \<open>The items of a connection that is to be resumed.\<close>

lemma slot_item:
  assumes "slot_ok fs docroot env ops (i # q) h" "ri_handle i = Some h"
  obtains c where "ce_conns env h = Some c" "h < ce_next env" "conn_ok fs docroot c" "items h q = []" "cn_at c \<noteq> Cn_end"
    "ri_destroy i \<longleftrightarrow> cn_at c = Cn_new"
    "if cn_at c = Cn_new then ops h = None else \<exists>op. ops h = Some op \<and> op_completed op"
  using assms by (auto simp: slot_ok_def waits_ok_def split: option.splits if_splits)

lemma resume_slot:
  assumes s'_def: "s' = resume_ready (conn_frames fs docroot who) i s"
    and inv: "co_inv fs docroot (i # q) s" and h: "ri_handle i = Some h"
  shows "solo_of s' h = solo_resume fs docroot (solo_of s h) \<and> slot_ok fs docroot (sc_env s') (sc_ops s') q h \<and>
    ce_next (sc_env s') = ce_next (sc_env s) \<and> sc_ready s' = sc_ready s \<and> sc_posts s' = sc_posts s \<and>
    (\<forall>k. k \<noteq> h \<longrightarrow> ce_conns (sc_env s') k = ce_conns (sc_env s) k \<and> sc_ops s' k = sc_ops s k)"
proof -
  from slot_item [OF co_invD [OF inv, of h] h] obtain c where
    c: "ce_conns (sc_env s) h = Some c" "h < ce_next (sc_env s)" "conn_ok fs docroot c" "items h q = []" "cn_at c \<noteq> Cn_end"
      "ri_destroy i \<longleftrightarrow> cn_at c = Cn_new"
      "if cn_at c = Cn_new then sc_ops s h = None else \<exists>op. sc_ops s h = Some op \<and> op_completed op" .
  define res where "res = (case sc_ops s h of None \<Rightarrow> 0 | Some op \<Rightarrow> op_result op)"
  have new: "cn_at (conn_go fs docroot res c) \<noteq> Cn_new" by (rule conn_go_not_new)
  have so: "solo_of s h = Some (c, Some res)"
    using c(1,7) by (auto simp: solo_of_def res_def split: if_splits)
  have ok: "conn_ok fs docroot (conn_go fs docroot res c)" by (rule conn_go_ok [OF c(3)])
  show ?thesis
    unfolding s'_def resume_ready_def h
    using c(1-6) new ok so
    by (simp add: conn_resume_def ready_items_def res_def [symmetric] solo_resume_def solo_of_def slot_ok_def waits_ok_def op_wait_def
        OperationBase_init_def Let_def)
qed

text \<open>A connection whose own part of the state is kept stays as it is.\<close>

lemma slot_frame:
  assumes "ce_conns env' k = ce_conns env k" "ops' k = ops k" "items k q' = items k q" "ce_next env \<le> ce_next env'"
    "slot_ok fs docroot env ops q k"
  shows "slot_ok fs docroot env' ops' q' k"
  using assms by (auto simp: slot_ok_def split: option.splits if_splits)

lemma solo_frame:
  "ce_conns (sc_env s') k = ce_conns (sc_env s) k \<Longrightarrow> sc_ops s' k = sc_ops s k \<Longrightarrow> solo_of s' k = solo_of s k"
  by (simp add: solo_of_def split: option.split)

lemma resume_co:
  fixes who :: "nat \<Rightarrow> fd \<times> bool list \<times> string"
  assumes inv: "co_inv fs docroot (i # q) s"
  defines "F \<equiv> conn_frames fs docroot who"
  shows "co_inv fs docroot q (resume_ready F i s)"
    and "solo_of (resume_ready F i s) h = (if ri_handle i = Some h then solo_resume fs docroot (solo_of s h) else solo_of s h)"
    and "sc_ready (resume_ready F i s) = sc_ready s"
    and "ce_next (sc_env (resume_ready F i s)) = ce_next (sc_env s)"
proof -
  let ?s = "resume_ready F i s"
  have all: "co_inv fs docroot q ?s \<and> solo_of ?s h = (if ri_handle i = Some h then solo_resume fs docroot (solo_of s h) else solo_of s h) \<and>
    sc_ready ?s = sc_ready s \<and> ce_next (sc_env ?s) = ce_next (sc_env s)"
  proof (cases "ri_handle i")
    case None
    then have "co_inv fs docroot q s"
      unfolding co_inv_def by (intro allI slot_frame [OF _ _ _ _ co_invD [OF inv]]) auto
    with None show ?thesis by (simp add: resume_ready_def)
  next
    case (Some k)
    note r = resume_slot [OF refl inv Some, of who, folded F_def]
    have "slot_ok fs docroot (sc_env ?s) (sc_ops ?s) q j" for j
      using r Some by (cases "j = k") (auto intro: slot_frame [OF _ _ _ _ co_invD [OF inv, of j]])
    moreover have "solo_of ?s h = solo_of s h" if "h \<noteq> k"
      using r that by (intro solo_frame) auto
    ultimately show ?thesis using r Some by (auto simp: co_inv_def)
  qed
  from all show "co_inv fs docroot q ?s" "solo_of ?s h = (if ri_handle i = Some h then solo_resume fs docroot (solo_of s h) else solo_of s h)"
    "sc_ready ?s = sc_ready s" "ce_next (sc_env ?s) = ce_next (sc_env s)" by auto
qed

text \<open>Every connection that is ready is resumed once.\<close>

lemma slot_once: "slot_ok fs docroot env ops q h \<Longrightarrow> length (items h q) \<le> 1"
  by (auto simp: slot_ok_def waits_ok_def split: option.splits if_splits)

lemma fold_resume_co:
  fixes who :: "nat \<Rightarrow> fd \<times> bool list \<times> string"
  assumes "co_inv fs docroot L s" "sc_ready s = []"
  defines "F \<equiv> conn_frames fs docroot who"
  shows "co_inv fs docroot [] (fold (resume_ready F) L s) \<and> sc_ready (fold (resume_ready F) L s) = [] \<and>
    ce_next (sc_env (fold (resume_ready F) L s)) = ce_next (sc_env s) \<and>
    solo_of (fold (resume_ready F) L s) h = (if items h L = [] then solo_of s h else solo_resume fs docroot (solo_of s h))"
  using assms(1,2)
proof (induction L arbitrary: s)
  case Nil
  then show ?case by simp
next
  case (Cons i L)
  note r = resume_co [OF Cons.prems(1), of who, folded F_def]
  have "length (items h (i # L)) \<le> 1" by (rule slot_once [OF co_invD [OF Cons.prems(1)]])
  with Cons.IH [OF r(1)] Cons.prems(2) r(2) [of h] r(3,4) show ?case by (auto split: if_splits)
qed

lemma solo_resume_idle:
  assumes "slot_ok fs docroot (sc_env s) (sc_ops s) q h" "items h q = []"
  shows "solo_resume fs docroot (solo_of s h) = solo_of s h"
  using assms by (auto simp: slot_ok_def waits_ok_def solo_of_def solo_resume_def split: option.splits if_splits)

lemma drain_ready_co:
  fixes who :: "nat \<Rightarrow> fd \<times> bool list \<times> string"
  assumes inv: "co_inv fs docroot (sc_ready s) s"
  defines "F \<equiv> conn_frames fs docroot who"
  shows "co_inv fs docroot [] (drain_ready F s) \<and> sc_ready (drain_ready F s) = [] \<and>
    ce_next (sc_env (drain_ready F s)) = ce_next (sc_env s) \<and>
    solo_of (drain_ready F s) h = solo_resume fs docroot (solo_of s h)"
proof -
  have "co_inv fs docroot (sc_ready s) (s\<lparr>sc_ready := []\<rparr>)" using inv by (simp add: co_inv_def)
  moreover have "solo_of (s\<lparr>sc_ready := []\<rparr>) h = solo_of s h" by (rule solo_frame) simp_all
  ultimately show ?thesis
    using fold_resume_co [of fs docroot "sc_ready s" "s\<lparr>sc_ready := []\<rparr>" who h]
      solo_resume_idle [OF co_invD [OF inv], of h]
    by (auto simp: drain_ready_def F_def)
qed

text \<open>A posted function starts a new connection and leaves the others alone.\<close>

lemma run_post_co:
  fixes who :: "nat \<Rightarrow> fd \<times> bool list \<times> string" and fn :: nat
  assumes inv: "co_inv fs docroot (sc_ready s) s"
  defines "s' \<equiv> run_post (conn_frames fs docroot who) fn s"
  shows "co_inv fs docroot (sc_ready s') s'" "ce_next (sc_env s') = ce_next (sc_env s) + 1"
    "h < ce_next (sc_env s) \<Longrightarrow> solo_of s' h = solo_of s h"
proof -
  let ?n = "ce_next (sc_env s)"
  have s': "ce_conns (sc_env s') = (ce_conns (sc_env s))(?n \<mapsto> (case who fn of (f, runs, input) \<Rightarrow> conn_make f runs input))"
    "ce_next (sc_env s') = ?n + 1" "sc_ops s' = sc_ops s"
    "sc_ready s' = sc_ready s @ [\<lparr>ri_handle = Some ?n, ri_destroy = True\<rparr>]"
    by (simp_all add: s'_def run_post_def conn_post_def ready_items_def)
  have "ce_conns (sc_env s) ?n = None"
    using co_invD [OF inv, of ?n] by (auto simp: slot_ok_def split: option.splits)
  then have n: "slot_ok fs docroot (sc_env s') (sc_ops s') (sc_ready s') ?n"
    using co_invD [OF inv, of ?n] conn_make_ok by (auto simp: slot_ok_def s' conn_make_def split: prod.split)
  have "slot_ok fs docroot (sc_env s') (sc_ops s') (sc_ready s') k" for k
    using n by (cases "k = ?n") (auto intro: slot_frame [OF _ _ _ _ co_invD [OF inv, of k]] simp: s')
  then show "co_inv fs docroot (sc_ready s') s'" by (simp add: co_inv_def)
  show "ce_next (sc_env s') = ?n + 1" by (rule s'(2))
  show "solo_of s' h = solo_of s h" if "h < ?n" using that by (intro solo_frame) (auto simp: s')
qed

lemma fold_run_post_co:
  assumes "co_inv fs docroot (sc_ready s) s"
  shows "co_inv fs docroot (sc_ready (fold (run_post (conn_frames fs docroot who)) ps s)) (fold (run_post (conn_frames fs docroot who)) ps s) \<and>
    ce_next (sc_env s) \<le> ce_next (sc_env (fold (run_post (conn_frames fs docroot who)) ps s)) \<and>
    (h < ce_next (sc_env s) \<longrightarrow> solo_of (fold (run_post (conn_frames fs docroot who)) ps s) h = solo_of s h)"
  using assms
proof (induction ps arbitrary: s)
  case Nil
  then show ?case by simp
next
  case (Cons p ps)
  note r = run_post_co [OF Cons.prems, where who = who and fn = p]
  with Cons.IH [OF r(1)] r(2,3) show ?case by auto
qed

text \<open>A completion concerns the connection whose operation it names.\<close>

lemma handle_cqe_co:
  assumes inv: "co_inv fs docroot (sc_ready s) s"
  shows "co_inv fs docroot (sc_ready (handle_cqe q s)) (handle_cqe q s) \<and> sc_env (handle_cqe q s) = sc_env s \<and>
    solo_of (handle_cqe q s) h = solo_cqe h q (solo_of s h)"
proof (cases "(q, s)" rule: handle_cqe.cases)
  case (1 res fl s1)
  then show ?thesis using inv by (simp add: solo_cqe_def split: option.split)
next
  case (2 i res fl s1)
  have sl: "slot_ok fs docroot (sc_env s) (sc_ops s) (sc_ready s) i" by (rule co_invD [OF inv])
  show ?thesis
  proof (cases "\<exists>op. sc_ops s i = Some op \<and> \<not> op_completed op")
    case False
    then have s': "sc_env (handle_cqe q s) = sc_env s" "sc_ops (handle_cqe q s) = sc_ops s" "sc_ready (handle_cqe q s) = sc_ready s"
      using 2 by (auto simp: op_complete_def split: option.split)
    have "solo_of s i = Some (c, None) \<Longrightarrow> cn_at c = Cn_end" for c
      using sl False by (auto simp: slot_ok_def waits_ok_def solo_of_def split: option.splits if_splits)
    then have "solo_cqe h q (solo_of s h) = solo_of s h"
      using 2 by (auto simp: solo_cqe_def split: option.split)
    then show ?thesis using inv s' by (auto simp: co_inv_def intro: solo_frame)
  next
    case True
    then obtain op where op: "sc_ops s i = Some op" "\<not> op_completed op" by blast
    then obtain c where c: "ce_conns (sc_env s) i = Some c" "cn_at c \<noteq> Cn_new" "cn_at c \<noteq> Cn_end" "i < ce_next (sc_env s)"
      "conn_ok fs docroot c" "op_continuation op = Some i" "op_scheduler op" "items i (sc_ready s) = []"
      using sl by (auto simp: slot_ok_def waits_ok_def split: option.splits if_splits)
    let ?op = "op\<lparr>op_completed := True, op_result := res, op_flags := fl\<rparr>"
    have s': "sc_env (handle_cqe q s) = sc_env s" "sc_ops (handle_cqe q s) = (sc_ops s)(i \<mapsto> ?op)"
      "sc_ready (handle_cqe q s) = sc_ready s @ [\<lparr>ri_handle = Some i, ri_destroy = False\<rparr>]"
      using 2 op c(6,7) by (auto simp: op_complete_def enqueue_def)
    have "slot_ok fs docroot (sc_env (handle_cqe q s)) (sc_ops (handle_cqe q s)) (sc_ready (handle_cqe q s)) k" for k
    proof (cases "k = i")
      case True
      with c show ?thesis by (simp add: slot_ok_def waits_ok_def s')
    next
      case False
      then show ?thesis by (intro slot_frame [OF _ _ _ _ co_invD [OF inv, of k]]) (simp_all add: s')
    qed
    moreover have "solo_of (handle_cqe q s) i = Some (c, Some res)" using c(2) by (simp add: solo_of_def s' c(1))
    moreover have "solo_of s i = Some (c, None)" using c(2) op by (simp add: solo_of_def c(1))
    moreover have "solo_of (handle_cqe q s) h = solo_of s h" if "h \<noteq> i" using that by (intro solo_frame) (simp_all add: s')
    moreover have "fst q = Some i" "fst (snd q) = res" using 2 by simp_all
    ultimately have "\<forall>k. slot_ok fs docroot (sc_env (handle_cqe q s)) (sc_ops (handle_cqe q s)) (sc_ready (handle_cqe q s)) k"
      "solo_of (handle_cqe q s) h = solo_cqe h q (solo_of s h)"
      using c(3) by (cases "h = i"; auto simp: solo_cqe_def split: option.split)+
    then show ?thesis by (simp add: co_inv_def s')
  qed
qed

lemma fold_cqe_co:
  assumes "co_inv fs docroot (sc_ready s) s"
  shows "co_inv fs docroot (sc_ready (fold handle_cqe qs s)) (fold handle_cqe qs s) \<and> sc_env (fold handle_cqe qs s) = sc_env s \<and>
    solo_of (fold handle_cqe qs s) h = fold (solo_cqe h) qs (solo_of s h)"
  using assms
proof (induction qs arbitrary: s)
  case Nil
  then show ?case by simp
next
  case (Cons q qs)
  note r = handle_cqe_co [OF Cons.prems, of q]
  with Cons.IH [OF conjunct1 [OF r]] r [of h] show ?case by simp
qed

text \<open>What other threads do to a worker of the server: they post accepted connections and stop the loop.\<close>

fun ext_plain :: "ext \<Rightarrow> bool" where
  "ext_plain (Ext_enqueue h d) = False"
| "ext_plain _ = True"

definition round_plain :: "round \<Rightarrow> bool" where
  "round_plain r = (list_all ext_plain (rd_before r) \<and> list_all ext_plain (rd_between r))"

lemma fold_ext_plain:
  "list_all ext_plain es \<Longrightarrow> sc_env (fold ext_step es s) = sc_env s \<and> sc_ops (fold ext_step es s) = sc_ops s \<and>
     sc_ready (fold ext_step es s) = sc_ready s"
proof (induction es arbitrary: s)
  case Nil
  then show ?case by simp
next
  case (Cons e es)
  then show ?case by (cases e) (auto simp: sched_stop_def)
qed

lemma co_inv_cong:
  "sc_env s' = sc_env s \<Longrightarrow> sc_ops s' = sc_ops s \<Longrightarrow> co_inv fs docroot q s' = co_inv fs docroot q s"
  by (simp add: co_inv_def)

lemma run_round_co:
  fixes who :: "nat \<Rightarrow> fd \<times> bool list \<times> string"
  assumes inv: "co_inv fs docroot (sc_ready s) s" and plain: "round_plain r"
  defines "s' \<equiv> run_round (conn_frames fs docroot who) r s"
  shows "co_inv fs docroot (sc_ready s') s' \<and> ce_next (sc_env s) \<le> ce_next (sc_env s') \<and>
    (\<forall>k c. ce_conns (sc_env s') k = Some c \<longrightarrow> cn_at c \<noteq> Cn_new) \<and>
    (h < ce_next (sc_env s) \<longrightarrow> solo_of s' h = solo_round fs docroot h r (solo_of s h))"
proof -
  let ?F = "conn_frames fs docroot who"
  define s1 where "s1 = fold ext_step (rd_before r) s"
  define s2 where "s2 = drain_posts ?F s1"
  define s3 where "s3 = fold ext_step (rd_between r) s2"
  define s4 where "s4 = drain_ready ?F s3"
  have e1: "sc_env s1 = sc_env s" "sc_ops s1 = sc_ops s" "sc_ready s1 = sc_ready s"
    using plain fold_ext_plain unfolding s1_def round_plain_def by blast+
  have "co_inv fs docroot (sc_ready (s1\<lparr>sc_posts := []\<rparr>)) (s1\<lparr>sc_posts := []\<rparr>)"
    using inv e1 by (simp add: co_inv_def)
  moreover have "solo_of (s1\<lparr>sc_posts := []\<rparr>) h = solo_of s h" using e1 by (intro solo_frame) simp_all
  ultimately have p: "co_inv fs docroot (sc_ready s2) s2" "ce_next (sc_env s) \<le> ce_next (sc_env s2)"
    "h < ce_next (sc_env s) \<Longrightarrow> solo_of s2 h = solo_of s h"
    using fold_run_post_co [of fs docroot "s1\<lparr>sc_posts := []\<rparr>" who "sc_posts s1" h] e1 by (auto simp: s2_def drain_posts_def)
  have e3: "sc_env s3 = sc_env s2" "sc_ops s3 = sc_ops s2" "sc_ready s3 = sc_ready s2"
    using plain fold_ext_plain unfolding s3_def round_plain_def by blast+
  have "co_inv fs docroot (sc_ready s3) s3" using p(1) e3 by (simp add: co_inv_def)
  note d = drain_ready_co [OF this, of who h, folded s4_def]
  then have i4: "co_inv fs docroot (sc_ready s4) s4" by simp
  have new: "cn_at c \<noteq> Cn_new" if "ce_conns (sc_env s4) k = Some c" for k c
    using co_invD [of fs docroot "[]" s4 k] d that by (auto simp: slot_ok_def)
  have "solo_of s3 h = solo_of s2 h" using e3 by (intro solo_frame) simp_all
  with fold_cqe_co [OF i4, of "rd_cqes r" h] d p(2,3) e3 new show ?thesis
    by (auto simp: s'_def run_round_def s1_def [symmetric] s2_def [symmetric] s3_def [symmetric] s4_def [symmetric] solo_round_def)
qed

text \<open>Who the connections are: the \<open>h\<close>-th posted function has started connection \<open>h\<close>, and what it has received is
  what its client has sent.\<close>

definition received :: "recv_event list \<Rightarrow> string" where
  "received rs = concat (map (\<lambda>e. case e of Recv_data d \<Rightarrow> d | Recv_error _ \<Rightarrow> []) rs)"

definition conn_from :: "fd \<times> bool list \<times> string \<Rightarrow> conn \<Rightarrow> bool" where
  "conn_from x c = (case x of (f, runs, input) \<Rightarrow>
     cn_client c = UniqueFd_make f False \<and> cn_script c = runs \<and> received (cn_recvs c) @ cn_in c = input)"

definition from_inv :: "(nat \<Rightarrow> fd \<times> bool list \<times> string) \<Rightarrow> coenv sched \<Rightarrow> bool" where
  "from_inv who s \<longleftrightarrow> ce_next (sc_env s) = length (sc_ran s) \<and>
     (\<forall>h c. ce_conns (sc_env s) h = Some c \<longrightarrow> h < length (sc_ran s) \<and> conn_from (who (sc_ran s ! h)) c)"

lemma conn_go_from: "conn_from x c \<Longrightarrow> conn_from x (conn_go fs docroot res c)"
  by (auto simp: conn_from_def conn_go_def received_def recv_of_def split: prod.splits conn_at.split)

lemma from_inv_cong:
  "sc_env s' = sc_env s \<Longrightarrow> sc_ran s' = sc_ran s \<Longrightarrow> from_inv who s' = from_inv who s"
  by (simp add: from_inv_def)

lemma resume_from:
  assumes "from_inv who s"
  shows "from_inv who (resume_ready (conn_frames fs docroot who') i s)"
proof (cases "ri_handle i")
  case None
  with assms show ?thesis by (simp add: resume_ready_def)
next
  case (Some h)
  with assms show ?thesis
    by (auto simp: resume_ready_def Let_def conn_resume_def from_inv_def conn_go_from split: option.splits if_splits)
qed

lemma run_post_from:
  assumes "from_inv who s"
  shows "from_inv who (run_post (conn_frames fs docroot who) fn s)"
  using assms
  by (auto simp: run_post_def conn_post_def from_inv_def nth_append conn_from_def conn_make_def received_def
      intro: less_SucI split: prod.split if_splits)

lemma run_round_from:
  assumes "from_inv who s" "round_plain r"
  shows "from_inv who (run_round (conn_frames fs docroot who) r s)"
proof -
  have ext: "from_inv who (fold ext_step es s)" if "list_all ext_plain es" "from_inv who s" for es s
    using that fold_ext_plain [of es s] by (simp add: from_inv_def)
  have ps: "from_inv who (fold (run_post (conn_frames fs docroot who)) xs s)" if "from_inv who s" for xs s
    using that by (induction xs arbitrary: s) (simp_all add: run_post_from)
  have rs: "from_inv who (fold (resume_ready (conn_frames fs docroot who)) xs s)" if "from_inv who s" for xs s
    using that by (induction xs arbitrary: s) (simp_all add: resume_from)
  have "sc_env (handle_cqe q s) = sc_env s" for q and s :: "coenv sched"
    by (cases "(q, s)" rule: handle_cqe.cases) (auto split: option.split prod.split)
  then have cq: "sc_env (fold handle_cqe qs s) = sc_env s" for qs and s :: "coenv sched"
    by (induction qs arbitrary: s) simp_all
  have "from_inv who (drain_posts (conn_frames fs docroot who) (fold ext_step (rd_before r) s))"
    unfolding drain_posts_def
    by (rule ps, subst from_inv_cong [of _ "fold ext_step (rd_before r) s"]) (use ext assms in \<open>simp_all add: round_plain_def\<close>)
  then have "from_inv who (drain_ready (conn_frames fs docroot who)
      (fold ext_step (rd_between r) (drain_posts (conn_frames fs docroot who) (fold ext_step (rd_before r) s))))"
    unfolding drain_ready_def
    by (intro rs, subst from_inv_cong [of _ "fold ext_step (rd_between r) (drain_posts (conn_frames fs docroot who) (fold ext_step (rd_before r) s))"])
      (use ext assms(2) in \<open>simp_all add: round_plain_def\<close>)
  then show ?thesis by (simp add: run_round_def from_inv_def cq)
qed

section \<open>Properties\<close>

text \<open>A worker that has run some iterations of its loop, from its construction.\<close>

definition worker_after :: "filesystem \<Rightarrow> path \<Rightarrow> (nat \<Rightarrow> fd \<times> bool list \<times> string) \<Rightarrow> (nat \<Rightarrow> int) \<Rightarrow> nat \<Rightarrow> round list \<Rightarrow> coenv sched result" where
  "worker_after fs docroot who queue_init entries rds =
     (case UringScheduler_make queue_init coenv_init entries of
        Inl e \<Rightarrow> Inl e
      | Inr (n, s) \<Rightarrow> Inr (fold (run_round (conn_frames fs docroot who)) rds (s\<lparr>sc_running := True\<rparr>)))"

lemma fold_round_co:
  assumes "co_inv fs docroot (sc_ready s) s" "list_all round_plain rds" "h < ce_next (sc_env s)"
  shows "solo_of (fold (run_round (conn_frames fs docroot who)) rds s) h = fold (solo_round fs docroot h) rds (solo_of s h)"
  using assms
proof (induction rds arbitrary: s)
  case Nil
  then show ?case by simp
next
  case (Cons r rds)
  then have "round_plain r" by simp
  note g = run_round_co [OF Cons.prems(1) this, of who h]
  with Cons.IH [OF conjunct1 [OF g]] Cons.prems(2,3) show ?case by auto
qed

lemma fold_round_inv:
  fixes who :: "nat \<Rightarrow> fd \<times> bool list \<times> string"
  assumes "co_inv fs docroot (sc_ready s) s" "list_all round_plain rds" "from_inv who s"
    "\<forall>k c. ce_conns (sc_env s) k = Some c \<longrightarrow> cn_at c \<noteq> Cn_new"
  defines "s' \<equiv> fold (run_round (conn_frames fs docroot who)) rds s"
  shows "co_inv fs docroot (sc_ready s') s' \<and> from_inv who s' \<and>
    (\<forall>k c. ce_conns (sc_env s') k = Some c \<longrightarrow> cn_at c \<noteq> Cn_new)"
  unfolding s'_def using assms(1-4)
proof (induction rds arbitrary: s)
  case Nil
  then show ?case by simp
next
  case (Cons r rds)
  then have "round_plain r" by simp
  note g = run_round_co [OF Cons.prems(1) this, of who] and f = run_round_from [OF Cons.prems(3) this, of fs docroot]
  show ?case using Cons.IH [OF _ _ f] g Cons.prems(2) by simp
qed

lemma worker_inv:
  assumes "worker_after fs docroot who queue_init entries rds = Inr s" "list_all round_plain rds"
  shows "co_inv fs docroot (sc_ready s) s" "from_inv who s" "ce_conns (sc_env s) k = Some c \<Longrightarrow> cn_at c \<noteq> Cn_new"
proof -
  obtain n s0 where s0: "UringScheduler_make queue_init coenv_init entries = Inr (n, s0)"
    and s: "s = fold (run_round (conn_frames fs docroot who)) rds (s0\<lparr>sc_running := True\<rparr>)"
    using assms(1) by (auto simp: worker_after_def split: sum.splits)
  have "sc_env s0 = coenv_init" "sc_ops s0 = Map.empty" "sc_ready s0 = []" "sc_ran s0 = []"
    using s0 by (auto simp: UringScheduler_make_def Let_def split: if_splits)
  then have "co_inv fs docroot (sc_ready (s0\<lparr>sc_running := True\<rparr>)) (s0\<lparr>sc_running := True\<rparr>)" "from_inv who (s0\<lparr>sc_running := True\<rparr>)"
    "\<forall>k c. ce_conns (sc_env (s0\<lparr>sc_running := True\<rparr>)) k = Some c \<longrightarrow> cn_at c \<noteq> Cn_new"
    by (simp_all add: co_inv_def slot_ok_def from_inv_def coenv_init_def)
  from fold_round_inv [OF this(1) assms(2) this(2,3)]
  show "co_inv fs docroot (sc_ready s) s" "from_inv who s" "ce_conns (sc_env s) k = Some c \<Longrightarrow> cn_at c \<noteq> Cn_new"
    by (auto simp: s)
qed

text \<open>C2. A connection on the shared scheduler is \<^verbatim>\<open>handle_connection\<close>: after any number of iterations, with any
  number of other connections and completions in any order, every connection that has started is where the
  handler by itself is on the results that were delivered to it, and it has sent the same bytes; it has ended
  exactly when the handler has returned, and is suspended otherwise.\<close>

theorem connections_refine_handler:
  assumes "worker_after fs docroot who queue_init entries rds = Inr s" "list_all round_plain rds"
    and "ce_conns (sc_env s) h = Some c"
  shows "handle_connection fs docroot (cn_client c) (conn_world (cn_script c) (cn_recvs c) (cn_sends c) []) =
    (if cn_at c = Cn_end then Returned () else Suspended, conn_world (cn_runs c) [] [] (cn_out c))"
proof -
  have "conn_ok fs docroot c" "cn_at c \<noteq> Cn_new"
    using co_invD [OF worker_inv(1) [OF assms(1,2)], of h] worker_inv(3) [OF assms] assms(3) by (simp_all add: slot_ok_def)
  then have "handle_connection fs docroot (cn_client c) (conn_world (cn_script c) (cn_recvs c @ []) (cn_sends c @ []) []) =
      conn_rest fs docroot (cn_client c) (cn_at c) (conn_world (cn_runs c) [] [] (cn_out c))"
    unfolding conn_ok_def by blast
  with \<open>cn_at c \<noteq> Cn_new\<close> show ?thesis
    by (cases "cn_at c") (simp_all add: recv_rest_def fin_read_def send_rest_def fin_write_def)
qed


text \<open>What the kernel has given a connection: no receive has failed, and only the last one has found the end of
  the client's bytes, when all of them had been received.\<close>

fun some_data :: "recv_event \<Rightarrow> bool" where
  "some_data (Recv_data d) = (d \<noteq> [])"
| "some_data (Recv_error e) = False"

definition received_ok :: "conn \<Rightarrow> bool" where
  "received_ok c = (cn_recvs c = [] \<or> (list_all some_data (butlast (cn_recvs c)) \<and>
     (some_data (last (cn_recvs c)) \<or> (last (cn_recvs c) = Recv_data [] \<and> cn_in c = []))))"

lemma some_data_list:
  assumes "list_all some_data es"
  shows "\<exists>ds. es = map Recv_data ds \<and> list_all (\<lambda>d. d \<noteq> []) ds"
  using assms
proof (induction es)
  case Nil
  then show ?case by simp
next
  case (Cons e es)
  then obtain d ds where "e = Recv_data d" "d \<noteq> []" "es = map Recv_data ds" "list_all (\<lambda>d. d \<noteq> []) ds"
    by (cases e) auto
  then have "e # es = map Recv_data (d # ds) \<and> list_all (\<lambda>d. d \<noteq> []) (d # ds)" by simp
  then show ?case by (rule exI)
qed

lemma received_data [simp]: "received (map Recv_data ds) = concat ds"
  by (simp add: received_def comp_def)

lemma received_append [simp]: "received (xs @ ys) = received xs @ received ys"
  by (simp add: received_def)

lemma received_script:
  assumes "received_ok c" "received (cn_recvs c) @ cn_in c = input"
  shows "\<exists>ds rs. cn_recvs c @ rs = map Recv_data ds @ [Recv_data []] \<and> list_all (\<lambda>d. d \<noteq> []) ds \<and> concat ds = input"
proof (cases "cn_recvs c \<noteq> [] \<and> last (cn_recvs c) = Recv_data []")
  case True
  then have r: "cn_recvs c = butlast (cn_recvs c) @ [Recv_data []]" by (metis append_butlast_last_id)
  from True assms(1) obtain ds where ds: "butlast (cn_recvs c) = map Recv_data ds" "list_all (\<lambda>d. d \<noteq> []) ds"
    using some_data_list by (auto simp: received_ok_def)
  have "received (butlast (cn_recvs c) @ [Recv_data []]) = concat ds" by (simp add: ds(1)) (simp add: received_def)
  then have "received (cn_recvs c) = concat ds" using r by simp
  then have "concat ds = input" using True assms by (simp add: received_ok_def)
  with ds r show ?thesis by (intro exI [of _ ds] exI [of _ "[]"]) simp
next
  case False
  then have "list_all some_data (cn_recvs c)"
    using assms(1) by (cases "cn_recvs c" rule: rev_cases) (auto simp: received_ok_def)
  then obtain ds where ds: "cn_recvs c = map Recv_data ds" "list_all (\<lambda>d. d \<noteq> []) ds"
    using some_data_list by blast
  let ?t = "if cn_in c = [] then [] else [cn_in c]"
  show ?thesis
    using ds assms(2) by (intro exI [of _ "ds @ ?t"] exI [of _ "map Recv_data ?t @ [Recv_data []]"]) auto
qed

text \<open>A connection that has ended is where the handler is on any script that goes on as its history.\<close>

lemma ended_answers:
  assumes "worker_after fs docroot who queue_init entries rds = Inr s" "list_all round_plain rds"
    and "ce_conns (sc_env s) h = Some c" "cn_at c = Cn_end"
    and "who (sc_ran s ! h) = (f, [], stream cs)" "0 \<le> f" "list_all creq_ok cs" "2 * length (stream cs) < size_max"
    and "received_ok c" "list_all progress (cn_sends c)"
  shows "cn_out c = answers fs docroot cs"
proof -
  have ok: "conn_ok fs docroot c"
    using co_invD [OF worker_inv(1) [OF assms(1,2)], of h] assms(3) by (simp add: slot_ok_def)
  have "conn_from (who (sc_ran s ! h)) c" using worker_inv(2) [OF assms(1,2)] assms(3) by (simp add: from_inv_def)
  then have c: "cn_client c = UniqueFd_make f False" "cn_script c = []" "received (cn_recvs c) @ cn_in c = stream cs"
    by (simp_all add: assms(5) conn_from_def)
  obtain ds rs where ds: "cn_recvs c @ rs = map Recv_data ds @ [Recv_data []]" "list_all (\<lambda>d. d \<noteq> []) ds" "concat ds = stream cs"
    using received_script [OF assms(9) c(3)] by blast
  let ?ss = "cn_sends c @ replicate (length (answers fs docroot cs)) (Sent 1)"
  have "list_all progress ?ss" using assms(10) by (auto simp: list_all_iff progress_def)
  then have "\<exists>w'. handle_loop fs docroot (cn_client c) (conn_world [] (cn_recvs c @ rs) ?ss []) [] = (Returned (), w') \<and>
      w_out w' = [] @ answers fs docroot cs"
    using handle_loop_serves [OF assms(7,8), of "conn_world [] (cn_recvs c @ rs) ?ss []" ds "[]" "cn_client c" fs docroot] ds assms(6)
    by (simp add: c(1) UniqueFd_make_def UniqueFd_valid_def)
  then show ?thesis
    using ok assms(4) unfolding conn_ok_def c(2)
    by (simp add: handle_connection_def)
qed

text \<open>C15. The server answers its clients. When the client whose connection a worker has started as its \<open>h\<close>-th sends
  a sequence of well-formed requests, and its connection has ended while the server runs, with no failed receive
  and every send taking at least a byte, then the connection has sent exactly the responses of the requests in
  order, up to the first that does not keep the connection; however its bytes were cut and whatever
  the other connections of the worker have done.\<close>

theorem connections_answered:
  assumes "worker_after fs docroot who queue_init entries rds = Inr s" "list_all round_plain rds"
    and "ce_conns (sc_env s) h = Some c" "cn_at c = Cn_end"
    and "who (sc_ran s ! h) = (f, [], stream cs)" "0 \<le> f" "list_all creq_ok cs" "2 * length (stream cs) < size_max"
    and "received_ok c" "list_all progress (cn_sends c)"
  shows "cn_out c = answers fs docroot cs"
  using ended_answers [OF assms] .

text \<open>The frame of a connection that has been suspended is never destroyed, so that its descriptor stays open: it
  is resumed by completions only, and these do not ask for its destruction, not even when it ends.\<close>

theorem suspended_connection_kept:
  assumes "worker_after fs docroot who queue_init entries rds = Inr s" "list_all round_plain rds"
    and "list_all round_plain rds'" "ce_conns (sc_env s) h = Some c"
  shows "\<exists>c'. ce_conns (sc_env (fold (run_round (conn_frames fs docroot who)) rds' s)) h = Some c' \<and> cn_client c' = cn_client c"
proof -
  have h: "h < ce_next (sc_env s)" "cn_at c \<noteq> Cn_new"
    using co_invD [OF worker_inv(1) [OF assms(1,2)], of h] worker_inv(3) [OF assms(1,2,4)] assms(4)
    by (simp_all add: slot_ok_def)
  have one: "\<exists>c' p'. solo_round fs docroot h r (Some (c, p)) = Some (c', p') \<and> cn_client c' = cn_client c \<and> cn_at c' \<noteq> Cn_new"
    if "cn_at c \<noteq> Cn_new" for r c p
  proof -
    have q: "\<exists>p'. fold (solo_cqe h) qs (Some (c, p)) = Some (c, p')" for qs c p
      by (induction qs arbitrary: p) (auto simp: solo_cqe_def split: option.split)
    show ?thesis
    proof (cases p)
      case None
      with q [of "rd_cqes r" c None] that show ?thesis by (auto simp: solo_round_def solo_resume_def)
    next
      case (Some res)
      with q [of "rd_cqes r" "conn_go fs docroot res c" None] that conn_go_not_new [of fs docroot res c] show ?thesis
        by (auto simp: solo_round_def solo_resume_def)
    qed
  qed
  have "\<exists>c' p'. fold (solo_round fs docroot h) rds' (Some (c, p)) = Some (c', p') \<and> cn_client c' = cn_client c"
    if "cn_at c \<noteq> Cn_new" for c p
    using that
  proof (induction rds' arbitrary: c p)
    case Nil
    then show ?case by simp
  next
    case (Cons r rds')
    with one [of c r p] show ?case by (metis fold_simps(2))
  qed
  moreover obtain p where "solo_of s h = Some (c, p)" using assms(4) by (simp add: solo_of_def)
  ultimately have "\<exists>c' p'. solo_of (fold (run_round (conn_frames fs docroot who)) rds' s) h = Some (c', p') \<and> cn_client c' = cn_client c"
    using fold_round_co [OF worker_inv(1) [OF assms(1,2)] assms(3) h(1), of who] h(2) by metis
  then show ?thesis by (auto simp: solo_of_def split: option.splits)
qed

subsection \<open>Two clients of a worker\<close>

text \<open>Two connections are posted; the second is reset by its client, the first sends a request, is answered and closed
  by its client.\<close>

definition sample_who :: "creq \<Rightarrow> nat \<Rightarrow> fd \<times> bool list \<times> string" where
  "sample_who q fn = (5 + int fn, [], stream [q])"

definition sample_round0 :: "creq \<Rightarrow> round" where
  "sample_round0 q = \<lparr>rd_before = [Ext_post 0, Ext_post 1], rd_between = [], rd_cqes = [(Some 1, -104, 0), (Some 0, int (length (creq_wire q)), 0)]\<rparr>"

definition sample_rounds :: "filesystem \<Rightarrow> path \<Rightarrow> creq \<Rightarrow> round list" where
  "sample_rounds fs docroot q =
     [\<lparr>rd_before = [], rd_between = [], rd_cqes = [(Some 0, int (length (to_wire (build_response fs docroot (creq_req q)))), 0)]\<rparr>,
      \<lparr>rd_before = [], rd_between = [], rd_cqes = [(Some 0, 0, 0)]\<rparr>, \<lparr>rd_before = [], rd_between = [], rd_cqes = []\<rparr>]"

lemma sample_plain: "list_all round_plain (sample_round0 q # sample_rounds fs docroot q)"
  by (simp add: sample_round0_def sample_rounds_def round_plain_def)

lemma sample_loop: "conn_loop fs docroot (UniqueFd_make (5 + int n) False) [] [] = (Cn_recv [], [])"
  by (subst conn_loop.simps) (simp add: next_run_def UniqueFd_valid_def UniqueFd_make_def conn_read.simps [of fs docroot _ "[]"])

text \<open>The state after both connections have been posted, and the first one when it waits for its request.\<close>

definition sample_posted :: "creq \<Rightarrow> coenv sched" where
  "sample_posted q = \<lparr>sc_running = True, sc_ready = [\<lparr>ri_handle = Some 0, ri_destroy = True\<rparr>, \<lparr>ri_handle = Some 1, ri_destroy = True\<rparr>],
     sc_posts = [], sc_ops = Map.empty,
     sc_env = \<lparr>ce_conns = [0 \<mapsto> conn_make 5 [] (stream [q]), 1 \<mapsto> conn_make 6 [] (stream [q])], ce_next = 2, ce_closed = []\<rparr>,
     sc_resumed = [], sc_ran = [0, 1], sc_destroyed = [], sc_dangling = False\<rparr>"

definition sample_conn :: "creq \<Rightarrow> conn" where
  "sample_conn q = (conn_make 5 [] (stream [q]))\<lparr>cn_at := Cn_recv []\<rparr>"

lemma sample_posts:
  "drain_posts (conn_frames fs docroot (sample_who q)) (fold ext_step [Ext_post 0, Ext_post 1]
     \<lparr>sc_running = True, sc_ready = [], sc_posts = [], sc_ops = Map.empty, sc_env = coenv_init,
      sc_resumed = [], sc_ran = [], sc_destroyed = [], sc_dangling = False\<rparr>) = sample_posted q"
  by (simp add: sched_post_def drain_posts_def run_post_def conn_post_def coenv_init_def sample_who_def sample_posted_def apply_step_def
      sched_enqueue_def enqueue_def numeral_2_eq_2)

lemma sample_started:
  "solo_of (fold handle_cqe (rd_cqes (sample_round0 q)) (drain_ready (conn_frames fs docroot (sample_who q)) (sample_posted q))) 0 =
     Some (sample_conn q, Some (int (length (creq_wire q))))"
  "ce_next (sc_env (fold handle_cqe (rd_cqes (sample_round0 q)) (drain_ready (conn_frames fs docroot (sample_who q)) (sample_posted q)))) = 2"
proof -
  let ?s = "drain_ready (conn_frames fs docroot (sample_who q)) (sample_posted q)"
  have go: "conn_go fs docroot 0 (conn_make (5 + int n) [] input) = (conn_make (5 + int n) [] input)\<lparr>cn_at := Cn_recv []\<rparr>" for n input
    by (simp add: conn_go_def conn_make_def sample_loop)
  have s: "?s = (sample_posted q)\<lparr>sc_ready := [], sc_ops := [0 \<mapsto> op_wait 0, 1 \<mapsto> op_wait 1],
      sc_env := (sc_env (sample_posted q))\<lparr>ce_conns := [0 \<mapsto> sample_conn q,
        1 \<mapsto> (conn_make 6 [] (stream [q]))\<lparr>cn_at := Cn_recv []\<rparr>]\<rparr>, sc_resumed := [0, 1]\<rparr>"
    using go [of 0] go [of 1]
    by (simp add: drain_ready_def sample_posted_def resume_ready_def conn_resume_def apply_step_def sample_conn_def fun_eq_iff)
  show "solo_of (fold handle_cqe (rd_cqes (sample_round0 q)) ?s) 0 =
      Some (sample_conn q, Some (int (length (creq_wire q))))"
    "ce_next (sc_env (fold handle_cqe (rd_cqes (sample_round0 q)) ?s)) = 2"
    unfolding s
    by (simp_all add: sample_round0_def sample_posted_def op_wait_def OperationBase_init_def op_complete_def enqueue_def solo_of_def
        sample_conn_def)
qed

lemma sample_worker0:
  "\<exists>s. worker_after fs docroot (sample_who q) (\<lambda>n. 3) 256 [sample_round0 q] = Inr s \<and> sc_ran s = [0, 1] \<and> ce_next (sc_env s) = 2 \<and>
     solo_of s 0 = Some (sample_conn q, Some (int (length (creq_wire q))))"
proof -
  let ?s = "fold handle_cqe (rd_cqes (sample_round0 q)) (drain_ready (conn_frames fs docroot (sample_who q)) (sample_posted q))"
  have "worker_after fs docroot (sample_who q) (\<lambda>n. 3) 256 [sample_round0 q] = Inr ?s"
    using sample_posts [of fs docroot q]
    by (simp add: worker_after_def UringScheduler_make_def run_round_def sample_round0_def del: handle_cqe.simps ext_step.simps)
  moreover have "sc_ran ?s = [0, 1]" by (simp add: sample_posted_def)
  ultimately show ?thesis using sample_started by blast
qed

text \<open>The first connection by itself: it receives the request, sends the answer, and ends at once or when the
  client closes.\<close>

lemma sample_solo:
  assumes ok: "creq_ok q" "length (creq_wire q) < size_max"
  shows "\<exists>c. fold (solo_round fs docroot 0) (sample_rounds fs docroot q) (Some (sample_conn q, Some (int (length (creq_wire q))))) = Some (c, None) \<and>
     cn_at c = Cn_end \<and> received_ok c \<and> list_all progress (cn_sends c)"
proof -
  let ?w = "creq_wire q" and ?p = "to_wire (build_response fs docroot (creq_req q))" and ?cl = "UniqueFd_make 5 False"
  have parse: "try_parse_request ?w = Some \<lparr>request = creq_req q, consumed = length ?w\<rparr>" using try_parse_creq [OF ok, of "[]"] by simp
  then have w: "?w \<noteq> []" by auto
  have wr: "conn_write fs docroot ?cl (creq_req q) [] ?p 0 [] = (Cn_send (creq_req q) [] ?p 0, [])"
    by (subst conn_write.simps) (simp add: next_run_def)
  have rd: "conn_read fs docroot ?cl ?w [] = (Cn_send (creq_req q) [] ?p 0, [])"
    by (subst conn_read.simps) (simp add: next_run_def parse wr)
  have fin: "conn_write fs docroot ?cl (creq_req q) [] ?p (length ?p) [] = (if keep_alive (creq_req q) then Cn_recv [] else Cn_end, [])"
    by (subst conn_write.simps) (use sample_loop [of fs docroot 0] in simp)
  define c2 where "c2 = (sample_conn q)\<lparr>cn_at := Cn_send (creq_req q) [] ?p 0, cn_in := [], cn_recvs := [Recv_data ?w]\<rparr>"
  define c3 where "c3 = c2\<lparr>cn_at := (if keep_alive (creq_req q) then Cn_recv [] else Cn_end), cn_out := ?p, cn_sends := [Sent (int (length ?p))]\<rparr>"
  define c4 where "c4 = (if keep_alive (creq_req q) then c3\<lparr>cn_at := Cn_end, cn_recvs := [Recv_data ?w, Recv_data []]\<rparr> else c3)"
  have "conn_go fs docroot (int (length ?w)) (sample_conn q) = c2"
    using w rd by (simp add: conn_go_def sample_conn_def c2_def conn_make_def recv_of_def stream_def)
  moreover have "conn_go fs docroot (int (length ?p)) c2 = c3"
    using fin by (simp add: conn_go_def sample_conn_def c2_def c3_def conn_make_def send_of_def)
  moreover have "keep_alive (creq_req q) \<Longrightarrow> conn_go fs docroot 0 c3 = c4"
    by (simp add: conn_go_def sample_conn_def c2_def c3_def c4_def conn_make_def recv_of_def)
  moreover have "cn_at (sample_conn q) = Cn_recv []" "cn_at c2 = Cn_send (creq_req q) [] ?p 0"
    "cn_at c3 = (if keep_alive (creq_req q) then Cn_recv [] else Cn_end)"
    by (simp_all add: sample_conn_def c2_def c3_def)
  ultimately have "fold (solo_round fs docroot 0) (sample_rounds fs docroot q) (Some (sample_conn q, Some (int (length ?w)))) = Some (c4, None)"
    by (cases "keep_alive (creq_req q)") (simp_all add: sample_rounds_def solo_round_def solo_resume_def solo_cqe_def c4_def)
  moreover have "cn_at c4 = Cn_end \<and> received_ok c4 \<and> list_all progress (cn_sends c4)"
    using w by (simp add: c4_def c3_def c2_def sample_conn_def conn_make_def received_ok_def progress_def)
  ultimately show ?thesis by blast
qed

lemma sample_worker:
  assumes ok: "creq_ok q" "length (creq_wire q) < size_max"
  shows "\<exists>s c. worker_after fs docroot (sample_who q) (\<lambda>n. 3) 256 (sample_round0 q # sample_rounds fs docroot q) = Inr s \<and>
     sc_ran s ! 0 = 0 \<and> ce_conns (sc_env s) 0 = Some c \<and> cn_at c = Cn_end \<and> received_ok c \<and> list_all progress (cn_sends c)"
proof -
  let ?F = "conn_frames fs docroot (sample_who q)"
  obtain s where s: "worker_after fs docroot (sample_who q) (\<lambda>n. 3) 256 [sample_round0 q] = Inr s" "sc_ran s = [0, 1]" "ce_next (sc_env s) = 2"
    "solo_of s 0 = Some (sample_conn q, Some (int (length (creq_wire q))))"
    using sample_worker0 by blast
  let ?s = "fold (run_round ?F) (sample_rounds fs docroot q) s"
  have p: "list_all round_plain [sample_round0 q]" "list_all round_plain (sample_rounds fs docroot q)"
    using sample_plain [of q fs docroot] by simp_all
  have run: "worker_after fs docroot (sample_who q) (\<lambda>n. 3) 256 (sample_round0 q # sample_rounds fs docroot q) = Inr ?s"
    using s(1) by (auto simp: worker_after_def split: sum.splits)
  obtain c where c: "solo_of ?s 0 = Some (c, None)" "cn_at c = Cn_end" "received_ok c" "list_all progress (cn_sends c)"
    using fold_round_co [OF worker_inv(1) [OF s(1) p(1)] p(2), of 0 "sample_who q"] s(3,4) sample_solo [OF ok, of fs docroot] by auto
  have "\<exists>xs. sc_ran (fold (run_round ?F) rds s0) = sc_ran s0 @ xs" for rds s0
  proof (induction rds arbitrary: s0)
    case Nil
    then show ?case by simp
  next
    case (Cons r rds)
    obtain ps where "sc_ran (run_round ?F r s0) = sc_ran s0 @ sc_posts s0 @ ps" using run_round_order by blast
    with Cons [of "run_round ?F r s0"] show ?case by auto
  qed
  then have "sc_ran ?s ! 0 = 0" using s(2) by (metis nth_append_left nth_Cons_0 append_Cons)
  then show ?thesis
    using run c by (intro exI [of _ ?s] exI [of _ c]) (auto simp: solo_of_def split: option.splits)
qed

lemma sample_get_size: "creq_ok sample_get" "length (creq_wire sample_get) < size_max" "2 * length (stream [sample_get]) < size_max"
  using sample_get_ok by (simp_all add: stream_def size_max_def)

theorem connections_refine_handler_witness:
  "\<exists>s c. worker_after sample_fs ''/srv'' (sample_who sample_get) (\<lambda>n. 3) 256 (sample_round0 sample_get # sample_rounds sample_fs ''/srv'' sample_get) = Inr s \<and>
     ce_conns (sc_env s) 0 = Some c \<and>
     handle_connection sample_fs ''/srv'' (cn_client c) (conn_world (cn_script c) (cn_recvs c) (cn_sends c) []) =
       (Returned (), conn_world (cn_runs c) [] [] (cn_out c))"
proof -
  obtain s c where s: "worker_after sample_fs ''/srv'' (sample_who sample_get) (\<lambda>n. 3) 256 (sample_round0 sample_get # sample_rounds sample_fs ''/srv'' sample_get) = Inr s"
    "ce_conns (sc_env s) 0 = Some c" "cn_at c = Cn_end"
    using sample_worker [OF sample_get_size(1,2)] by blast
  with connections_refine_handler [OF s(1) sample_plain s(2)] show ?thesis by simp
qed


theorem connections_answered_witness:
  "\<exists>s c. worker_after sample_fs ''/srv'' (sample_who sample_get) (\<lambda>n. 3) 256 (sample_round0 sample_get # sample_rounds sample_fs ''/srv'' sample_get) = Inr s \<and>
     ce_conns (sc_env s) 0 = Some c \<and> cn_out c = answers sample_fs ''/srv'' [sample_get]"
proof -
  obtain s c where s: "worker_after sample_fs ''/srv'' (sample_who sample_get) (\<lambda>n. 3) 256 (sample_round0 sample_get # sample_rounds sample_fs ''/srv'' sample_get) = Inr s"
    "sc_ran s ! 0 = 0" "ce_conns (sc_env s) 0 = Some c" "cn_at c = Cn_end" "received_ok c" "list_all progress (cn_sends c)"
    using sample_worker [OF sample_get_size(1,2)] by blast
  have "sample_who sample_get (sc_ran s ! 0) = (5, [], stream [sample_get])" by (simp add: s(2) sample_who_def)
  then have "cn_out c = answers sample_fs ''/srv'' [sample_get]"
    using connections_answered [OF s(1) sample_plain s(3,4), of 5 "[sample_get]"] s(5,6) sample_get_size by simp
  with s(1,3) show ?thesis by blast
qed

theorem suspended_connection_kept_witness:
  "\<exists>s. worker_after sample_fs ''/srv'' (sample_who sample_get) (\<lambda>n. 3) 256 [sample_round0 sample_get] = Inr s \<and>
     (\<exists>c'. ce_conns (sc_env (fold (run_round (conn_frames sample_fs ''/srv'' (sample_who sample_get))) (sample_rounds sample_fs ''/srv'' sample_get) s)) 0 = Some c' \<and>
       cn_client c' = UniqueFd_make 5 False)"
proof -
  obtain s where s: "worker_after sample_fs ''/srv'' (sample_who sample_get) (\<lambda>n. 3) 256 [sample_round0 sample_get] = Inr s"
    "solo_of s 0 = Some (sample_conn sample_get, Some 23)"
    using sample_worker0 [of sample_fs "''/srv''" sample_get] sample_get_ok by auto
  then have "ce_conns (sc_env s) 0 = Some (sample_conn sample_get)"
    by (simp add: solo_of_def split: option.splits)
  with suspended_connection_kept [OF s(1), of "sample_rounds sample_fs ''/srv'' sample_get" 0] sample_plain [of sample_get sample_fs "''/srv''"] s(1) show ?thesis
    by (auto simp: sample_conn_def conn_make_def)
qed

end
