(* ===== verification/LogRing.thy ===== *)
theory LogRing
  imports AsyncLogger
begin

text \<open>
  \<^verbatim>\<open>AsyncLogger::LogQueue\<close> with its atomic operations as steps of their own: every load, store,
  exchange and compare-exchange of \<^verbatim>\<open>push\<close> and \<^verbatim>\<open>pop\<close> is one step, any number of threads take them in any
  order, and a weak compare-exchange may fail without a reason. The memory is the ring of
  \<^verbatim>\<open>AsyncLogger\<close> with its 64-bit counters; the operations that it has there are the runs of one
  thread alone.
\<close>

section \<open>Statements\<close>

text \<open>Where a thread is: before the load of the counter, of the sequence number, before the
  compare-exchange, the two stores, and after \<^verbatim>\<open>return\<close>. A line that is logged is not null. A \<^verbatim>\<open>pop\<close> that
  returns \<open>None\<close> has returned false.\<close>

datatype ring_pc =
    RP_idle
  | Push_load string | Push_seq string "64 word" | Push_cas string "64 word" | Push_store string "64 word"
  | Push_publish "64 word" | Push_done bool
  | Pop_load | Pop_seq "64 word" | Pop_cas "64 word" | Pop_take "64 word" | Pop_release "64 word" "string option"
  | Pop_done "string option"

definition set_slot :: "64 word \<Rightarrow> (Slot \<Rightarrow> Slot) \<Rightarrow> LogQueue \<Rightarrow> LogQueue" where
  "set_slot pos f q = (let i = slot_index q pos in q\<lparr>slots := (slots q)[i := f (slots q ! i)]\<rparr>)"

text \<open>The next statement of a thread: where it is then, the ring, and the line for which it has moved
  \<^verbatim>\<open>tail_\<close>. \<open>ok\<close> is false for a compare-exchange that fails without a reason; when one fails, \<^verbatim>\<open>pos\<close> is
  loaded again.\<close>

fun ring_stmt :: "bool \<Rightarrow> ring_pc \<Rightarrow> LogQueue \<Rightarrow> ring_pc \<times> LogQueue \<times> string list" where
  "ring_stmt ok (Push_load x) q = (Push_seq x (q_tail q), q, [])"
| "ring_stmt ok (Push_seq x pos) q =
     (let seq = sequence (slots q ! slot_index q pos); diff = sint (seq - pos)
      in (if diff = 0 then Push_cas x pos else if diff < 0 then Push_done False else Push_load x, q, []))"
| "ring_stmt ok (Push_cas x pos) q =
     (if ok \<and> q_tail q = pos then (Push_store x pos, q\<lparr>q_tail := pos + 1\<rparr>, [x]) else (Push_seq x (q_tail q), q, []))"
| "ring_stmt ok (Push_store x pos) q = (Push_publish pos, set_slot pos (\<lambda>s. s\<lparr>payload := Some x\<rparr>) q, [])"
| "ring_stmt ok (Push_publish pos) q = (Push_done True, set_slot pos (\<lambda>s. s\<lparr>sequence := pos + 1\<rparr>) q, [])"
| "ring_stmt ok Pop_load q = (Pop_seq (q_head q), q, [])"
| "ring_stmt ok (Pop_seq pos) q =
     (let seq = sequence (slots q ! slot_index q pos); diff = sint (seq - (pos + 1))
      in (if diff = 0 then Pop_cas pos else if diff < 0 then Pop_done None else Pop_load, q, []))"
| "ring_stmt ok (Pop_cas pos) q =
     (if ok \<and> q_head q = pos then (Pop_take pos, q\<lparr>q_head := pos + 1\<rparr>, []) else (Pop_seq (q_head q), q, []))"
| "ring_stmt ok (Pop_take pos) q =
     (Pop_release pos (payload (slots q ! slot_index q pos)), set_slot pos (\<lambda>s. s\<lparr>payload := None\<rparr>) q, [])"
| "ring_stmt ok (Pop_release pos got) q =
     (Pop_done got, set_slot pos (\<lambda>s. s\<lparr>sequence := pos + q_mask q + 1\<rparr>) q, [])"
| "ring_stmt ok pc q = (pc, q, [])"

text \<open>The ring, the threads, and two histories: the lines in the order in which \<^verbatim>\<open>tail_\<close> was moved for them,
  and the lines that \<^verbatim>\<open>pop\<close> has returned to its callers.\<close>

record ring_world =
  rw_ring :: LogQueue
  rw_pc :: "nat \<Rightarrow> ring_pc"
  rw_log :: "string list"
  rw_out :: "string list"

definition ring_world_init :: "LogQueue \<Rightarrow> ring_world" where
  "ring_world_init q = \<lparr>rw_ring = q, rw_pc = (\<lambda>t. RP_idle), rw_log = [], rw_out = []\<rparr>"

definition busy :: "ring_pc \<Rightarrow> bool" where
  "busy pc \<longleftrightarrow> pc \<noteq> RP_idle \<and> (\<forall>b. pc \<noteq> Push_done b) \<and> (\<forall>g. pc \<noteq> Pop_done g)"

text \<open>A thread calls \<^verbatim>\<open>push\<close>; one of the threads \<open>C\<close>, in the program the worker, calls \<^verbatim>\<open>pop\<close>; a thread executes a
  statement, or returns.\<close>

inductive rw_step :: "nat set \<Rightarrow> nat \<Rightarrow> ring_world \<Rightarrow> ring_world \<Rightarrow> bool" for C t where
  call_push: "rw_pc w t = RP_idle \<Longrightarrow> rw_step C t w (w\<lparr>rw_pc := (rw_pc w)(t := Push_load x)\<rparr>)"
| call_pop: "rw_pc w t = RP_idle \<Longrightarrow> t \<in> C \<Longrightarrow> rw_step C t w (w\<lparr>rw_pc := (rw_pc w)(t := Pop_load)\<rparr>)"
| stmt: "busy (rw_pc w t) \<Longrightarrow> ring_stmt ok (rw_pc w t) (rw_ring w) = (pc, q, l) \<Longrightarrow>
    rw_step C t w (w\<lparr>rw_ring := q, rw_pc := (rw_pc w)(t := pc), rw_log := rw_log w @ l\<rparr>)"
| ret_push: "rw_pc w t = Push_done b \<Longrightarrow> rw_step C t w (w\<lparr>rw_pc := (rw_pc w)(t := RP_idle)\<rparr>)"
| ret_pop: "rw_pc w t = Pop_done got \<Longrightarrow>
    rw_step C t w (w\<lparr>rw_pc := (rw_pc w)(t := RP_idle), rw_out := rw_out w @ (case got of None \<Rightarrow> [] | Some x \<Rightarrow> [x])\<rparr>)"

definition rw_move :: "nat set \<Rightarrow> ring_world \<Rightarrow> ring_world \<Rightarrow> bool" where
  "rw_move C w w' \<longleftrightarrow> (\<exists>t. rw_step C t w w')"

section \<open>Positions\<close>

text \<open>Two positions of the same slot are a multiple of the size apart.\<close>

lemma same_slot_less:
  fixes a b n :: nat
  assumes "a mod n = b mod n" "a < b"
  shows "a + n \<le> b"
proof -
  have "n dvd b - a" using assms by (metis mod_eq_dvd_iff_nat less_imp_le)
  then show ?thesis using assms(2) by (auto dest: dvd_imp_le)
qed

lemma same_slot_eq: "a mod n = b mod n \<Longrightarrow> a < b + n \<Longrightarrow> b < a + n \<Longrightarrow> a = b" for a b n :: nat
  using same_slot_less [of a n b] same_slot_less [of b n a] by linarith

lemma sint_diff:
  assumes "a < 2 ^ 63" "b < 2 ^ 63"
  shows "sint (of_nat a - of_nat b :: 64 word) = int a - int b"
proof -
  have "sint (word_of_int (int a - int b) :: 64 word) = int a - int b"
    using assms by (intro sint_word_of_int) simp_all
  then show ?thesis by simp
qed

lemma of_nat_pos_inj: "a < 2 ^ 63 \<Longrightarrow> b < 2 ^ 63 \<Longrightarrow> (of_nat a :: 64 word) = of_nat b \<longleftrightarrow> a = b"
  by (simp add: word_of_nat_eq_iff take_bit_nat_eq_self)

lemma unat_pos [simp]: "a < 2 ^ 63 \<Longrightarrow> unat (of_nat a :: 64 word) = a"
  by (simp add: unat_of_nat)

section \<open>The invariant\<close>

text \<open>The use of a slot at its current position: not claimed yet, claimed by a producer, its line stored but
  not published, full, claimed by a consumer, and emptied but not released.\<close>

datatype cell = Cl_new | Cl_claimed nat | Cl_stored nat | Cl_full | Cl_taking nat | Cl_clearing nat

definition removing :: "cell \<Rightarrow> bool" where
  "removing c \<longleftrightarrow> (\<exists>t. c = Cl_taking t \<or> c = Cl_clearing t)"

definition published :: "cell \<Rightarrow> bool" where
  "published c \<longleftrightarrow> c = Cl_full \<or> removing c"

definition holding :: "cell \<Rightarrow> bool" where
  "holding c \<longleftrightarrow> c = Cl_full \<or> (\<exists>t. c = Cl_stored t \<or> c = Cl_taking t)"

fun owner :: "cell \<Rightarrow> nat option" where
  "owner (Cl_claimed t) = Some t"
| "owner (Cl_stored t) = Some t"
| "owner (Cl_taking t) = Some t"
| "owner (Cl_clearing t) = Some t"
| "owner _ = None"

lemma cell_simps [simp]:
  "\<not> removing Cl_new" "\<not> removing (Cl_claimed t)" "\<not> removing (Cl_stored t)" "\<not> removing Cl_full"
  "removing (Cl_taking t)" "removing (Cl_clearing t)"
  "\<not> published Cl_new" "\<not> published (Cl_claimed t)" "\<not> published (Cl_stored t)" "published Cl_full"
  "published (Cl_taking t)" "published (Cl_clearing t)"
  "\<not> holding Cl_new" "\<not> holding (Cl_claimed t)" "holding (Cl_stored t)" "holding Cl_full" "holding (Cl_taking t)"
  "\<not> holding (Cl_clearing t)"
  by (simp_all add: removing_def published_def holding_def)

text \<open>A slot \<open>s\<close> with number \<open>i\<close> at the position \<open>p\<close>, in a ring of \<open>n\<close> slots with \<open>T\<close> lines claimed by producers and \<open>H\<close>
  by consumers.\<close>

definition cell_ok :: "nat \<Rightarrow> nat \<Rightarrow> string list \<Rightarrow> nat \<Rightarrow> nat \<Rightarrow> cell \<Rightarrow> Slot \<Rightarrow> bool" where
  "cell_ok n H log i p c s \<longleftrightarrow> p mod n = i \<and> p < H + n \<and> length log \<le> p + n \<and> (c = Cl_new \<longleftrightarrow> length log \<le> p) \<and>
     (removing c \<longleftrightarrow> p < H) \<and> sequence s = of_nat (p + (if published c then 1 else 0)) \<and>
     payload s = (if holding c then Some (log ! p) else None)"

text \<open>What a thread knows: the position it has read is not in the future, and what the sequence number told
  it does not stop being true; a slot it has claimed is its own.\<close>

definition own_cell :: "nat \<Rightarrow> (nat \<Rightarrow> nat) \<Rightarrow> (nat \<Rightarrow> cell) \<Rightarrow> cell \<Rightarrow> 64 word \<Rightarrow> nat \<Rightarrow> bool" where
  "own_cell n cp sp c pos p \<longleftrightarrow> pos = of_nat p \<and> cp (p mod n) = p \<and> sp (p mod n) = c"

fun pc_ok :: "nat \<Rightarrow> nat \<Rightarrow> string list \<Rightarrow> (nat \<Rightarrow> nat) \<Rightarrow> (nat \<Rightarrow> cell) \<Rightarrow> nat \<Rightarrow> ring_pc \<Rightarrow> bool" where
  "pc_ok n H log cp sp t (Push_seq x pos) = (\<exists>p. pos = of_nat p \<and> p \<le> length log)"
| "pc_ok n H log cp sp t (Push_cas x pos) = (\<exists>p. pos = of_nat p \<and> p \<le> length log \<and> p \<le> cp (p mod n))"
| "pc_ok n H log cp sp t (Push_store x pos) = (\<exists>p. own_cell n cp sp (Cl_claimed t) pos p \<and> log ! p = x)"
| "pc_ok n H log cp sp t (Push_publish pos) = (\<exists>p. own_cell n cp sp (Cl_stored t) pos p)"
| "pc_ok n H log cp sp t (Pop_seq pos) = (\<exists>p. pos = of_nat p \<and> p \<le> H)"
| "pc_ok n H log cp sp t (Pop_cas pos) =
     (\<exists>p. pos = of_nat p \<and> p \<le> H \<and> (p < cp (p mod n) \<or> p = cp (p mod n) \<and> published (sp (p mod n))))"
| "pc_ok n H log cp sp t (Pop_take pos) = (\<exists>p. own_cell n cp sp (Cl_taking t) pos p)"
| "pc_ok n H log cp sp t (Pop_release pos got) = (\<exists>p. own_cell n cp sp (Cl_clearing t) pos p \<and> got = Some (log ! p))"
| "pc_ok n H log cp sp t _ = True"

text \<open>The other way round, the owner of a slot is at the statement that the slot says.\<close>

fun owner_at :: "string list \<Rightarrow> nat \<Rightarrow> cell \<Rightarrow> (nat \<Rightarrow> ring_pc) \<Rightarrow> bool" where
  "owner_at log p (Cl_claimed t) pc = (pc t = Push_store (log ! p) (of_nat p))"
| "owner_at log p (Cl_stored t) pc = (pc t = Push_publish (of_nat p))"
| "owner_at log p (Cl_taking t) pc = (pc t = Pop_take (of_nat p))"
| "owner_at log p (Cl_clearing t) pc = (pc t = Pop_release (of_nat p) (Some (log ! p)))"
| "owner_at log p _ pc = True"

definition ring_shape :: "LogQueue \<Rightarrow> bool" where
  "ring_shape q \<longleftrightarrow> (\<exists>k. 1 \<le> k \<and> k \<le> 62 \<and> length (slots q) = 2 ^ k \<and> q_mask q = 2 ^ k - 1)"

abbreviation rw_n :: "ring_world \<Rightarrow> nat" where "rw_n w \<equiv> length (slots (rw_ring w))"
abbreviation rw_h :: "ring_world \<Rightarrow> nat" where "rw_h w \<equiv> unat (q_head (rw_ring w))"

definition cr_inv :: "(nat \<Rightarrow> nat) \<Rightarrow> (nat \<Rightarrow> cell) \<Rightarrow> ring_world \<Rightarrow> bool" where
  "cr_inv cp sp w \<longleftrightarrow> ring_shape (rw_ring w) \<and> length (rw_log w) < 2 ^ 62 \<and> q_tail (rw_ring w) = of_nat (length (rw_log w)) \<and>
     rw_h w \<le> length (rw_log w) \<and>
     (\<forall>i < rw_n w. cell_ok (rw_n w) (rw_h w) (rw_log w) i (cp i) (sp i) (slots (rw_ring w) ! i)) \<and>
     (\<forall>i < rw_n w. owner_at (rw_log w) (cp i) (sp i) (rw_pc w)) \<and>
     (\<forall>t. pc_ok (rw_n w) (rw_h w) (rw_log w) cp sp t (rw_pc w t))"

lemma cr_invD:
  assumes "cr_inv cp sp w"
  shows "ring_shape (rw_ring w)" "length (rw_log w) < 2 ^ 62" "q_tail (rw_ring w) = of_nat (length (rw_log w))"
    "rw_h w \<le> length (rw_log w)" "pc_ok (rw_n w) (rw_h w) (rw_log w) cp sp t (rw_pc w t)"
    "i < rw_n w \<Longrightarrow> cell_ok (rw_n w) (rw_h w) (rw_log w) i (cp i) (sp i) (slots (rw_ring w) ! i)"
    "i < rw_n w \<Longrightarrow> owner_at (rw_log w) (cp i) (sp i) (rw_pc w)"
  using assms unfolding cr_inv_def by blast+

lemma ring_shape_n:
  assumes "ring_shape q"
  shows "2 \<le> length (slots q)" "length (slots q) \<le> 2 ^ 62" "q_mask q + 1 = of_nat (length (slots q))"
    "p < 2 ^ 63 \<Longrightarrow> slot_index q (of_nat p) = p mod length (slots q)"
proof -
  obtain k where k: "1 \<le> k" "k \<le> 62" "length (slots q) = 2 ^ k" "q_mask q = 2 ^ k - 1"
    using assms by (auto simp: ring_shape_def)
  show "2 \<le> length (slots q)" using k(1,3) by (cases k) simp_all
  show "length (slots q) \<le> 2 ^ 62" unfolding k(3) using k(2) by (intro power_increasing) simp_all
  show "q_mask q + 1 = of_nat (length (slots q))" using k by simp
  show "slot_index q (of_nat p) = p mod length (slots q)" if "p < 2 ^ 63"
    using k that by (simp add: slot_index_def unat_and_mask)
qed

text \<open>What one thread may do to the slots without disturbing the others.\<close>

definition undisturbed :: "nat \<Rightarrow> nat \<Rightarrow> cell \<Rightarrow> nat \<Rightarrow> cell \<Rightarrow> bool" where
  "undisturbed t p c p' c' \<longleftrightarrow> (p' = p \<and> c' = c) \<or>
     (owner c = None \<or> owner c = Some t) \<and> (owner c' = None \<or> owner c' = Some t) \<and> p \<le> p' \<and>
     (published c \<longrightarrow> p < p' \<or> published c')"

lemma pc_ok_frame:
  assumes ok: "pc_ok n H log cp sp u pc" and "u \<noteq> t" and n: "0 < n" and H: "H \<le> H'"
    and frame: "\<And>i. i < n \<Longrightarrow> undisturbed t (cp i) (sp i) (cp' i) (sp' i)"
    and claimed: "\<And>i. i < n \<Longrightarrow> sp i \<noteq> Cl_new \<Longrightarrow> cp i < length log"
  shows "pc_ok n H' (log @ l) cp' sp' u pc"
proof -
  have i: "p mod n < n" for p using n by simp
  have own: "own_cell n cp' sp' c pos p \<and> (log @ l) ! p = log ! p"
    if "own_cell n cp sp c pos p" "owner c = Some u" for c pos p
    using that frame [OF i [of p]] claimed [OF i [of p]] \<open>u \<noteq> t\<close>
    by (cases c) (auto simp: own_cell_def undisturbed_def nth_append)
  have le: "p \<le> cp (p mod n) \<Longrightarrow> p \<le> cp' (p mod n)" for p
    using frame [OF i [of p]] by (auto simp: undisturbed_def)
  have pub: "p < cp' (p mod n) \<or> p = cp' (p mod n) \<and> published (sp' (p mod n))"
    if "p < cp (p mod n) \<or> p = cp (p mod n) \<and> published (sp (p mod n))" for p
    using that frame [OF i [of p]] by (auto simp: undisturbed_def)
  show ?thesis using ok
  proof (cases pc)
    case (Push_seq x pos)
    then show ?thesis using ok by fastforce
  next
    case (Push_cas x pos)
    then show ?thesis using ok le by fastforce
  next
    case (Pop_seq pos)
    then show ?thesis using ok H by fastforce
  next
    case (Pop_cas pos)
    then show ?thesis using ok H pub by fastforce
  qed (use ok own in fastforce)+
qed

lemma cell_okD:
  assumes "cell_ok n H log i p c s"
  shows "p mod n = i" "p < H + n" "length log \<le> p + n" "c = Cl_new \<longleftrightarrow> length log \<le> p" "removing c \<longleftrightarrow> p < H"
    "sequence s = of_nat (p + (if published c then 1 else 0))" "payload s = (if holding c then Some (log ! p) else None)"
  using assms unfolding cell_ok_def by blast+

text \<open>The rule that every step is an instance of.\<close>

lemma cr_update:
  assumes inv: "cr_inv cp sp w"
    and pc: "rw_pc w' = (rw_pc w)(t := pc')" and log: "rw_log w' = rw_log w @ l" "length (rw_log w') < 2 ^ 62"
    and ring: "ring_shape (rw_ring w')" "rw_n w' = rw_n w" "q_tail (rw_ring w') = of_nat (length (rw_log w'))"
    and head: "rw_h w \<le> rw_h w'" "rw_h w' \<le> length (rw_log w')"
    and frame: "\<And>i. i < rw_n w \<Longrightarrow> undisturbed t (cp i) (sp i) (cp' i) (sp' i)"
    and cells: "\<And>i. i < rw_n w \<Longrightarrow> cell_ok (rw_n w) (rw_h w') (rw_log w') i (cp' i) (sp' i) (slots (rw_ring w') ! i)"
    and pc': "pc_ok (rw_n w) (rw_h w') (rw_log w') cp' sp' t pc'"
    and own: "\<And>i. i < rw_n w \<Longrightarrow> owner (sp' i) = Some t \<Longrightarrow> owner_at (rw_log w') (cp' i) (sp' i) (rw_pc w')"
  shows "cr_inv cp' sp' w'"
proof -
  have pos: "0 < rw_n w" using ring_shape_n(1) [OF cr_invD(1) [OF inv]] by linarith
  have claimed: "sp i \<noteq> Cl_new \<Longrightarrow> cp i < length (rw_log w)" if "i < rw_n w" for i
    using cell_okD(4) [OF cr_invD(6) [OF inv that]] by auto
  have "owner_at (rw_log w') (cp' i) (sp' i) (rw_pc w')" if i: "i < rw_n w" for i
  proof (cases "owner (sp' i)")
    case None
    then show ?thesis by (cases "sp' i") simp_all
  next
    case (Some u)
    show ?thesis
    proof (cases "u = t")
      case False
      then have "cp' i = cp i \<and> sp' i = sp i" using frame [OF i] Some by (auto simp: undisturbed_def)
      then show ?thesis using cr_invD(7) [OF inv i] claimed [OF i] False Some unfolding pc log
        by (cases "sp i") (auto simp: nth_append)
    qed (use own [OF i] Some in simp)
  qed
  moreover have "pc_ok (rw_n w) (rw_h w') (rw_log w') cp' sp' u (rw_pc w' u)" for u
    using pc' pc_ok_frame [OF cr_invD(5) [OF inv] _ pos head(1) frame claimed, of u]
    by (cases "u = t") (simp_all add: pc log(1))
  ultimately show ?thesis using log(2) ring head(2) cells unfolding cr_inv_def by simp
qed

definition owning :: "ring_pc \<Rightarrow> bool" where
  "owning pc \<longleftrightarrow> (\<exists>x pos got. pc = Push_store x pos \<or> pc = Push_publish pos \<or> pc = Pop_take pos \<or> pc = Pop_release pos got)"

lemma owner_owning:
  assumes "cr_inv cp sp w" "i < rw_n w" "owner (sp i) = Some t"
  shows "owning (rw_pc w t)"
  using cr_invD(7) [OF assms(1,2)] assms(3) by (cases "sp i") (auto simp: owning_def)

text \<open>A step that changes only where the thread is.\<close>

lemma cr_local:
  assumes inv: "cr_inv cp sp w" and own: "\<not> owning (rw_pc w t)" and pc: "pc_ok (rw_n w) (rw_h w) (rw_log w) cp sp t pc'"
  shows "cr_inv cp sp (w\<lparr>rw_pc := (rw_pc w)(t := pc'), rw_out := out\<rparr>)"
proof (rule cr_update [OF inv, of _ t pc' "[]"])
  show "owner_at (rw_log (w\<lparr>rw_pc := (rw_pc w)(t := pc'), rw_out := out\<rparr>)) (cp i) (sp i)
      (rw_pc (w\<lparr>rw_pc := (rw_pc w)(t := pc'), rw_out := out\<rparr>))" if "i < rw_n w" "owner (sp i) = Some t" for i
    using owner_owning [OF inv that] own by simp
qed (use cr_invD [OF inv] pc in \<open>simp_all add: undisturbed_def\<close>)

text \<open>What the sequence number says of a position that is not in the future.\<close>

lemma read_seq:
  assumes inv: "cr_inv cp sp w" and p: "p \<le> length (rw_log w)" and s: "s = slots (rw_ring w) ! slot_index (rw_ring w) (of_nat p)"
    and i: "i = p mod rw_n w"
  shows "cell_ok (rw_n w) (rw_h w) (rw_log w) i (cp i) (sp i) s"
    "sint (sequence s - of_nat p) = int (cp i) + (if published (sp i) then 1 else 0) - int p"
    "sint (sequence s - (of_nat p + 1)) = int (cp i) + (if published (sp i) then 1 else 0) - int p - 1"
proof -
  note n = ring_shape_n [OF cr_invD(1) [OF inv]]
  note T = cr_invD(2) [OF inv]
  have "0 < rw_n w" using n(1) by linarith
  then have "i < rw_n w" unfolding i by (rule mod_less_divisor)
  moreover have "s = slots (rw_ring w) ! i" using n(4) [of p] T p by (simp add: s i)
  ultimately show c: "cell_ok (rw_n w) (rw_h w) (rw_log w) i (cp i) (sp i) s" using cr_invD(6) [OF inv] by simp
  have b: "cp i + (if published (sp i) then 1 else 0) < 2 ^ 63" "p + 1 < 2 ^ 63"
    using cell_okD(2) [OF c] cr_invD(4) [OF inv] T n(2) p by auto
  have seq: "sequence s = of_nat (cp i + (if published (sp i) then 1 else 0))" by (rule cell_okD(6) [OF c])
  show "sint (sequence s - of_nat p) = int (cp i) + (if published (sp i) then 1 else 0) - int p"
    using sint_diff [OF b(1), of p] b(2) unfolding seq by simp
  have "sequence s - (of_nat p + 1) = of_nat (cp i + (if published (sp i) then 1 else 0)) - of_nat (p + 1)"
    unfolding seq by simp
  then have "sint (sequence s - (of_nat p + 1)) = int (cp i + (if published (sp i) then 1 else 0)) - int (p + 1)"
    using sint_diff [OF b] by (simp only:)
  then show "sint (sequence s - (of_nat p + 1)) = int (cp i) + (if published (sp i) then 1 else 0) - int p - 1" by simp
qed

section \<open>Every statement keeps it\<close>

lemma push_seq_ok:
  assumes inv: "cr_inv cp sp w" and pc: "rw_pc w t = Push_seq x pos"
  shows "pc_ok (rw_n w) (rw_h w) (rw_log w) cp sp t (fst (ring_stmt ok (rw_pc w t) (rw_ring w)))"
proof -
  obtain p where p: "pos = of_nat p" "p \<le> length (rw_log w)" using cr_invD(5) [OF inv, of t] pc by auto
  note r = read_seq [OF inv p(2) refl refl]
  have "cp (p mod rw_n w) = p"
    if "int (cp (p mod rw_n w)) + (if published (sp (p mod rw_n w)) then 1 else 0) - int p = 0"
    using that same_slot_less [of "cp (p mod rw_n w)" "rw_n w" p] cell_okD(1) [OF r(1)]
      ring_shape_n(1) [OF cr_invD(1) [OF inv]]
    by (auto split: if_splits)
  then show ?thesis using p r(2) by (auto simp: pc Let_def)
qed

lemma pop_seq_ok:
  assumes inv: "cr_inv cp sp w" and pc: "rw_pc w t = Pop_seq pos"
  shows "pc_ok (rw_n w) (rw_h w) (rw_log w) cp sp t (fst (ring_stmt ok (rw_pc w t) (rw_ring w)))"
proof -
  obtain p where p: "pos = of_nat p" "p \<le> rw_h w" using cr_invD(5) [OF inv, of t] pc by auto
  then have "p \<le> length (rw_log w)" using cr_invD(4) [OF inv] by simp
  note r = read_seq [OF inv this refl refl]
  have "cp (p mod rw_n w) = p \<and> published (sp (p mod rw_n w))"
    if "int (cp (p mod rw_n w)) + (if published (sp (p mod rw_n w)) then 1 else 0) - int p - 1 = 0"
    using that same_slot_less [of p "rw_n w" "cp (p mod rw_n w)"] cell_okD(1) [OF r(1)]
      ring_shape_n(1) [OF cr_invD(1) [OF inv]]
    by (auto split: if_splits)
  then show ?thesis using p r(3) by (auto simp: pc Let_def)
qed

lemma cell_claim_other:
  assumes "cell_ok n H log j p c s" "j \<noteq> length log mod n"
  shows "cell_ok n H (log @ [x]) j p c s"
proof -
  note c = cell_okD [OF assms(1)]
  have "length log \<noteq> p + n" "length log \<noteq> p" using assms(2) c(1) by auto
  then show ?thesis using c by (auto simp: cell_ok_def nth_append holding_def)
qed

lemma cell_take_other:
  assumes "cell_ok n H log j p c s" "j \<noteq> H mod n"
  shows "cell_ok n (H + 1) log j p c s"
proof -
  note c = cell_okD [OF assms(1)]
  have "p \<noteq> H" using assms(2) c(1) by auto
  then show ?thesis using c by (auto simp: cell_ok_def)
qed

text \<open>A producer that finds \<^verbatim>\<open>tail_\<close> where it read it: the slot there is free.\<close>

lemma push_claim_free:
  assumes inv: "cr_inv cp sp w" and pc: "rw_pc w t = Push_cas x pos" and eq: "q_tail (rw_ring w) = pos"
    and i: "i = length (rw_log w) mod rw_n w"
  shows "i < rw_n w" "pos = of_nat (length (rw_log w))" "cp i = length (rw_log w)" "sp i = Cl_new"
    "length (rw_log w) < rw_h w + rw_n w"
proof -
  note n = ring_shape_n [OF cr_invD(1) [OF inv]]
  have "0 < rw_n w" using n(1) by linarith
  then show "i < rw_n w" unfolding i by (rule mod_less_divisor)
  note c = cell_okD [OF cr_invD(6) [OF inv this]]
  obtain p where p: "pos = of_nat p" "p \<le> length (rw_log w)" "p \<le> cp (p mod rw_n w)"
    using cr_invD(5) [OF inv, of t] pc by auto
  have "p = length (rw_log w)" using eq p(1,2) cr_invD(2,3) [OF inv] of_nat_pos_inj [of p "length (rw_log w)"] by auto
  then show pos: "pos = of_nat (length (rw_log w))" and "cp i = length (rw_log w)"
    using p c(1,2) cr_invD(4) [OF inv] same_slot_eq [of "cp i" "rw_n w" "length (rw_log w)"] \<open>0 < rw_n w\<close> by (auto simp: i)
  then show "sp i = Cl_new" "length (rw_log w) < rw_h w + rw_n w" using c(2,4) by auto
qed

lemma push_claim:
  assumes inv: "cr_inv cp sp w" and pc: "rw_pc w t = Push_cas x pos" and eq: "q_tail (rw_ring w) = pos"
    and fit: "length (rw_log w) + 1 < 2 ^ 62" and i: "i = length (rw_log w) mod rw_n w"
  shows "cr_inv cp (sp(i := Cl_claimed t)) (w\<lparr>rw_ring := (rw_ring w)\<lparr>q_tail := pos + 1\<rparr>,
    rw_pc := (rw_pc w)(t := Push_store x pos), rw_log := rw_log w @ [x]\<rparr>)" (is "cr_inv cp ?sp ?w")
proof (rule cr_update [OF inv, of _ t "Push_store x pos" "[x]"])
  note f = push_claim_free [OF inv pc eq i]
  note c = cr_invD(6) [OF inv]
  show "undisturbed t (cp j) (sp j) (cp j) (?sp j)" for j using f(4) by (auto simp: undisturbed_def)
  show "cell_ok (rw_n w) (rw_h ?w) (rw_log ?w) j (cp j) (?sp j) (slots (rw_ring ?w) ! j)" if "j < rw_n w" for j
  proof (cases "j = i")
    case True
    then show ?thesis using cell_okD [OF c [OF f(1)]] f(3,4,5) ring_shape_n(1) [OF cr_invD(1) [OF inv]] cr_invD(4) [OF inv]
      by (auto simp: cell_ok_def)
  next
    case False
    then show ?thesis using cell_claim_other [OF c [OF that], of x] i by simp
  qed
  show "pc_ok (rw_n w) (rw_h ?w) (rw_log ?w) cp ?sp t (Push_store x pos)"
    using f(2,3) i by (auto simp: own_cell_def)
  show "owner_at (rw_log ?w) (cp j) (?sp j) (rw_pc ?w)" if "j < rw_n w" "owner (?sp j) = Some t" for j
    using that owner_owning [OF inv, of j t] pc f(2,3) by (auto simp: owning_def split: if_splits)
  show "q_tail (rw_ring ?w) = of_nat (length (rw_log ?w))" using f(2) by simp
  show "ring_shape (rw_ring ?w)" using cr_invD(1) [OF inv] by (simp add: ring_shape_def)
qed (use fit cr_invD(4) [OF inv] in simp_all)

text \<open>The statements of a thread on a slot that it owns.\<close>

lemma cell_bound:
  assumes inv: "cr_inv cp sp w" and i: "i < rw_n w"
  shows "cp i < 2 ^ 63"
  using cell_okD(2) [OF cr_invD(6) [OF inv i]] cr_invD(2,4) [OF inv] ring_shape_n(2) [OF cr_invD(1) [OF inv]] by simp

lemma owner_unique:
  assumes inv: "cr_inv cp sp w" and ij: "i < rw_n w" "j < rw_n w" and own: "owner (sp i) = Some t" "owner (sp j) = Some t"
  shows "j = i"
proof -
  have "(of_nat (cp i) :: 64 word) = of_nat (cp j)"
    using cr_invD(7) [OF inv ij(1)] cr_invD(7) [OF inv ij(2)] own by (cases "sp i"; cases "sp j") auto
  then have "cp i = cp j" using of_nat_pos_inj cell_bound [OF inv] ij by blast
  moreover have "cp i mod rw_n w = i" "cp j mod rw_n w = j"
    by (rule cell_okD(1) [OF cr_invD(6) [OF inv ij(1)]], rule cell_okD(1) [OF cr_invD(6) [OF inv ij(2)]])
  ultimately show ?thesis by metis
qed

lemma cr_slot:
  assumes inv: "cr_inv cp sp w" and own: "own_cell (rw_n w) cp sp c pos p" "owner c = Some t" and i: "i = p mod rw_n w"
    and cell: "\<And>s. cell_ok (rw_n w) (rw_h w) (rw_log w) i p c s \<Longrightarrow> cell_ok (rw_n w) (rw_h w) (rw_log w) i p' c' (f s)"
    and frame: "undisturbed t p c p' c'"
    and pc': "pc_ok (rw_n w) (rw_h w) (rw_log w) (cp(i := p')) (sp(i := c')) t pc'"
    and own': "owner c' = Some t \<Longrightarrow> owner_at (rw_log w) p' c' ((rw_pc w)(t := pc'))"
  shows "cr_inv (cp(i := p')) (sp(i := c')) (w\<lparr>rw_ring := set_slot pos f (rw_ring w), rw_pc := (rw_pc w)(t := pc'), rw_log := rw_log w @ []\<rparr>)"
    (is "cr_inv ?cp ?sp ?w")
proof (rule cr_update [OF inv, of _ t pc' "[]"])
  note n = ring_shape_n [OF cr_invD(1) [OF inv]]
  have "0 < rw_n w" using n(1) by linarith
  then have in': "i < rw_n w" unfolding i by (rule mod_less_divisor)
  have o: "cp i = p" "sp i = c" "pos = of_nat p" using own(1) by (simp_all add: own_cell_def i)
  then have "slot_index (rw_ring w) pos = i" using n(4) [of p] cell_bound [OF inv in'] i by simp
  then have s: "rw_ring ?w = (rw_ring w)\<lparr>slots := (slots (rw_ring w))[i := f (slots (rw_ring w) ! i)]\<rparr>"
    by (simp add: set_slot_def Let_def)
  show "undisturbed t (cp j) (sp j) (?cp j) (?sp j)" for j using frame o by (auto simp: undisturbed_def)
  show "cell_ok (rw_n w) (rw_h ?w) (rw_log ?w) j (?cp j) (?sp j) (slots (rw_ring ?w) ! j)" if "j < rw_n w" for j
    using cr_invD(6) [OF inv that] cell [of "slots (rw_ring w) ! i"] in' o unfolding s by (cases "j = i") auto
  show "owner_at (rw_log ?w) (?cp j) (?sp j) (rw_pc ?w)" if "j < rw_n w" "owner (?sp j) = Some t" for j
  proof (cases "j = i")
    case False
    then show ?thesis using owner_unique [OF inv in' that(1), of t] o(2) own(2) that(2) by simp
  qed (use own' that(2) in simp)
  show "ring_shape (rw_ring ?w)" "rw_n ?w = rw_n w" "q_tail (rw_ring ?w) = of_nat (length (rw_log ?w))"
    "rw_h w \<le> rw_h ?w" "rw_h ?w \<le> length (rw_log ?w)" "pc_ok (rw_n w) (rw_h ?w) (rw_log ?w) ?cp ?sp t pc'"
    using cr_invD(1,3,4) [OF inv] pc' unfolding s by (simp_all add: ring_shape_def)
qed (use cr_invD(2) [OF inv] in simp_all)

text \<open>A consumer that finds \<^verbatim>\<open>head_\<close> where it read it: the slot there is full.\<close>

lemma pop_claim_full:
  assumes inv: "cr_inv cp sp w" and pc: "rw_pc w t = Pop_cas pos" and eq: "q_head (rw_ring w) = pos"
    and i: "i = rw_h w mod rw_n w"
  shows "i < rw_n w" "cp i = rw_h w" "sp i = Cl_full" "rw_h w < length (rw_log w)"
proof -
  note n = ring_shape_n [OF cr_invD(1) [OF inv]]
  have n0: "0 < rw_n w" using n(1) by linarith
  then show "i < rw_n w" unfolding i by (rule mod_less_divisor)
  note c = cell_okD [OF cr_invD(6) [OF inv this]]
  obtain p where p: "pos = of_nat p" "p \<le> rw_h w" "p < cp (p mod rw_n w) \<or> p = cp (p mod rw_n w) \<and> published (sp (p mod rw_n w))"
    using cr_invD(5) [OF inv, of t] pc by auto
  have "unat pos = p" using p(1,2) cr_invD(2,4) [OF inv] by simp
  then have ph: "p = rw_h w" using eq by simp
  then have "\<not> p < cp (p mod rw_n w)"
    using c(1,2) same_slot_less [of p "rw_n w" "cp i"] i by auto
  then show 1: "cp i = rw_h w" using p(3) ph i by simp
  have "published (sp i)" using p(3) \<open>\<not> p < cp (p mod rw_n w)\<close> ph i by simp
  then show "sp i = Cl_full" using c(5) 1 by (simp add: published_def)
  then show "rw_h w < length (rw_log w)" using c(4) 1 by simp
qed

lemma pop_claim:
  assumes inv: "cr_inv cp sp w" and pc: "rw_pc w t = Pop_cas pos" and eq: "q_head (rw_ring w) = pos"
    and i: "i = rw_h w mod rw_n w"
  shows "cr_inv cp (sp(i := Cl_taking t)) (w\<lparr>rw_ring := (rw_ring w)\<lparr>q_head := pos + 1\<rparr>,
    rw_pc := (rw_pc w)(t := Pop_take pos), rw_log := rw_log w @ []\<rparr>)" (is "cr_inv cp ?sp ?w")
    "unat (pos + 1) = rw_h w + 1"
proof -
  note f = pop_claim_full [OF inv pc eq i]
  note c = cr_invD(6) [OF inv]
  have "unat pos + 1 < 2 ^ 64" using f(4) cr_invD(2) [OF inv] eq by simp
  then show h: "unat (pos + 1) = rw_h w + 1" using eq by (simp add: unat_word_ariths)
  have pos: "pos = of_nat (rw_h w)" using eq by simp
  show "cr_inv cp ?sp ?w"
  proof (rule cr_update [OF inv, of _ t "Pop_take pos" "[]"])
    show "undisturbed t (cp j) (sp j) (cp j) (?sp j)" for j using f(3) by (auto simp: undisturbed_def)
    show "cell_ok (rw_n w) (rw_h ?w) (rw_log ?w) j (cp j) (?sp j) (slots (rw_ring ?w) ! j)" if "j < rw_n w" for j
    proof (cases "j = i")
      case True
      then show ?thesis using cell_okD [OF c [OF f(1)]] f(2,3) h by (auto simp: cell_ok_def)
    next
      case False
      then show ?thesis using cell_take_other [OF c [OF that]] i h by simp
    qed
    show "pc_ok (rw_n w) (rw_h ?w) (rw_log ?w) cp ?sp t (Pop_take pos)"
      using f(2) i pos by (auto simp: own_cell_def intro: exI [of _ "rw_h w"])
    show "owner_at (rw_log ?w) (cp j) (?sp j) (rw_pc ?w)" if "j < rw_n w" "owner (?sp j) = Some t" for j
      using that owner_owning [OF inv, of j t] pc f(2) pos by (auto simp: owning_def split: if_splits)
    show "ring_shape (rw_ring ?w)" using cr_invD(1) [OF inv] by (simp add: ring_shape_def)
  qed (use f(4) h cr_invD(2,3) [OF inv] in simp_all)
qed

lemma own_store:
  assumes "cr_inv cp sp w" "rw_pc w t = Push_store x pos"
  shows "\<exists>cp' sp'. cr_inv cp' sp' (w\<lparr>rw_ring := set_slot pos (\<lambda>s. s\<lparr>payload := Some x\<rparr>) (rw_ring w),
    rw_pc := (rw_pc w)(t := Push_publish pos), rw_log := rw_log w @ []\<rparr>)"
proof -
  obtain p where p: "own_cell (rw_n w) cp sp (Cl_claimed t) pos p" "rw_log w ! p = x"
    using cr_invD(5) [OF assms(1), of t] assms(2) by auto
  show ?thesis
    by (intro exI, rule cr_slot [OF assms(1) p(1) _ refl, where p' = p and c' = "Cl_stored t"])
      (use p in \<open>auto simp: cell_ok_def undisturbed_def own_cell_def\<close>)
qed

lemma own_publish:
  assumes "cr_inv cp sp w" "rw_pc w t = Push_publish pos"
  shows "\<exists>cp' sp'. cr_inv cp' sp' (w\<lparr>rw_ring := set_slot pos (\<lambda>s. s\<lparr>sequence := pos + 1\<rparr>) (rw_ring w),
    rw_pc := (rw_pc w)(t := Push_done True), rw_log := rw_log w @ []\<rparr>)"
proof -
  obtain p where p: "own_cell (rw_n w) cp sp (Cl_stored t) pos p"
    using cr_invD(5) [OF assms(1), of t] assms(2) by auto
  show ?thesis
    by (intro exI, rule cr_slot [OF assms(1) p _ refl, where p' = p and c' = Cl_full])
      (use p in \<open>auto simp: cell_ok_def undisturbed_def own_cell_def\<close>)
qed

lemma own_take:
  assumes "cr_inv cp sp w" "rw_pc w t = Pop_take pos"
  shows "payload (slots (rw_ring w) ! slot_index (rw_ring w) pos) = Some (rw_log w ! unat pos)"
    "\<exists>cp' sp'. cr_inv cp' sp' (w\<lparr>rw_ring := set_slot pos (\<lambda>s. s\<lparr>payload := None\<rparr>) (rw_ring w),
      rw_pc := (rw_pc w)(t := Pop_release pos (payload (slots (rw_ring w) ! slot_index (rw_ring w) pos))), rw_log := rw_log w @ []\<rparr>)"
proof -
  note n = ring_shape_n [OF cr_invD(1) [OF assms(1)]]
  obtain p where p: "own_cell (rw_n w) cp sp (Cl_taking t) pos p"
    using cr_invD(5) [OF assms(1), of t] assms(2) by auto
  have "0 < rw_n w" using n(1) by linarith
  then have i: "p mod rw_n w < rw_n w" by (rule mod_less_divisor)
  then have u: "p < 2 ^ 63" "unat pos = p" using cell_bound [OF assms(1) i] p by (auto simp: own_cell_def)
  show got: "payload (slots (rw_ring w) ! slot_index (rw_ring w) pos) = Some (rw_log w ! unat pos)"
    using cell_okD(7) [OF cr_invD(6) [OF assms(1) i]] p n(4) [OF u(1)] u(2) by (simp add: own_cell_def)
  show "\<exists>cp' sp'. cr_inv cp' sp' (w\<lparr>rw_ring := set_slot pos (\<lambda>s. s\<lparr>payload := None\<rparr>) (rw_ring w),
      rw_pc := (rw_pc w)(t := Pop_release pos (payload (slots (rw_ring w) ! slot_index (rw_ring w) pos))), rw_log := rw_log w @ []\<rparr>)"
    unfolding got u(2)
    by (intro exI, rule cr_slot [OF assms(1) p _ refl, where p' = p and c' = "Cl_clearing t"])
      (use p in \<open>auto simp: cell_ok_def undisturbed_def own_cell_def\<close>)
qed

text \<open>A released slot is new at the position of the next round.\<close>

lemma own_release:
  assumes "cr_inv cp sp w" "rw_pc w t = Pop_release pos got"
  shows "\<exists>cp' sp'. cr_inv cp' sp' (w\<lparr>rw_ring := set_slot pos (\<lambda>s. s\<lparr>sequence := pos + q_mask (rw_ring w) + 1\<rparr>) (rw_ring w),
    rw_pc := (rw_pc w)(t := Pop_done got), rw_log := rw_log w @ []\<rparr>)"
proof -
  note n = ring_shape_n [OF cr_invD(1) [OF assms(1)]]
  obtain p where p: "own_cell (rw_n w) cp sp (Cl_clearing t) pos p"
    using cr_invD(5) [OF assms(1), of t] assms(2) by auto
  have "pos + q_mask (rw_ring w) + 1 = of_nat (p + rw_n w)"
    using p n(3) by (simp add: own_cell_def add.assoc)
  then have cell: "cell_ok (rw_n w) (rw_h w) (rw_log w) (p mod rw_n w) (p + rw_n w) Cl_new (s\<lparr>sequence := pos + q_mask (rw_ring w) + 1\<rparr>)"
    if "cell_ok (rw_n w) (rw_h w) (rw_log w) (p mod rw_n w) p (Cl_clearing t) s" for s
    using cell_okD [OF that] cr_invD(4) [OF assms(1)] by (auto simp: cell_ok_def)
  show ?thesis
    by (intro exI, rule cr_slot [OF assms(1) p _ refl cell]) (use n(1) in \<open>auto simp: undisturbed_def\<close>)
qed

lemma stmt_inv:
  assumes inv: "cr_inv cp sp w" and busy: "busy (rw_pc w t)"
    and stmt: "ring_stmt ok (rw_pc w t) (rw_ring w) = (pc', q, l)" and fit: "length (rw_log w @ l) < 2 ^ 62"
  shows "\<exists>cp' sp'. cr_inv cp' sp' (w\<lparr>rw_ring := q, rw_pc := (rw_pc w)(t := pc'), rw_log := rw_log w @ l\<rparr>)"
proof -
  have loc: ?thesis if "q = rw_ring w" "l = []" "\<not> owning (rw_pc w t)" "pc_ok (rw_n w) (rw_h w) (rw_log w) cp sp t pc'"
  proof -
    have "w\<lparr>rw_ring := q, rw_pc := (rw_pc w)(t := pc'), rw_log := rw_log w @ l\<rparr> =
        w\<lparr>rw_pc := (rw_pc w)(t := pc'), rw_out := rw_out w\<rparr>" using that(1,2) by simp
    then show ?thesis using cr_local [OF inv that(3,4), of "rw_out w"] by auto
  qed
  have tl: "pc_ok (rw_n w) (rw_h w) (rw_log w) cp sp t (Push_seq x (q_tail (rw_ring w)))" for x
    using cr_invD(3) [OF inv] by auto
  have hd: "pc_ok (rw_n w) (rw_h w) (rw_log w) cp sp t (Pop_seq (q_head (rw_ring w)))"
    by (auto intro: exI [of _ "rw_h w"])
  show ?thesis
  proof (cases "rw_pc w t")
    case (Push_load x)
    then show ?thesis using stmt tl by (intro loc) (auto simp: owning_def)
  next
    case (Push_seq x pos)
    then show ?thesis using stmt push_seq_ok [OF inv Push_seq, of ok] by (intro loc) (auto simp: owning_def Let_def)
  next
    case (Push_cas x pos)
    show ?thesis
    proof (cases "ok \<and> q_tail (rw_ring w) = pos")
      case True
      then show ?thesis using stmt Push_cas push_claim [OF inv Push_cas _ _ refl] fit by (intro exI) auto
    next
      case False
      then show ?thesis using stmt Push_cas tl [of x] by (intro loc) (auto simp: owning_def simp del: pc_ok.simps)
    qed
  next
    case (Push_store x pos)
    then show ?thesis using stmt own_store [OF inv Push_store] by auto
  next
    case (Push_publish pos)
    then show ?thesis using stmt own_publish [OF inv Push_publish] by auto
  next
    case Pop_load
    then show ?thesis using stmt hd by (intro loc) (auto simp: owning_def)
  next
    case (Pop_seq pos)
    then show ?thesis using stmt pop_seq_ok [OF inv Pop_seq, of ok] by (intro loc) (auto simp: owning_def Let_def)
  next
    case (Pop_cas pos)
    show ?thesis
    proof (cases "ok \<and> q_head (rw_ring w) = pos")
      case True
      then show ?thesis using stmt Pop_cas pop_claim(1) [OF inv Pop_cas _ refl] by auto
    next
      case False
      then show ?thesis using stmt Pop_cas hd by (intro loc) (auto simp: owning_def simp del: pc_ok.simps)
    qed
  next
    case (Pop_take pos)
    then show ?thesis using stmt own_take(2) [OF inv Pop_take] by auto
  next
    case (Pop_release pos got)
    then show ?thesis using stmt own_release [OF inv Pop_release] by auto
  qed (use busy in \<open>auto simp: busy_def\<close>)
qed

lemma rw_step_inv:
  assumes "rw_step C t w w'" "cr_inv cp sp w" "length (rw_log w') < 2 ^ 62"
  shows "\<exists>cp' sp'. cr_inv cp' sp' w'"
  using assms(1)
proof cases
  case (call_push x)
  then show ?thesis using cr_local [OF assms(2), of t "Push_load x" "rw_out w"] by (auto simp: owning_def)
next
  case call_pop
  then show ?thesis using cr_local [OF assms(2), of t Pop_load "rw_out w"] by (auto simp: owning_def)
next
  case (stmt ok pc q l)
  then show ?thesis using stmt_inv [OF assms(2) stmt(2,3)] assms(3) by auto
next
  case (ret_push b)
  then show ?thesis using cr_local [OF assms(2), of t RP_idle "rw_out w"] by (auto simp: owning_def)
next
  case (ret_pop got)
  then show ?thesis using cr_local [OF assms(2), of t RP_idle] by (auto simp: owning_def)
qed

lemma rw_step_log:
  assumes "rw_step C t w w'"
  shows "length (rw_log w) \<le> length (rw_log w') \<and> rw_n w' = rw_n w"
  using assms
proof cases
  case (stmt ok pc q l)
  have "length (slots q) = length (slots (rw_ring w))"
    using stmt(3) by (cases "rw_pc w t") (auto simp: set_slot_def Let_def split: if_splits)
  then show ?thesis using stmt(1) by simp
qed simp_all

lemma rw_moves_inv:
  assumes "(rw_move C)\<^sup>*\<^sup>* w0 w" "cr_inv cp0 sp0 w0" "length (rw_log w) < 2 ^ 62"
  shows "(\<exists>cp sp. cr_inv cp sp w) \<and> rw_n w = rw_n w0"
  using assms
proof (induction rule: rtranclp_induct)
  case (step w w')
  then obtain t where t: "rw_step C t w w'" by (auto simp: rw_move_def)
  from rw_step_log [OF t] step show ?case using rw_step_inv [OF t] by (metis order_le_less_trans)
qed blast

lemma init_inv:
  assumes "LogQueue_make cap = return q" "1 < cap" "cap \<le> 2 ^ 62"
  shows "cr_inv (\<lambda>i. i) (\<lambda>i. Cl_new) (ring_world_init q)" "length (slots q) = unat cap"
proof -
  have q: "q = \<lparr>slots = map (\<lambda>i. \<lparr>sequence = of_nat i, payload = None\<rparr>) [0..<unat cap], q_mask = cap - 1, q_head = 0, q_tail = 0\<rparr>"
    using assms(1) by (auto simp: LogQueue_make_def split: if_splits)
  have "ring_shape q" using LogQueue_make_inv(1) [OF assms] by (simp add: ring_inv_def ring_shape_def)
  then show "cr_inv (\<lambda>i. i) (\<lambda>i. Cl_new) (ring_world_init q)"
    unfolding cr_inv_def ring_world_init_def by (simp add: q cell_ok_def)
  show "length (slots q) = unat cap" by (simp add: q)
qed

end
