(* ===== verification/LogRingSpec.thy ===== *)
theory LogRingSpec
  imports LogRing
begin

text \<open>
  What the log ring promises to the threads that use it: it refines a bounded queue with one step for
  each call, a single consumer gets the lines in the order in which the producers claimed their
  slots, what a refusal means, that a thread left alone ends, and that the operations of one thread
  are those of \<^verbatim>\<open>AsyncLogger\<close>.
\<close>

section \<open>The queue it implements\<close>

text \<open>The lines put in so far, those in the queue, the line that each thread has taken and not returned yet,
  and those returned.\<close>

record mq =
  mq_in :: "string list"
  mq_items :: "string list"
  mq_result :: "nat \<Rightarrow> string option"
  mq_out :: "string list"

definition mq_empty :: mq where
  "mq_empty = \<lparr>mq_in = [], mq_items = [], mq_result = (\<lambda>t. None), mq_out = []\<rparr>"

inductive mq_step :: "nat set \<Rightarrow> nat \<Rightarrow> mq \<Rightarrow> mq \<Rightarrow> bool" for C cap where
  put: "length (mq_items s) < cap \<Longrightarrow> mq_step C cap s (s\<lparr>mq_in := mq_in s @ [x], mq_items := mq_items s @ [x]\<rparr>)"
| take: "t \<in> C \<Longrightarrow> mq_items s = x # xs \<Longrightarrow> mq_result s t = None \<Longrightarrow>
    mq_step C cap s (s\<lparr>mq_items := xs, mq_result := (mq_result s)(t := Some x)\<rparr>)"
| deliver: "t \<in> C \<Longrightarrow> mq_result s t = Some x \<Longrightarrow>
    mq_step C cap s (s\<lparr>mq_result := (mq_result s)(t := None), mq_out := mq_out s @ [x]\<rparr>)"

fun pc_result :: "string list \<Rightarrow> ring_pc \<Rightarrow> string option" where
  "pc_result log (Pop_take pos) = Some (log ! unat pos)"
| "pc_result log (Pop_release pos got) = got"
| "pc_result log (Pop_done got) = got"
| "pc_result log _ = None"

definition rw_abs :: "ring_world \<Rightarrow> mq" where
  "rw_abs w = \<lparr>mq_in = rw_log w, mq_items = drop (rw_h w) (rw_log w), mq_result = (\<lambda>t. pc_result (rw_log w) (rw_pc w t)),
     mq_out = rw_out w\<rparr>"

text \<open>With one consumer nothing is lost and the order is kept.\<close>

definition in_order :: "nat \<Rightarrow> mq \<Rightarrow> bool" where
  "in_order c s \<longleftrightarrow> mq_out s @ (case mq_result s c of None \<Rightarrow> [] | Some x \<Rightarrow> [x]) @ mq_items s = mq_in s"

lemma mq_in_order: "(mq_step {c} cap)\<^sup>*\<^sup>* mq_empty s \<Longrightarrow> in_order c s"
proof (induction rule: rtranclp_induct)
  case base
  show ?case by (simp add: in_order_def mq_empty_def)
next
  case (step s s')
  from step.hyps(2) step.IH show ?case
    by cases (auto simp: in_order_def split: option.splits simp flip: append_assoc)
qed

section \<open>Simulation\<close>

definition popping :: "ring_pc \<Rightarrow> bool" where
  "popping pc \<longleftrightarrow> (\<exists>pos got. pc = Pop_load \<or> pc = Pop_seq pos \<or> pc = Pop_cas pos \<or> pc = Pop_take pos \<or>
     pc = Pop_release pos got \<or> pc = Pop_done got)"

lemma stmt_popping: "ring_stmt ok pc q = (pc', q', l) \<Longrightarrow> popping pc' \<longleftrightarrow> popping pc"
  by (cases pc) (auto simp: popping_def Let_def split: if_splits)

lemma only_consumers_pop:
  assumes "(rw_move C)\<^sup>*\<^sup>* (ring_world_init q) w" "popping (rw_pc w t)"
  shows "t \<in> C"
  using assms
proof (induction arbitrary: t rule: rtranclp_induct)
  case base
  then show ?case by (simp add: ring_world_init_def popping_def)
next
  case (step w w')
  then obtain u where "rw_step C u w w'" by (auto simp: rw_move_def)
  then show ?case
    using step.prems step.IH [of t]
    by cases (auto simp: popping_def dest: stmt_popping split: if_splits)
qed

lemma result_append:
  assumes inv: "cr_inv cp sp w"
  shows "pc_result (rw_log w @ l) (rw_pc w u) = pc_result (rw_log w) (rw_pc w u)"
proof (cases "rw_pc w u")
  case (Pop_take pos)
  then obtain p where p: "own_cell (rw_n w) cp sp (Cl_taking u) pos p" using cr_invD(5) [OF inv, of u] by auto
  have "0 < rw_n w" using ring_shape_n(1) [OF cr_invD(1) [OF inv]] by linarith
  then have i: "p mod rw_n w < rw_n w" by (rule mod_less_divisor)
  have "p < length (rw_log w)" using cell_okD(4) [OF cr_invD(6) [OF inv i]] p by (auto simp: own_cell_def)
  moreover have "unat pos = p" using cell_bound [OF inv i] p by (auto simp: own_cell_def)
  ultimately show ?thesis using Pop_take by (simp add: nth_append)
qed simp_all

lemma stmt_refines:
  assumes inv: "cr_inv cp sp w" and busy: "busy (rw_pc w t)" and t: "popping (rw_pc w t) \<Longrightarrow> t \<in> C"
    and stmt: "ring_stmt ok (rw_pc w t) (rw_ring w) = (pc', q, l)"
    and w': "w' = w\<lparr>rw_ring := q, rw_pc := (rw_pc w)(t := pc'), rw_log := rw_log w @ l\<rparr>"
  shows "rw_abs w' = rw_abs w \<or> mq_step C (rw_n w) (rw_abs w) (rw_abs w')"
proof -
  have same: ?thesis if "l = []" "q_head q = q_head (rw_ring w)" "pc_result (rw_log w) pc' = pc_result (rw_log w) (rw_pc w t)"
    using that by (auto simp: rw_abs_def w' fun_eq_iff)
  show ?thesis
  proof (cases "rw_pc w t")
    case (Push_cas x pos)
    show ?thesis
    proof (cases "ok \<and> q_tail (rw_ring w) = pos")
      case True
      then have eq: "pc' = Push_store x pos" "q = (rw_ring w)\<lparr>q_tail := pos + 1\<rparr>" "l = [x]" using stmt Push_cas by auto
      have "length (rw_log w) - rw_h w < rw_n w"
        using push_claim_free(5) [OF inv Push_cas _ refl] True cr_invD(4) [OF inv] by linarith
      then have "mq_step C (rw_n w) (rw_abs w) ((rw_abs w)\<lparr>mq_in := mq_in (rw_abs w) @ [x], mq_items := mq_items (rw_abs w) @ [x]\<rparr>)"
        by (intro mq_step.put) (simp add: rw_abs_def)
      moreover have "rw_abs w' = (rw_abs w)\<lparr>mq_in := mq_in (rw_abs w) @ [x], mq_items := mq_items (rw_abs w) @ [x]\<rparr>"
        using cr_invD(4) [OF inv] result_append [OF inv] Push_cas by (simp add: rw_abs_def w' eq fun_eq_iff)
      ultimately show ?thesis by simp
    next
      case False
      then show ?thesis using stmt Push_cas by (intro same) auto
    qed
  next
    case (Pop_cas pos)
    show ?thesis
    proof (cases "ok \<and> q_head (rw_ring w) = pos")
      case True
      then have eq: "pc' = Pop_take pos" "q = (rw_ring w)\<lparr>q_head := pos + 1\<rparr>" "l = []" using stmt Pop_cas by auto
      have h: "unat (pos + 1) = rw_h w + 1" "rw_h w < length (rw_log w)"
        using pop_claim(2) [OF inv Pop_cas _ refl] pop_claim_full(4) [OF inv Pop_cas _ refl] True by auto
      let ?s = "(rw_abs w)\<lparr>mq_items := drop (rw_h w + 1) (rw_log w),
        mq_result := (mq_result (rw_abs w))(t := Some (rw_log w ! rw_h w))\<rparr>"
      have "mq_step C (rw_n w) (rw_abs w) ?s"
        by (rule mq_step.take [OF t]) (use h(2) Pop_cas in \<open>auto simp: rw_abs_def popping_def Cons_nth_drop_Suc\<close>)
      moreover have "rw_abs w' = ?s" using h True by (auto simp: rw_abs_def w' eq fun_eq_iff)
      ultimately show ?thesis by simp
    next
      case False
      then show ?thesis using stmt Pop_cas by (intro same) auto
    qed
  next
    case (Pop_take pos)
    then show ?thesis using stmt own_take(1) [OF inv Pop_take] by (intro same) (auto simp: set_slot_def Let_def)
  qed (use stmt busy in \<open>(intro same; auto simp: set_slot_def Let_def busy_def)+\<close>)
qed

lemma rw_step_refines:
  assumes step: "rw_step C t w w'" and inv: "cr_inv cp sp w" and t: "popping (rw_pc w t) \<Longrightarrow> t \<in> C"
  shows "rw_abs w' = rw_abs w \<or> mq_step C (rw_n w) (rw_abs w) (rw_abs w')"
  using step
proof cases
  case (stmt ok pc q l)
  then show ?thesis using stmt_refines [OF inv stmt(2) t stmt(3) stmt(1)] by simp
next
  case (ret_pop got)
  show ?thesis
  proof (cases got)
    case None
    then show ?thesis using ret_pop by (auto simp: rw_abs_def fun_eq_iff)
  next
    case (Some x)
    let ?s = "(rw_abs w)\<lparr>mq_result := (mq_result (rw_abs w))(t := None), mq_out := mq_out (rw_abs w) @ [x]\<rparr>"
    have "mq_step C (rw_n w) (rw_abs w) ?s"
      by (rule mq_step.deliver [OF t]) (use ret_pop Some in \<open>auto simp: rw_abs_def popping_def\<close>)
    moreover have "rw_abs w' = ?s" using ret_pop Some by (auto simp: rw_abs_def fun_eq_iff)
    ultimately show ?thesis by simp
  qed
qed (auto simp: rw_abs_def fun_eq_iff)

lemma rw_moves_refine:
  assumes "(rw_move C)\<^sup>*\<^sup>* (ring_world_init q) w" "cr_inv cp0 sp0 (ring_world_init q)" "length (rw_log w) < 2 ^ 62"
  shows "(mq_step C (length (slots q)))\<^sup>*\<^sup>* (rw_abs (ring_world_init q)) (rw_abs w)"
  using assms
proof (induction rule: rtranclp_induct)
  case (step w w')
  then obtain t where t: "rw_step C t w w'" by (auto simp: rw_move_def)
  have fit: "length (rw_log w) < 2 ^ 62" using rw_step_log [OF t] step.prems by linarith
  obtain cp sp where inv: "cr_inv cp sp w" and n: "rw_n w = length (slots q)"
    using rw_moves_inv [OF step.hyps(1) step.prems(1) fit] by (auto simp: ring_world_init_def)
  have "popping (rw_pc w t) \<Longrightarrow> t \<in> C" by (rule only_consumers_pop [OF step.hyps(1)])
  from rw_step_refines [OF t inv this] step.IH [OF step.prems(1) fit] show ?case
    unfolding n by (auto intro: rtranclp.rtrancl_into_rtrancl)
qed simp

section \<open>Refusals\<close>

definition emptying :: "64 word \<Rightarrow> ring_pc \<Rightarrow> bool" where
  "emptying pos pc \<longleftrightarrow> pc = Pop_take pos \<or> (\<exists>got. pc = Pop_release pos got)"

definition filling :: "64 word \<Rightarrow> ring_pc \<Rightarrow> bool" where
  "filling pos pc \<longleftrightarrow> (\<exists>x. pc = Push_store x pos) \<or> pc = Push_publish pos"

lemma slot_of_pos:
  assumes inv: "cr_inv cp sp w"
  shows "p mod rw_n w < rw_n w"
  using ring_shape_n(1) [OF cr_invD(1) [OF inv]] by (intro mod_less_divisor) linarith

lemma items_bound:
  assumes inv: "cr_inv cp sp w"
  shows "length (rw_log w) \<le> rw_h w + rw_n w"
proof -
  note c = cell_okD [OF cr_invD(6) [OF inv slot_of_pos [OF inv, of "rw_h w"]]]
  have "\<not> rw_h w < cp (rw_h w mod rw_n w)" using c(2) same_slot_less [OF c(1) [symmetric]] by linarith
  then show ?thesis using c(3) by linarith
qed

lemma push_refused:
  assumes inv: "cr_inv cp sp w" and pc: "rw_pc w t = Push_seq x pos"
    and no: "fst (ring_stmt ok (rw_pc w t) (rw_ring w)) = Push_done False"
  shows "length (mq_items (rw_abs w)) = rw_n w \<or> (\<exists>u. emptying (q_tail (rw_ring w) - of_nat (rw_n w)) (rw_pc w u))"
proof -
  obtain p where p: "pos = of_nat p" "p \<le> length (rw_log w)" using cr_invD(5) [OF inv, of t] pc by auto
  define i where "i = p mod rw_n w"
  note r = read_seq [OF inv p(2) refl i_def]
  have i: "i < rw_n w" unfolding i_def by (rule slot_of_pos [OF inv])
  note c = cell_okD [OF r(1)]
  have "cp i < p" using no r(2) p(1) by (auto simp: pc Let_def split: if_splits)
  then have "cp i + rw_n w \<le> p" using same_slot_less [of "cp i" "rw_n w" p] c(1) by (simp add: i_def)
  then have eq: "cp i + rw_n w = length (rw_log w)" using c(3) p(2) by linarith
  then have tail: "q_tail (rw_ring w) - of_nat (rw_n w) = of_nat (cp i)" using cr_invD(3) [OF inv] by (simp flip: eq)
  show ?thesis
  proof (cases "removing (sp i)")
    case True
    then show ?thesis using cr_invD(7) [OF inv i] unfolding tail by (auto simp: removing_def emptying_def)
  next
    case False
    then have "length (rw_log w) - rw_h w = rw_n w" using c(5) eq items_bound [OF inv] by linarith
    then show ?thesis by (simp add: rw_abs_def)
  qed
qed

lemma pop_refused:
  assumes inv: "cr_inv cp sp w" and pc: "rw_pc w t = Pop_seq pos"
    and no: "fst (ring_stmt ok (rw_pc w t) (rw_ring w)) = Pop_done None"
  shows "mq_items (rw_abs w) = [] \<or> (\<exists>u. filling (q_head (rw_ring w)) (rw_pc w u))"
proof -
  obtain p where p: "pos = of_nat p" "p \<le> rw_h w" using cr_invD(5) [OF inv, of t] pc by auto
  then have pT: "p \<le> length (rw_log w)" using cr_invD(4) [OF inv] by simp
  define i where "i = p mod rw_n w"
  note r = read_seq [OF inv pT refl i_def]
  have i: "i < rw_n w" unfolding i_def by (rule slot_of_pos [OF inv])
  note c = cell_okD [OF r(1)]
  have no': "cp i \<le> p" "cp i = p \<Longrightarrow> \<not> published (sp i)" using no r(3) p(1) by (auto simp: pc Let_def split: if_splits)
  show ?thesis
  proof (cases "cp i = p")
    case True
    have h: "rw_h w = p" using no'(2) [OF True] True c(5) p(2) by (auto simp: published_def)
    then have head: "q_head (rw_ring w) = of_nat p" by (simp flip: h)
    show ?thesis
    proof (cases "sp i")
      case Cl_new
      then show ?thesis using c(4) True h by (simp add: rw_abs_def)
    qed (use cr_invD(7) [OF inv i] True no'(2) in \<open>auto simp: head filling_def\<close>)
  next
    case False
    then have "cp i + rw_n w \<le> p" using no'(1) same_slot_less [of "cp i" "rw_n w" p] c(1) by (simp add: i_def)
    then have "length (rw_log w) \<le> rw_h w" using c(3) p(2) by linarith
    then show ?thesis by (simp add: rw_abs_def)
  qed
qed

lemma refusal_cases:
  assumes inv: "cr_inv cp sp w" and step: "rw_step C t w w'" and busy: "busy (rw_pc w t)"
  shows "rw_pc w' t = Push_done False \<Longrightarrow> \<exists>x pos ok. rw_pc w t = Push_seq x pos \<and> fst (ring_stmt ok (rw_pc w t) (rw_ring w)) = Push_done False"
    and "rw_pc w' t = Pop_done None \<Longrightarrow> \<exists>pos ok. rw_pc w t = Pop_seq pos \<and> fst (ring_stmt ok (rw_pc w t) (rw_ring w)) = Pop_done None"
proof -
  from step busy obtain ok where s: "rw_pc w' t = fst (ring_stmt ok (rw_pc w t) (rw_ring w))"
    by cases (auto simp: busy_def, metis fst_conv)
  have rel: "rw_pc w t \<noteq> Pop_release pos None" for pos using cr_invD(5) [OF inv, of t] by auto
  show "\<exists>x pos ok. rw_pc w t = Push_seq x pos \<and> fst (ring_stmt ok (rw_pc w t) (rw_ring w)) = Push_done False"
    if "rw_pc w' t = Push_done False"
    using that s busy by (cases "rw_pc w t") (auto simp: busy_def Let_def split: if_splits)
  show "\<exists>pos ok. rw_pc w t = Pop_seq pos \<and> fst (ring_stmt ok (rw_pc w t) (rw_ring w)) = Pop_done None"
    if "rw_pc w' t = Pop_done None"
    using that s busy rel by (cases "rw_pc w t") (auto simp: busy_def Let_def split: if_splits)
qed

section \<open>One thread alone\<close>

fun solo :: "nat \<Rightarrow> ring_pc \<Rightarrow> LogQueue \<Rightarrow> ring_pc \<times> LogQueue" where
  "solo 0 pc q = (pc, q)"
| "solo (Suc n) pc q = (case ring_stmt True pc q of (pc', q', l) \<Rightarrow> solo n pc' q')"

lemma solo_idle: "\<not> busy pc \<Longrightarrow> solo n pc q = (pc, q)"
  by (induction n) (cases pc; auto simp: busy_def)+

lemma solo_add: "solo (m + n) pc q = (case solo m pc q of (pc', q') \<Rightarrow> solo n pc' q')"
  by (induction m pc q rule: solo.induct) (auto split: prod.split)

lemma solo_more: "\<not> busy (fst (solo m pc q)) \<Longrightarrow> m \<le> n \<Longrightarrow> solo n pc q = solo m pc q"
  using solo_add [of m "n - m" pc q] solo_idle [of "fst (solo m pc q)"] by (cases "solo m pc q") simp

text \<open>A counter that was just loaded is never behind its slot, so the loop is not taken again.\<close>

lemma fresh_push:
  assumes inv: "cr_inv cp sp w"
  shows "\<not> busy (fst (solo 4 (Push_seq x (q_tail (rw_ring w))) (rw_ring w)))"
proof -
  define i where "i = length (rw_log w) mod rw_n w"
  note r = read_seq [OF inv order_refl refl i_def]
  note c = cell_okD [OF r(1)]
  have "\<not> length (rw_log w) < cp i" using c(1,2) cr_invD(4) [OF inv] same_slot_less [of "length (rw_log w)" "rw_n w" "cp i"]
    by (auto simp: i_def)
  moreover have "cp i = length (rw_log w) \<Longrightarrow> \<not> published (sp i)" using c(4) by auto
  moreover have "cp i < length (rw_log w) \<Longrightarrow> cp i + 2 \<le> length (rw_log w)"
    using same_slot_less [of "cp i" "rw_n w" "length (rw_log w)"] c(1) ring_shape_n(1) [OF cr_invD(1) [OF inv]]
    by (auto simp: i_def)
  ultimately have "int (cp i) + (if published (sp i) then 1 else 0) \<le> int (length (rw_log w))"
    by (cases "cp i = length (rw_log w)") auto
  then have "sint (sequence (slots (rw_ring w) ! slot_index (rw_ring w) (q_tail (rw_ring w))) - q_tail (rw_ring w)) \<le> 0"
    using r(2) cr_invD(3) [OF inv] by simp
  then show ?thesis by (auto simp: numeral_eq_Suc Let_def busy_def)
qed

lemma fresh_pop:
  assumes inv: "cr_inv cp sp w"
  shows "\<not> busy (fst (solo 4 (Pop_seq (q_head (rw_ring w))) (rw_ring w)))"
proof -
  define i where "i = rw_h w mod rw_n w"
  note r = read_seq [OF inv cr_invD(4) [OF inv] refl i_def]
  note c = cell_okD [OF r(1)]
  have "\<not> rw_h w < cp i" using c(1,2) same_slot_less [of "rw_h w" "rw_n w" "cp i"] by (auto simp: i_def)
  then have "int (cp i) \<le> int (rw_h w)" by linarith
  then have "sint (sequence (slots (rw_ring w) ! slot_index (rw_ring w) (q_head (rw_ring w))) - (q_head (rw_ring w) + 1)) \<le> 0"
    using r(3) by auto
  then show ?thesis by (auto simp: numeral_eq_Suc Let_def busy_def)
qed

lemma solo_det: "\<not> busy (fst (solo m pc q)) \<Longrightarrow> \<not> busy (fst (solo n pc q)) \<Longrightarrow> solo m pc q = solo n pc q"
  by (metis linear solo_more)

lemma solo_result: "solo m pc q = (a, q1) \<Longrightarrow> \<not> busy a \<Longrightarrow> solo n pc q = (b, q2) \<Longrightarrow> \<not> busy b \<Longrightarrow> a = b \<and> q1 = q2"
  using solo_det [of m pc q n] by simp

lemma solo_ends:
  assumes inv: "cr_inv cp sp w"
  shows "\<not> busy (fst (solo 6 (rw_pc w t) (rw_ring w)))"
proof -
  let ?q = "rw_ring w"
  have done': "\<not> busy (fst (solo n (Push_done b) q))" "\<not> busy (fst (solo n (Pop_done g) q))" "\<not> busy (fst (solo n RP_idle q))" for n b g q
    using solo_idle by (simp_all add: busy_def)
  have push: "\<not> busy (fst (solo n (Push_seq x (q_tail ?q)) ?q))" if "4 \<le> n" for n x
    using solo_more [OF fresh_push [OF inv] that] fresh_push [OF inv] by simp
  have pop: "\<not> busy (fst (solo n (Pop_seq (q_head ?q)) ?q))" if "4 \<le> n" for n
    using solo_more [OF fresh_pop [OF inv] that] fresh_pop [OF inv] by simp
  have load: "\<not> busy (fst (solo (Suc n) (Push_load x) ?q))" "\<not> busy (fst (solo (Suc n) Pop_load ?q))" if "4 \<le> n" for n x
    using push [OF that] pop [OF that] by simp_all
  have cas: "\<not> busy (fst (solo (Suc n) (Push_cas x pos) ?q))" "\<not> busy (fst (solo (Suc n) (Pop_cas pos) ?q))" if "4 \<le> n" for n x pos
  proof -
    have "n = Suc (Suc (n - 2))" using that by simp
    then obtain m where n: "n = Suc (Suc m)" by blast
    then show "\<not> busy (fst (solo (Suc n) (Push_cas x pos) ?q))"
      using push [OF that] done'(1) by (cases "q_tail ?q = pos") simp_all
    from n show "\<not> busy (fst (solo (Suc n) (Pop_cas pos) ?q))"
      using pop [OF that] done'(2) by (cases "q_head ?q = pos") simp_all
  qed
  have six: "solo 6 pc q = (case ring_stmt True pc q of (pc', q', l) \<Rightarrow> solo 5 pc' q')"
    "solo 5 pc q = (case ring_stmt True pc q of (pc', q', l) \<Rightarrow> solo 4 pc' q')" for pc q
    using solo.simps(2) [of 5 pc q] solo.simps(2) [of 4 pc q] by simp_all
  show ?thesis
  proof (cases "rw_pc w t")
    case (Push_load x)
    then show ?thesis using load(1) [of 5 x] by simp
  next
    case (Push_seq x pos)
    then show ?thesis using load(1) [of 4 x] cas(1) [of 4 x pos] done' by (simp add: Let_def six(1))
  next
    case (Push_cas x pos)
    then show ?thesis using cas(1) [of 5 x pos] by simp
  next
    case Pop_load
    then show ?thesis using load(2) [of 5] by simp
  next
    case (Pop_seq pos)
    then show ?thesis using load(2) [of 4] cas(2) [of 4 pos] done' by (simp add: Let_def six(1))
  next
    case (Pop_cas pos)
    then show ?thesis using cas(2) [of 5 pos] by simp
  qed (use done' in \<open>simp_all add: six\<close>)
qed

text \<open>The operations of \<^verbatim>\<open>AsyncLogger\<close> are these runs, also where they do not end.\<close>

lemma slot_twice:
  "set_slot pos g (set_slot pos f q) = set_slot pos (\<lambda>s. g (f s)) q"
  by (cases "slot_index q pos < length (slots q)") (simp_all add: set_slot_def slot_index_def Let_def list_update_beyond not_less)

lemma slot_eq: "s\<lparr>payload := p, sequence := n\<rparr> = \<lparr>sequence = n, payload = p\<rparr>" for s :: Slot
  by simp

lemmas slot_simps = slot_eq set_slot_def slot_index_def

lemma push_solo_ends:
  assumes "push (Some x) q = Some (b, q')"
  shows "solo 5 (Push_load x) q = (Push_done b, q')"
proof -
  define pos where "pos = q_tail q"
  define diff where "diff = sint (sequence (slots q ! slot_index q pos) - pos)"
  have s: "solo 5 (Push_load x) q = (if diff = 0 then (Push_done True, set_slot pos (\<lambda>s. s\<lparr>sequence := pos + 1\<rparr>)
      (set_slot pos (\<lambda>s. s\<lparr>payload := Some x\<rparr>) (q\<lparr>q_tail := pos + 1\<rparr>)))
    else if diff < 0 then (Push_done False, q) else solo 3 (Push_load x) q)"
    by (simp add: numeral_eq_Suc Let_def diff_def pos_def)
  show ?thesis using assms unfolding s slot_twice
    by (auto simp: push_def Let_def diff_def pos_def slot_simps split: if_splits)
qed

lemma push_solo_spins:
  assumes "push (Some x) q = None"
  shows "solo n (Push_load x) q \<in> {(Push_load x, q), (Push_seq x (q_tail q), q)}"
proof -
  have d: "0 < sint (sequence (slots q ! slot_index q (q_tail q)) - q_tail q)"
    using assms by (auto simp: push_def Let_def split: if_splits)
  have "solo n (Push_load x) q \<in> {(Push_load x, q), (Push_seq x (q_tail q), q)} \<and>
    solo n (Push_seq x (q_tail q)) q \<in> {(Push_load x, q), (Push_seq x (q_tail q), q)}"
    using d by (induction n) (auto simp: Let_def)
  then show ?thesis by simp
qed

lemma pop_solo_ends:
  assumes "pop None q = Some (b, got, q')"
  shows "solo 5 Pop_load q = (Pop_done got, q') \<and> b = (got \<noteq> None)"
proof -
  define pos where "pos = q_head q"
  define diff where "diff = sint (sequence (slots q ! slot_index q pos) - (pos + 1))"
  have s: "solo 5 Pop_load q = (if diff = 0 then (Pop_done (payload (slots q ! slot_index q pos)),
      set_slot pos (\<lambda>s. s\<lparr>sequence := pos + q_mask q + 1\<rparr>) (set_slot pos (\<lambda>s. s\<lparr>payload := None\<rparr>) (q\<lparr>q_head := pos + 1\<rparr>)))
    else if diff < 0 then (Pop_done None, q) else solo 3 Pop_load q)"
    by (simp add: numeral_eq_Suc Let_def diff_def pos_def slot_index_def set_slot_def)
  show ?thesis using assms unfolding s slot_twice
    by (auto simp: pop_def Let_def diff_def pos_def slot_simps split: if_splits)
qed

lemma pop_solo_spins:
  assumes "pop None q = None"
  shows "solo n Pop_load q \<in> {(Pop_load, q), (Pop_seq (q_head q), q)}"
proof -
  have d: "0 < sint (sequence (slots q ! slot_index q (q_head q)) - (q_head q + 1))"
    using assms by (auto simp: pop_def Let_def split: if_splits)
  have "solo n Pop_load q \<in> {(Pop_load, q), (Pop_seq (q_head q), q)} \<and>
    solo n (Pop_seq (q_head q)) q \<in> {(Pop_load, q), (Pop_seq (q_head q), q)}"
    using d by (induction n) (auto simp: Let_def)
  then show ?thesis by simp
qed

section \<open>Properties\<close>

text \<open>C5. The lock-free log ring refines a bounded queue: whatever the number of producers and consumers and
  however their loads, stores and compare-exchanges interleave, every reachable state of the ring is
  a state of a queue that is never over its capacity, in which a line is put in by one step and
  taken, by one consumer, in the order of arrival. The run may claim up to \<open>2 ^ 62\<close> slots.\<close>

theorem ring_refines_queue:
  assumes "LogQueue_make cap = return q" "1 < cap" "cap \<le> 2 ^ 62"
    and "(rw_move C)\<^sup>*\<^sup>* (ring_world_init q) w" "length (rw_log w) < 2 ^ 62"
  shows "(mq_step C (unat cap))\<^sup>*\<^sup>* mq_empty (rw_abs w)"
proof -
  have "rw_abs (ring_world_init q) = mq_empty" by (simp add: rw_abs_def ring_world_init_def mq_empty_def)
  with rw_moves_refine [OF assms(4) init_inv(1) [OF assms(1-3)] assms(5)] init_inv(2) [OF assms(1-3)]
  show ?thesis by simp
qed

text \<open>C6. With the worker as the only consumer, the lines that \<^verbatim>\<open>pop\<close> has returned, the one that it is about to
  return and those in the ring are together exactly the lines for which \<^verbatim>\<open>push\<close> has claimed a slot, in
  the order of the claims: concurrent producers lose, double and reorder nothing.\<close>

theorem ring_single_consumer:
  assumes "LogQueue_make cap = return q" "1 < cap" "cap \<le> 2 ^ 62"
    and "(rw_move {worker})\<^sup>*\<^sup>* (ring_world_init q) w" "length (rw_log w) < 2 ^ 62"
  shows "rw_out w @ (case pc_result (rw_log w) (rw_pc w worker) of None \<Rightarrow> [] | Some x \<Rightarrow> [x]) @ drop (rw_h w) (rw_log w) = rw_log w"
proof -
  have "rw_abs (ring_world_init q) = mq_empty" by (simp add: rw_abs_def ring_world_init_def mq_empty_def)
  with rw_moves_refine [OF assms(4) init_inv(1) [OF assms(1-3)] assms(5)]
  have "in_order worker (rw_abs w)" by (intro mq_in_order) simp
  then show ?thesis by (simp add: in_order_def rw_abs_def)
qed

text \<open>C16. What a refusal means: when \<^verbatim>\<open>push\<close> returns false the queue is full, or a consumer is still emptying the
  slot that is next; when \<^verbatim>\<open>pop\<close> returns false the queue is empty, or a producer is still filling the slot
  that is next.\<close>

theorem ring_refusals:
  assumes "LogQueue_make cap = return q" "1 < cap" "cap \<le> 2 ^ 62"
    and "(rw_move C)\<^sup>*\<^sup>* (ring_world_init q) w" "length (rw_log w) < 2 ^ 62"
    and "rw_step C t w w'" "busy (rw_pc w t)"
  shows "(rw_pc w' t = Push_done False \<longrightarrow> length (mq_items (rw_abs w)) = unat cap \<or>
      (\<exists>u. emptying (q_tail (rw_ring w) - cap) (rw_pc w u))) \<and>
    (rw_pc w' t = Pop_done None \<longrightarrow> mq_items (rw_abs w) = [] \<or> (\<exists>u. filling (q_head (rw_ring w)) (rw_pc w u)))"
proof -
  obtain cp sp where inv: "cr_inv cp sp w" and n: "rw_n w = unat cap"
    using rw_moves_inv [OF assms(4) init_inv(1) [OF assms(1-3)] assms(5)] init_inv(2) [OF assms(1-3)]
    by (auto simp: ring_world_init_def)
  show ?thesis
    using refusal_cases [OF inv assms(6,7)] push_refused [OF inv] pop_refused [OF inv] unfolding n by fastforce
qed



section \<open>Runs\<close>

text \<open>A run that is given by the choices in it.\<close>

datatype rw_act = Do_push nat string | Do_pop nat | Do_stmt nat bool | Do_ret nat

fun rw_do :: "nat set \<Rightarrow> rw_act \<Rightarrow> ring_world \<Rightarrow> ring_world option" where
  "rw_do C (Do_push t x) w = (if rw_pc w t = RP_idle then Some (w\<lparr>rw_pc := (rw_pc w)(t := Push_load x)\<rparr>) else None)"
| "rw_do C (Do_pop t) w = (if rw_pc w t = RP_idle \<and> t \<in> C then Some (w\<lparr>rw_pc := (rw_pc w)(t := Pop_load)\<rparr>) else None)"
| "rw_do C (Do_stmt t ok) w =
     (case ring_stmt ok (rw_pc w t) (rw_ring w) of
        (pc, q, l) \<Rightarrow> if busy (rw_pc w t) then Some (w\<lparr>rw_ring := q, rw_pc := (rw_pc w)(t := pc), rw_log := rw_log w @ l\<rparr>) else None)"
| "rw_do C (Do_ret t) w =
     (case rw_pc w t of
        Push_done b \<Rightarrow> Some (w\<lparr>rw_pc := (rw_pc w)(t := RP_idle)\<rparr>)
      | Pop_done got \<Rightarrow> Some (w\<lparr>rw_pc := (rw_pc w)(t := RP_idle), rw_out := rw_out w @ (case got of None \<Rightarrow> [] | Some x \<Rightarrow> [x])\<rparr>)
      | _ \<Rightarrow> None)"

fun rw_run :: "nat set \<Rightarrow> rw_act list \<Rightarrow> ring_world \<Rightarrow> ring_world option" where
  "rw_run C [] w = Some w"
| "rw_run C (a # as) w = (case rw_do C a w of None \<Rightarrow> None | Some w' \<Rightarrow> rw_run C as w')"

lemma rw_do_move: "rw_do C a w = Some w' \<Longrightarrow> rw_move C w w'"
  unfolding rw_move_def
  by (cases a) (auto intro: rw_step.intros split: if_splits prod.splits ring_pc.splits)

lemma rw_run_moves: "rw_run C as w = Some w' \<Longrightarrow> (rw_move C)\<^sup>*\<^sup>* w w'"
proof (induction as arbitrary: w)
  case (Cons a as)
  then show ?case by (auto split: option.splits dest: rw_do_move intro: converse_rtranclp_into_rtranclp)
qed simp

section \<open>Witnesses\<close>

definition two_slots :: LogQueue where
  "two_slots = \<lparr>slots = [\<lparr>sequence = 0, payload = None\<rparr>, \<lparr>sequence = 1, payload = None\<rparr>], q_mask = 1, q_head = 0, q_tail = 0\<rparr>"

lemma two_slots_make: "LogQueue_make 2 = return two_slots"
  by (simp add: LogQueue_make_def two_slots_def upt_rec)

text \<open>Thread 0 claims a slot for \<^verbatim>\<open>a\<close> and stops; thread 1 logs \<^verbatim>\<open>b\<close>; the worker, thread 2, calls \<^verbatim>\<open>pop\<close>.\<close>

definition stall_acts :: "rw_act list" where
  "stall_acts = [Do_push 0 ''a'', Do_stmt 0 True, Do_stmt 0 True, Do_stmt 0 True,
     Do_push 1 ''b'', Do_stmt 1 True, Do_stmt 1 True, Do_stmt 1 True, Do_stmt 1 True, Do_stmt 1 True, Do_pop 2, Do_stmt 2 True]"

definition stall_world :: ring_world where
  "stall_world = \<lparr>rw_ring = \<lparr>slots = [\<lparr>sequence = 0, payload = None\<rparr>, \<lparr>sequence = 2, payload = Some ''b''\<rparr>],
       q_mask = 1, q_head = 0, q_tail = 2\<rparr>,
     rw_pc = (\<lambda>t. RP_idle)(0 := Push_store ''a'' 0, 1 := Push_done True, 2 := Pop_seq 0), rw_log = [''a'', ''b''], rw_out = []\<rparr>"

lemma stall_run: "rw_run {2} stall_acts (ring_world_init two_slots) = Some stall_world"
  by (simp add: stall_acts_def stall_world_def ring_world_init_def two_slots_def busy_def slot_index_def set_slot_def Let_def
      fun_upd_twist)

lemma stall_moves: "(rw_move {2})\<^sup>*\<^sup>* (ring_world_init two_slots) stall_world"
  by (rule rw_run_moves [OF stall_run])

lemma stall_items: "mq_items (rw_abs stall_world) = [''a'', ''b'']"
  by (simp add: rw_abs_def stall_world_def)

lemma stall_step: "rw_step {2} 2 stall_world (stall_world\<lparr>rw_pc := (rw_pc stall_world)(2 := Pop_done None)\<rparr>)"
  using rw_step.stmt [of stall_world 2 True "Pop_done None" "rw_ring stall_world" "[]" "{2}"]
  by (simp add: stall_world_def busy_def slot_index_def Let_def)

text \<open>A producer that has claimed its slot and not published it hides every line behind it: the \<^verbatim>\<open>push\<close> of \<^verbatim>\<open>b\<close> has
  returned true, and \<^verbatim>\<open>pop\<close> returns false. The worker that drains the ring in \<^verbatim>\<open>stop\<close> ends there, and \<^verbatim>\<open>b\<close> is not
  written.\<close>

theorem stalled_producer_hides:
  "(rw_move {2})\<^sup>*\<^sup>* (ring_world_init two_slots) stall_world \<and> rw_pc stall_world 1 = Push_done True \<and>
   ''b'' \<in> set (mq_items (rw_abs stall_world)) \<and>
   rw_step {2} 2 stall_world (stall_world\<lparr>rw_pc := (rw_pc stall_world)(2 := Pop_done None)\<rparr>)"
  using stall_moves stall_step by (simp add: stall_items) (simp add: stall_world_def)

theorem ring_refines_queue_witness: "(mq_step {2} (unat (2 :: 64 word)))\<^sup>*\<^sup>* mq_empty (rw_abs stall_world)"
  by (rule ring_refines_queue [OF two_slots_make _ _ stall_moves]) (simp_all add: stall_world_def)

theorem ring_single_consumer_witness:
  "rw_out stall_world @ (case pc_result (rw_log stall_world) (rw_pc stall_world 2) of None \<Rightarrow> [] | Some x \<Rightarrow> [x]) @
    drop (rw_h stall_world) (rw_log stall_world) = rw_log stall_world"
  by (rule ring_single_consumer [OF two_slots_make _ _ stall_moves]) (simp_all add: stall_world_def)

theorem ring_refusals_witness: "\<exists>u. filling (q_head (rw_ring stall_world)) (rw_pc stall_world u)"
proof -
  have "busy (rw_pc stall_world 2)" "length (rw_log stall_world) < 2 ^ 62" by (simp_all add: stall_world_def busy_def)
  then show ?thesis using ring_refusals [OF two_slots_make _ _ stall_moves _ stall_step] stall_items by simp
qed


end
