(* ===== verification/Task.thy ===== *)
theory Task
  imports UringScheduler Ownership
begin

text \<open>
  \<^verbatim>\<open>coroutineWebServer/Task.h\<close>: the promise, the final awaiter and the awaiter of
  \<^verbatim>\<open>Task<T>\<close>, and the \<^verbatim>\<open>Task\<close> object that owns a coroutine frame. Frames live in a heap
  indexed by handles; the specialisation \<^verbatim>\<open>Task<void>\<close> is modelled beside it, with the relation
  between the two. The lemmas show what
  \<^verbatim>\<open>co_await\<close> on a task returns, and that frames are destroyed at most once.
\<close>

section \<open>Promises and frames\<close>

record 'v promise =
  pr_value :: "'v option"
  pr_exception :: "cpp_exn option"
  pr_continuation :: "handle option"

record 'v frame =
  fr_promise :: "'v promise"
  fr_done :: bool

type_synonym 'v frames = "handle \<rightharpoonup> 'v frame"

definition promise_init :: "'v promise" where
  "promise_init = \<lparr>pr_value = None, pr_exception = None, pr_continuation = None\<rparr>"

text \<open>A call of a coroutine: the frame is allocated and suspended at once, and the \<^verbatim>\<open>Task\<close>
  returned owns it. A \<^verbatim>\<open>Task\<close> is its handle, null when empty.\<close>

definition coroutine_call :: "handle \<Rightarrow> 'v frames \<Rightarrow> handle option \<times> 'v frames" where
  "coroutine_call h hp = (Some h, hp(h \<mapsto> \<lparr>fr_promise = promise_init, fr_done = False\<rparr>))"

definition upd_promise :: "handle \<Rightarrow> ('v promise \<Rightarrow> 'v promise) \<Rightarrow> 'v frames \<Rightarrow> 'v frames" where
  "upd_promise h g hp =
     (case hp h of None \<Rightarrow> hp | Some fr \<Rightarrow> hp(h \<mapsto> fr\<lparr>fr_promise := g (fr_promise fr)\<rparr>))"

definition return_value :: "handle \<Rightarrow> 'v \<Rightarrow> 'v frames \<Rightarrow> 'v frames" where
  "return_value h v = upd_promise h (\<lambda>p. p\<lparr>pr_value := Some v\<rparr>)"

definition unhandled_exception :: "handle \<Rightarrow> cpp_exn \<Rightarrow> 'v frames \<Rightarrow> 'v frames" where
  "unhandled_exception h e = upd_promise h (\<lambda>p. p\<lparr>pr_exception := Some e\<rparr>)"

text \<open>The end of a body: \<^verbatim>\<open>final_suspend\<close> marks the frame done and \<^verbatim>\<open>FinalAwaiter\<close>
  transfers to the continuation, or to the no-op coroutine (\<open>None\<close>).\<close>

definition final_suspend :: "handle \<Rightarrow> 'v frames \<Rightarrow> handle option \<times> 'v frames" where
  "final_suspend h hp =
     (case hp h of
        None \<Rightarrow> (None, hp)
      | Some fr \<Rightarrow> (pr_continuation (fr_promise fr), hp(h \<mapsto> fr\<lparr>fr_done := True\<rparr>)))"

text \<open>Running the body of a task to its end.\<close>

definition body_returns :: "handle \<Rightarrow> 'v \<Rightarrow> 'v frames \<Rightarrow> handle option \<times> 'v frames" where
  "body_returns h v hp = final_suspend h (return_value h v hp)"

definition body_throws :: "handle \<Rightarrow> cpp_exn \<Rightarrow> 'v frames \<Rightarrow> handle option \<times> 'v frames" where
  "body_throws h e hp = final_suspend h (unhandled_exception h e hp)"

section \<open>The awaiter\<close>

definition Awaiter_ready :: "handle option \<Rightarrow> 'v frames \<Rightarrow> bool" where
  "Awaiter_ready t hp =
     (case t of None \<Rightarrow> True | Some h \<Rightarrow> (case hp h of None \<Rightarrow> False | Some fr \<Rightarrow> fr_done fr))"

text \<open>\<^verbatim>\<open>await_suspend\<close>: the handle control is transferred to.\<close>

definition Awaiter_suspend :: "handle \<Rightarrow> handle \<Rightarrow> 'v frames \<Rightarrow> handle \<times> 'v frames" where
  "Awaiter_suspend h awaiting hp = (h, upd_promise h (\<lambda>p. p\<lparr>pr_continuation := Some awaiting\<rparr>) hp)"

text \<open>
  \<^verbatim>\<open>await_resume\<close>. Every access of the promise goes through the frame: \<open>Bad_access\<close>
  is an access to a null or destroyed one.
\<close>

datatype 'v awaited = Value 'v | Rethrown cpp_exn | Bad_access

definition Awaiter_resume :: "handle option \<Rightarrow> 'v frames \<Rightarrow> 'v awaited \<times> 'v frames" where
  "Awaiter_resume t hp =
     (case t of
        None \<Rightarrow> (Bad_access, hp)
      | Some h \<Rightarrow>
          (case hp h of
             None \<Rightarrow> (Bad_access, hp)
           | Some fr \<Rightarrow>
               if pr_exception (fr_promise fr) \<noteq> None then
                 (let hp1 = hp(h := None)
                  in case hp1 h of
                       None \<Rightarrow> (Bad_access, hp1)
                     | Some fr1 \<Rightarrow> (Rethrown (the (pr_exception (fr_promise fr1))), hp1))
               else
                 (case pr_value (fr_promise fr) of
                    None \<Rightarrow> (Bad_access, hp)
                  | Some v \<Rightarrow> (Value v, hp(h := None)))))"

section \<open>The specialisation for \<^verbatim>\<open>void\<close>\<close>

text \<open>Its promise has no value, so \<^verbatim>\<open>await_resume\<close> returns whether or not the body has.\<close>

record vpromise =
  vp_exception :: "cpp_exn option"
  vp_continuation :: "handle option"

record vframe =
  vf_promise :: vpromise
  vf_done :: bool

type_synonym vframes = "handle \<rightharpoonup> vframe"

definition vpromise_init :: vpromise where
  "vpromise_init = \<lparr>vp_exception = None, vp_continuation = None\<rparr>"

definition vcoroutine_call :: "handle \<Rightarrow> vframes \<Rightarrow> handle option \<times> vframes" where
  "vcoroutine_call h hp = (Some h, hp(h \<mapsto> \<lparr>vf_promise = vpromise_init, vf_done = False\<rparr>))"

definition upd_vpromise :: "handle \<Rightarrow> (vpromise \<Rightarrow> vpromise) \<Rightarrow> vframes \<Rightarrow> vframes" where
  "upd_vpromise h g hp =
     (case hp h of None \<Rightarrow> hp | Some fr \<Rightarrow> hp(h \<mapsto> fr\<lparr>vf_promise := g (vf_promise fr)\<rparr>))"

definition return_void :: "handle \<Rightarrow> vframes \<Rightarrow> vframes" where
  "return_void h hp = hp"

definition vunhandled_exception :: "handle \<Rightarrow> cpp_exn \<Rightarrow> vframes \<Rightarrow> vframes" where
  "vunhandled_exception h e = upd_vpromise h (\<lambda>p. p\<lparr>vp_exception := Some e\<rparr>)"

definition vfinal_suspend :: "handle \<Rightarrow> vframes \<Rightarrow> handle option \<times> vframes" where
  "vfinal_suspend h hp =
     (case hp h of
        None \<Rightarrow> (None, hp)
      | Some fr \<Rightarrow> (vp_continuation (vf_promise fr), hp(h \<mapsto> fr\<lparr>vf_done := True\<rparr>)))"

definition vAwaiter_ready :: "handle option \<Rightarrow> vframes \<Rightarrow> bool" where
  "vAwaiter_ready t hp =
     (case t of None \<Rightarrow> True | Some h \<Rightarrow> (case hp h of None \<Rightarrow> False | Some fr \<Rightarrow> vf_done fr))"

definition vAwaiter_suspend :: "handle \<Rightarrow> handle \<Rightarrow> vframes \<Rightarrow> handle \<times> vframes" where
  "vAwaiter_suspend h awaiting hp = (h, upd_vpromise h (\<lambda>p. p\<lparr>vp_continuation := Some awaiting\<rparr>) hp)"

definition vAwaiter_resume :: "handle option \<Rightarrow> vframes \<Rightarrow> unit awaited \<times> vframes" where
  "vAwaiter_resume t hp =
     (case t of
        None \<Rightarrow> (Bad_access, hp)
      | Some h \<Rightarrow>
          (case hp h of
             None \<Rightarrow> (Bad_access, hp)
           | Some fr \<Rightarrow>
               if vp_exception (vf_promise fr) \<noteq> None then
                 (let hp1 = hp(h := None)
                  in case hp1 h of
                       None \<Rightarrow> (Bad_access, hp1)
                     | Some fr1 \<Rightarrow> (Rethrown (the (vp_exception (vf_promise fr1))), hp1))
               else (Value (), hp(h := None))))"

section \<open>Task objects\<close>

text \<open>\<^verbatim>\<open>start\<close> hands the frame to the scheduler's queue, to be destroyed when it is done after
  its first resumption.\<close>

definition Task_start :: "handle option \<Rightarrow> ReadyItem list \<Rightarrow> handle option \<times> ReadyItem list" where
  "Task_start t ready = (case t of None \<Rightarrow> (None, ready) | Some h \<Rightarrow> (None, enqueue (Some h) True ready))"

text \<open>A program's \<^verbatim>\<open>Task\<close> objects, the awaiters that took a frame over, the frames handed to
  the scheduler, the live frames, and whether a dead frame was destroyed.\<close>

record task_heap =
  th_tasks :: "nat \<rightharpoonup> handle option"
  th_awaiters :: "nat \<rightharpoonup> handle option"
  th_detached :: "handle set"
  th_live :: "handle set"
  th_bad :: bool

definition task_heap_init :: task_heap where
  "task_heap_init = \<lparr>th_tasks = Map.empty, th_awaiters = Map.empty, th_detached = {}, th_live = {}, th_bad = False\<rparr>"

definition destroy_frame :: "handle option \<Rightarrow> task_heap \<Rightarrow> task_heap" where
  "destroy_frame t s =
     (case t of
        None \<Rightarrow> s
      | Some h \<Rightarrow> if h \<in> th_live s then s\<lparr>th_live := th_live s - {h}\<rparr> else s\<lparr>th_bad := True\<rparr>)"

inductive task_step :: "task_heap \<Rightarrow> task_heap \<Rightarrow> bool" where
  call: "th_tasks s i = None \<Longrightarrow> h \<notin> th_live s \<Longrightarrow>
    task_step s (s\<lparr>th_tasks := (th_tasks s)(i \<mapsto> Some h), th_live := insert h (th_live s)\<rparr>)"
| default_ctor: "th_tasks s i = None \<Longrightarrow> task_step s (s\<lparr>th_tasks := (th_tasks s)(i \<mapsto> None)\<rparr>)"
| move_ctor: "th_tasks s i = None \<Longrightarrow> th_tasks s j = Some t \<Longrightarrow>
    task_step s (s\<lparr>th_tasks := (th_tasks s)(i \<mapsto> t, j \<mapsto> None)\<rparr>)"
| move_assign: "i \<noteq> j \<Longrightarrow> th_tasks s i = Some u \<Longrightarrow> th_tasks s j = Some t \<Longrightarrow>
    task_step s ((destroy_frame u s)\<lparr>th_tasks := (th_tasks s)(i \<mapsto> t, j \<mapsto> None)\<rparr>)"
| self_assign: "task_step s s"
| dtor: "th_tasks s i = Some t \<Longrightarrow>
    task_step s ((destroy_frame t s)\<lparr>th_tasks := (th_tasks s)(i := None)\<rparr>)"
| start: "th_tasks s i = Some t \<Longrightarrow>
    task_step s (s\<lparr>th_tasks := (th_tasks s)(i \<mapsto> None),
      th_detached := th_detached s \<union> set_option t\<rparr>)"
| co_await: "th_tasks s i = Some t \<Longrightarrow> th_awaiters s a = None \<Longrightarrow>
    task_step s (s\<lparr>th_tasks := (th_tasks s)(i \<mapsto> None), th_awaiters := (th_awaiters s)(a \<mapsto> t)\<rparr>)"
| await_resume: "th_awaiters s a = Some t \<Longrightarrow>
    task_step s ((destroy_frame t s)\<lparr>th_awaiters := (th_awaiters s)(a := None)\<rparr>)"
| sched_destroy: "h \<in> th_detached s \<Longrightarrow>
    task_step s ((destroy_frame (Some h) s)\<lparr>th_detached := th_detached s - {h}\<rparr>)"

definition task_reach :: "task_heap \<Rightarrow> bool" where
  "task_reach s = task_step\<^sup>*\<^sup>* task_heap_init s"

section \<open>Who owns a frame\<close>

datatype task_owner = O_task nat | O_awaiter nat | O_sched handle

fun th_own :: "task_heap \<Rightarrow> task_owner \<Rightarrow> handle option" where
  "th_own s (O_task i) = Option.bind (th_tasks s i) (\<lambda>t. t)"
| "th_own s (O_awaiter a) = Option.bind (th_awaiters s a) (\<lambda>t. t)"
| "th_own s (O_sched h) = (if h \<in> th_detached s then Some h else None)"

definition th_view :: "task_heap \<Rightarrow> (task_owner, handle) own_state" where
  "th_view s = \<lparr>ow_own = th_own s, ow_live = th_live s, ow_bad = th_bad s\<rparr>"

lemma th_own_eqI:
  assumes "\<And>i. th_own s (O_task i) = g (O_task i)" "\<And>a. th_own s (O_awaiter a) = g (O_awaiter a)"
    "\<And>h. th_own s (O_sched h) = g (O_sched h)"
  shows "th_own s = g"
proof
  show "th_own s x = g x" for x using assms by (cases x) simp_all
qed

lemma destroy_frame_simps [simp]:
  "th_tasks (destroy_frame t s) = th_tasks s" "th_awaiters (destroy_frame t s) = th_awaiters s"
  "th_detached (destroy_frame t s) = th_detached s"
  "th_live (destroy_frame t s) = th_live s - set_option t"
  "th_bad (destroy_frame t s) = (th_bad s \<or> \<not> set_option t \<subseteq> th_live s)"
  by (auto simp: destroy_frame_def split: option.split)

lemma th_view_drop:
  assumes "th_own s' = (th_own s)(a := None)" "th_own s a = t"
    "th_live s' = th_live s - set_option t" "th_bad s' = (th_bad s \<or> \<not> set_option t \<subseteq> th_live s)"
  shows "own_step (th_view s) (th_view s')"
  using own_step.drop [of "th_view s" a] assms by (simp add: th_view_def)

lemma th_view_transfer:
  assumes "a \<noteq> b" "th_own s a = None" "th_own s' = (th_own s)(a := th_own s b, b := None)"
    "th_live s' = th_live s" "th_bad s' = th_bad s"
  shows "own_step (th_view s) (th_view s')"
  using own_step.transfer [of a b "th_view s"] assms by (simp add: th_view_def)

lemma task_step_sim:
  "task_step s s' \<Longrightarrow> own_inv (th_view s) \<Longrightarrow> own_step\<^sup>*\<^sup>* (th_view s) (th_view s')"
proof (induction rule: task_step.induct)
  case (call s i h)
  have "th_own (s\<lparr>th_tasks := (th_tasks s)(i \<mapsto> Some h), th_live := insert h (th_live s)\<rparr>) =
      (th_own s)(O_task i \<mapsto> h)"
    by (rule th_own_eqI) auto
  with own_step.acquire [of "th_view s" "O_task i" h] call show ?case by (auto simp: th_view_def)
next
  case (default_ctor s i)
  then have "th_own (s\<lparr>th_tasks := (th_tasks s)(i \<mapsto> None)\<rparr>) = th_own s" by (intro th_own_eqI) auto
  then show ?case by (simp add: th_view_def)
next
  case (move_ctor s i j t)
  then have "own_step (th_view s) (th_view (s\<lparr>th_tasks := (th_tasks s)(i \<mapsto> t, j \<mapsto> None)\<rparr>))"
    by - (rule th_view_transfer [of "O_task i" "O_task j"], fastforce, simp, rule th_own_eqI, auto)
  then show ?case by blast
next
  case (move_assign i j s u t)
  let ?c = "(destroy_frame u s)\<lparr>th_tasks := (th_tasks s)(i \<mapsto> None)\<rparr>"
  have "own_step (th_view s) (th_view ?c)"
    by (rule th_view_drop [of _ _ "O_task i" u], rule th_own_eqI) (use move_assign in auto)
  moreover have "own_step (th_view ?c) (th_view ((destroy_frame u s)\<lparr>th_tasks := (th_tasks s)(i \<mapsto> t, j \<mapsto> None)\<rparr>))"
    by (rule th_view_transfer [of "O_task i" "O_task j"], use move_assign in simp, simp, rule th_own_eqI)
      (use move_assign in auto)
  ultimately show ?case by auto
next
  case (self_assign s)
  then show ?case by simp
next
  case (dtor s i t)
  have "own_step (th_view s) (th_view ((destroy_frame t s)\<lparr>th_tasks := (th_tasks s)(i := None)\<rparr>))"
    by (rule th_view_drop [of _ _ "O_task i" t], rule th_own_eqI) (use dtor in auto)
  then show ?case by blast
next
  case (start s i t)
  show ?case
  proof (cases t)
    case None
    with start have "th_own (s\<lparr>th_tasks := (th_tasks s)(i \<mapsto> None), th_detached := th_detached s \<union> set_option t\<rparr>) =
        th_own s"
      by (intro th_own_eqI) auto
    then show ?thesis by (simp add: th_view_def)
  next
    case (Some h)
    with start have "h \<notin> th_detached s"
      using own_invD(2) [OF start.prems, of "O_task i" h "O_sched h"] by (auto simp: th_view_def)
    then have "own_step (th_view s)
        (th_view (s\<lparr>th_tasks := (th_tasks s)(i \<mapsto> None), th_detached := th_detached s \<union> set_option t\<rparr>))"
      by - (rule th_view_transfer [of "O_sched h" "O_task i"], simp, simp, rule th_own_eqI,
        use start Some in auto)
    then show ?thesis by blast
  qed
next
  case (co_await s i t a)
  have "own_step (th_view s)
      (th_view (s\<lparr>th_tasks := (th_tasks s)(i \<mapsto> None), th_awaiters := (th_awaiters s)(a \<mapsto> t)\<rparr>))"
    by (rule th_view_transfer [of "O_awaiter a" "O_task i"], simp, use co_await in simp, rule th_own_eqI)
      (use co_await in auto)
  then show ?case by blast
next
  case (await_resume s a t)
  have "own_step (th_view s) (th_view ((destroy_frame t s)\<lparr>th_awaiters := (th_awaiters s)(a := None)\<rparr>))"
    by (rule th_view_drop [of _ _ "O_awaiter a" t], rule th_own_eqI) (use await_resume in auto)
  then show ?case by blast
next
  case (sched_destroy h s)
  have "own_step (th_view s) (th_view ((destroy_frame (Some h) s)\<lparr>th_detached := th_detached s - {h}\<rparr>))"
    by (rule th_view_drop [of _ _ "O_sched h" "Some h"], rule th_own_eqI) (use sched_destroy in auto)
  then show ?case by blast
qed

interpretation tko: ownership task_step th_view "\<lambda>s. True" task_heap_init
proof (unfold_locales, goal_cases)
  case 1
  have "th_own task_heap_init = (\<lambda>a. None)" by (rule th_own_eqI) (simp_all add: task_heap_init_def)
  then show ?case by (simp add: own_inv_def th_view_def task_heap_init_def)
qed (auto intro: task_step_sim)

section \<open>Properties\<close>



text \<open>\<^verbatim>\<open>co_await\<close> on a fresh task: the awaiter is not ready, control goes to the task's
  frame, the end of its body gives control back to the coroutine that awaits, and
  \<^verbatim>\<open>await_resume\<close> returns the value the body returned and frees the frame, and nothing
  else.\<close>

theorem await_returns_value:
  assumes "h \<noteq> awaiting" "hp h = None"
  shows "\<exists>hp1 hp2 hp3. coroutine_call h hp = (Some h, hp1) \<and> \<not> Awaiter_ready (Some h) hp1 \<and>
    Awaiter_suspend h awaiting hp1 = (h, hp2) \<and> body_returns h v hp2 = (Some awaiting, hp3) \<and>
    Awaiter_resume (Some h) hp3 = (Value v, hp)"
  using assms
  by (auto simp: coroutine_call_def Awaiter_ready_def Awaiter_suspend_def body_returns_def
      return_value_def upd_promise_def final_suspend_def Awaiter_resume_def promise_init_def fun_upd_idem)

theorem await_returns_value_witness:
  "\<exists>hp1 hp2 hp3. coroutine_call 1 (Map.empty :: nat frames) = (Some 1, hp1) \<and>
    Awaiter_suspend 1 2 hp1 = (1, hp2) \<and> body_returns 1 7 hp2 = (Some 2, hp3) \<and>
    Awaiter_resume (Some 1) hp3 = (Value 7, Map.empty)"
  using await_returns_value [of 1 2 "Map.empty :: nat frames" 7] by auto

text \<open>Awaiting a task whose body threw reads a destroyed frame: \<^verbatim>\<open>await_resume\<close> destroys
  the frame first and rethrows the exception stored in that frame's promise afterwards.\<close>

theorem await_exception_reads_dead_frame:
  assumes "hp h = Some fr"
  shows "Awaiter_resume (Some h) (snd (body_throws h e hp)) = (Bad_access, hp(h := None))"
  using assms
  by (auto simp: body_throws_def unhandled_exception_def upd_promise_def final_suspend_def Awaiter_resume_def)

theorem await_exception_reads_dead_frame_witness:
  "Awaiter_resume (Some 1) (snd (body_throws 1 Out_of_range (snd (coroutine_call 1 (Map.empty :: nat frames))))) =
    (Bad_access, Map.empty)"
  using await_exception_reads_dead_frame [of "snd (coroutine_call 1 (Map.empty :: nat frames))" 1
      "\<lparr>fr_promise = promise_init, fr_done = False\<rparr>" Out_of_range]
  by (simp add: coroutine_call_def)

section \<open>The specialisation agrees with the template\<close>

text \<open>A frame of the specialisation seen as one of the template at \<open>unit\<close>, whose value is there from the
  start.\<close>

definition vframe_abs :: "vframe \<Rightarrow> unit frame" where
  "vframe_abs fr = \<lparr>fr_promise = \<lparr>pr_value = Some (), pr_exception = vp_exception (vf_promise fr),
     pr_continuation = vp_continuation (vf_promise fr)\<rparr>, fr_done = vf_done fr\<rparr>"

definition vabs :: "vframes \<Rightarrow> unit frames" where
  "vabs hp h = map_option vframe_abs (hp h)"

lemma vabs_upd [simp]: "vabs (hp(h := x)) = (vabs hp)(h := map_option vframe_abs x)"
  by (simp add: vabs_def fun_eq_iff)

text \<open>\<^verbatim>\<open>Task<void>\<close>, a copy of the template by hand, behaves like \<^verbatim>\<open>Task<T>\<close> at a type with one
  value: each operation of its promise and awaiter commutes with the view of its frames as frames
  of the template that hold that value.\<close>

theorem void_task_agrees:
  "vabs (return_void h hp) = (if hp h = None then vabs hp else return_value h () (vabs hp)) \<and>
   vabs (vunhandled_exception h e hp) = unhandled_exception h e (vabs hp) \<and>
   map_prod id vabs (vfinal_suspend h hp) = final_suspend h (vabs hp) \<and>
   vAwaiter_ready t hp = Awaiter_ready t (vabs hp) \<and>
   map_prod id vabs (vAwaiter_suspend h awaiting hp) = Awaiter_suspend h awaiting (vabs hp) \<and>
   map_prod id vabs (vAwaiter_resume t hp) = Awaiter_resume t (vabs hp) \<and>
   vabs (snd (vcoroutine_call h hp)) = return_value h () (snd (coroutine_call h (vabs hp)))"
proof (intro conjI)
  show "vabs (return_void h hp) = (if hp h = None then vabs hp else return_value h () (vabs hp))"
    by (auto simp: return_void_def return_value_def upd_promise_def vabs_def vframe_abs_def fun_eq_iff split: option.split)
  show "vabs (vunhandled_exception h e hp) = unhandled_exception h e (vabs hp)"
    by (cases "hp h") (simp_all add: vunhandled_exception_def unhandled_exception_def upd_vpromise_def upd_promise_def
        vabs_def [of hp h] vframe_abs_def)
  show "map_prod id vabs (vfinal_suspend h hp) = final_suspend h (vabs hp)"
    by (cases "hp h") (simp_all add: vfinal_suspend_def final_suspend_def vabs_def [of hp h] vframe_abs_def)
  show "vAwaiter_ready t hp = Awaiter_ready t (vabs hp)"
    by (auto simp: vAwaiter_ready_def Awaiter_ready_def vabs_def vframe_abs_def split: option.split)
  show "map_prod id vabs (vAwaiter_suspend h awaiting hp) = Awaiter_suspend h awaiting (vabs hp)"
    by (cases "hp h") (simp_all add: vAwaiter_suspend_def Awaiter_suspend_def upd_vpromise_def upd_promise_def
        vabs_def [of hp h] vframe_abs_def)
  show "map_prod id vabs (vAwaiter_resume t hp) = Awaiter_resume t (vabs hp)"
  proof (cases t)
    case (Some x)
    then show ?thesis
      by (cases "hp x") (simp_all add: vAwaiter_resume_def Awaiter_resume_def Let_def vabs_def [of hp x] vframe_abs_def)
  qed (simp add: vAwaiter_resume_def Awaiter_resume_def)
  show "vabs (snd (vcoroutine_call h hp)) = return_value h () (snd (coroutine_call h (vabs hp)))"
    by (simp add: vcoroutine_call_def coroutine_call_def return_value_def upd_promise_def vframe_abs_def vpromise_init_def
        promise_init_def)
qed

end
