(* ===== verification/MemoryResource.thy ===== *)
theory MemoryResource
  imports Task
begin

text \<open>
  \<^verbatim>\<open>coroutineWebServer/MemoryResource.{h,cpp}\<close>: the memory of coroutine frames. Every thread has a
  pool of its own; a frame is taken from the pool of the thread that calls the coroutine and given
  back to the pool of the thread that destroys it. \<^verbatim>\<open>std::pmr\<close> requires of \<^verbatim>\<open>deallocate\<close> that the block
  came from the same resource with the same size; anything else is \<open>None\<close>.
\<close>

section \<open>Resources\<close>

type_synonym tid = nat

text \<open>\<^verbatim>\<open>MimallocResource\<close> is one object; two resources are equal when they are the same object.\<close>

datatype mem_resource = R_mimalloc | R_new_delete | R_pool tid

definition do_is_equal :: "mem_resource \<Rightarrow> mem_resource \<Rightarrow> bool" where
  "do_is_equal r other = (r = other)"

text \<open>Its two other members call mimalloc where it was found, and the global operators otherwise, which
  take no alignment.\<close>

datatype heap_call = Mi_malloc_aligned nat nat | Operator_new nat | Mi_free nat | Operator_delete nat

definition do_allocate :: "bool \<Rightarrow> nat \<Rightarrow> nat \<Rightarrow> heap_call" where
  "do_allocate has_mimalloc bytes alignment =
     (if has_mimalloc then Mi_malloc_aligned bytes alignment else Operator_new bytes)"

definition do_deallocate :: "bool \<Rightarrow> nat \<Rightarrow> nat \<Rightarrow> nat \<Rightarrow> heap_call" where
  "do_deallocate has_mimalloc ptr bytes alignment = (if has_mimalloc then Mi_free ptr else Operator_delete ptr)"

definition global_fallback_resource :: "bool \<Rightarrow> mem_resource" where
  "global_fallback_resource has_mimalloc = (if has_mimalloc then R_mimalloc else R_new_delete)"

text \<open>Live blocks: the resource they came from, with size and alignment.\<close>

type_synonym blocks = "nat \<rightharpoonup> mem_resource \<times> nat \<times> nat"

definition mr_allocate :: "mem_resource \<Rightarrow> nat \<Rightarrow> nat \<Rightarrow> nat \<Rightarrow> blocks \<Rightarrow> blocks" where
  "mr_allocate r ptr bytes alignment m = m(ptr \<mapsto> (r, bytes, alignment))"

definition mr_deallocate :: "mem_resource \<Rightarrow> nat \<Rightarrow> nat \<Rightarrow> nat \<Rightarrow> blocks \<Rightarrow> blocks option" where
  "mr_deallocate r ptr bytes alignment m =
     (case m ptr of
        None \<Rightarrow> None
      | Some (r', b, a) \<Rightarrow> if do_is_equal r' r \<and> b = bytes \<and> a = alignment then Some (m(ptr := None)) else None)"

section \<open>The context of a thread\<close>

definition max_align :: nat where "max_align = 16"

record ThreadMemoryContext =
  upstream :: mem_resource
  pool :: mem_resource

definition instance_of :: "bool \<Rightarrow> tid \<Rightarrow> ThreadMemoryContext" where
  "instance_of has_mimalloc t = \<lparr>upstream = global_fallback_resource has_mimalloc, pool = R_pool t\<rparr>"

definition mc_resource :: "ThreadMemoryContext \<Rightarrow> mem_resource" where
  "mc_resource c = pool c"

definition mc_fallback_resource :: "ThreadMemoryContext \<Rightarrow> mem_resource" where
  "mc_fallback_resource c = upstream c"

definition mc_allocate :: "ThreadMemoryContext \<Rightarrow> nat \<Rightarrow> nat \<Rightarrow> nat \<Rightarrow> blocks \<Rightarrow> blocks" where
  "mc_allocate c ptr bytes alignment m = mr_allocate (mc_resource c) ptr bytes alignment m"

definition mc_deallocate :: "ThreadMemoryContext \<Rightarrow> nat \<Rightarrow> nat \<Rightarrow> nat \<Rightarrow> blocks \<Rightarrow> blocks option" where
  "mc_deallocate c ptr bytes alignment m = mr_deallocate (mc_resource c) ptr bytes alignment m"

text \<open>\<^verbatim>\<open>promise_type::operator new\<close> and \<^verbatim>\<open>operator delete\<close> on the thread \<open>t\<close>.\<close>

definition allocate_coroutine_frame :: "bool \<Rightarrow> tid \<Rightarrow> nat \<Rightarrow> nat \<Rightarrow> blocks \<Rightarrow> blocks" where
  "allocate_coroutine_frame has_mimalloc t ptr bytes m = mc_allocate (instance_of has_mimalloc t) ptr bytes max_align m"

definition deallocate_coroutine_frame :: "bool \<Rightarrow> tid \<Rightarrow> nat \<Rightarrow> nat \<Rightarrow> blocks \<Rightarrow> blocks option" where
  "deallocate_coroutine_frame has_mimalloc t ptr bytes m = mc_deallocate (instance_of has_mimalloc t) ptr bytes max_align m"

lemma deallocate_frame_iff:
  "deallocate_coroutine_frame hm t ptr bytes m =
     (if m ptr = Some (R_pool t, bytes, max_align) then Some (m(ptr := None)) else None)"
  by (auto simp: deallocate_coroutine_frame_def mc_deallocate_def mr_deallocate_def mc_resource_def instance_of_def
      do_is_equal_def split: option.split)

section \<open>Frames on threads\<close>

text \<open>The frames of the server with their size, the blocks, the queue or operation each is reached from
  (the thread of that scheduler resumes it), and whether memory was given back wrongly. A frame is
  its address.\<close>

record frame_mem =
  fm_blocks :: blocks
  fm_frames :: "handle \<rightharpoonup> nat"
  fm_sched :: "handle \<rightharpoonup> tid"
  fm_error :: bool

definition frame_mem_init :: frame_mem where
  "frame_mem_init = \<lparr>fm_blocks = Map.empty, fm_frames = Map.empty, fm_sched = Map.empty, fm_error = False\<rparr>"

text \<open>The thread \<open>t\<close> calls a coroutine and the frame is enqueued in, or runs on, the scheduler of \<open>t'\<close>.\<close>

definition fm_call :: "bool \<Rightarrow> tid \<Rightarrow> tid \<Rightarrow> handle \<Rightarrow> nat \<Rightarrow> frame_mem \<Rightarrow> frame_mem" where
  "fm_call hm t t' h bytes s = s\<lparr>fm_blocks := allocate_coroutine_frame hm t h bytes (fm_blocks s),
     fm_frames := (fm_frames s)(h \<mapsto> bytes), fm_sched := (fm_sched s)(h \<mapsto> t')\<rparr>"

text \<open>The thread \<open>t\<close> destroys a frame.\<close>

definition fm_destroy :: "bool \<Rightarrow> tid \<Rightarrow> handle \<Rightarrow> frame_mem \<Rightarrow> frame_mem" where
  "fm_destroy hm t h s =
     (case deallocate_coroutine_frame hm t h (the (fm_frames s h)) (fm_blocks s) of
        None \<Rightarrow> s\<lparr>fm_error := True\<rparr>
      | Some m \<Rightarrow> s\<lparr>fm_blocks := m, fm_frames := (fm_frames s)(h := None), fm_sched := (fm_sched s)(h := None)\<rparr>)"

text \<open>What the server does with frames. \<open>main\<close> is the thread that calls \<^verbatim>\<open>HttpServer::start\<close> and \<open>acc\<close> the
  acceptor's; the accept loop is called by the first and enqueued for the second. A worker runs a
  posted function, which calls \<^verbatim>\<open>handle_connection\<close> and enqueues it in the worker's own queue; a
  coroutine calls another one on the thread it runs on; an operation captures \<^verbatim>\<open>UringScheduler::current()\<close>,
  so a frame is resumed by the thread it was suspended on; and the thread that resumes a frame, or
  awaits it, destroys it. The first component is the frame of the accept loop, once it exists.\<close>

inductive fm_step :: "bool \<Rightarrow> tid \<Rightarrow> tid \<Rightarrow> handle option \<times> frame_mem \<Rightarrow> handle option \<times> frame_mem \<Rightarrow> bool" for hm main acc where
  start: "fm_frames s h = None \<Longrightarrow> fm_step hm main acc (None, s) (Some h, fm_call hm main acc h bytes s)"
| connection: "fm_frames s h = None \<Longrightarrow> fm_step hm main acc (a, s) (a, fm_call hm worker worker h bytes s)"
| nested: "fm_sched s h0 = Some t \<Longrightarrow> fm_frames s h = None \<Longrightarrow>
    fm_step hm main acc (a, s) (a, fm_call hm t t h bytes s)"
| destroy: "fm_sched s h = Some t \<Longrightarrow> fm_step hm main acc (a, s) (a, fm_destroy hm t h s)"

definition fm_ok :: "frame_mem \<Rightarrow> handle \<Rightarrow> bool" where
  "fm_ok s h \<longleftrightarrow> (case fm_frames s h of
      None \<Rightarrow> fm_blocks s h = None \<and> fm_sched s h = None
    | Some n \<Rightarrow> fm_sched s h \<noteq> None \<and> (\<exists>t. fm_blocks s h = Some (R_pool t, n, max_align)))"

definition fm_inv :: "frame_mem \<Rightarrow> bool" where
  "fm_inv s \<longleftrightarrow> (\<forall>h. fm_ok s h)"

lemma fm_inv_live:
  assumes "fm_inv s" "fm_sched s h = Some t"
  obtains n t0 where "fm_frames s h = Some n" "fm_blocks s h = Some (R_pool t0, n, max_align)"
  using assms unfolding fm_inv_def fm_ok_def by (fastforce split: option.splits)

text \<open>The frames that a thread other than their own took memory for.\<close>

definition strays :: "frame_mem \<Rightarrow> handle set" where
  "strays s = {h. \<exists>t n. fm_sched s h = Some t \<and> fm_blocks s h \<noteq> Some (R_pool t, n, max_align) \<and> fm_frames s h = Some n}"

lemma fm_call_blocks [simp]:
  "fm_blocks (fm_call hm t t' h n s) = (fm_blocks s)(h \<mapsto> (R_pool t, n, max_align))"
  "fm_frames (fm_call hm t t' h n s) = (fm_frames s)(h \<mapsto> n)" "fm_sched (fm_call hm t t' h n s) = (fm_sched s)(h \<mapsto> t')"
  "fm_error (fm_call hm t t' h n s) = fm_error s"
  by (simp_all add: fm_call_def allocate_coroutine_frame_def mc_allocate_def mr_allocate_def mc_resource_def instance_of_def)

lemma fm_call_inv:
  assumes "fm_inv s" "fm_frames s h = None"
  shows "fm_inv (fm_call hm t t' h n s)" "strays (fm_call hm t t' h n s) = (if t = t' then strays s else insert h (strays s))"
proof -
  show "fm_inv (fm_call hm t t' h n s)" 
  proof (unfold fm_inv_def, rule allI)
    show "fm_ok (fm_call hm t t' h n s) x" for x
      using assms(1) [unfolded fm_inv_def, THEN spec, of x]
      by (cases "x = h"; cases "fm_frames s x") (simp_all add: fm_ok_def)
  qed
  have "h \<notin> strays s" using assms(2) by (simp add: strays_def)
  then show "strays (fm_call hm t t' h n s) = (if t = t' then strays s else insert h (strays s))"
    by (auto simp: strays_def split: if_splits)
qed

lemma fm_destroy_inv:
  assumes "fm_inv s" "fm_sched s h = Some t"
  shows "fm_inv (fm_destroy hm t h s)" "strays (fm_destroy hm t h s) \<subseteq> strays s"
    "h \<notin> strays s \<Longrightarrow> fm_error (fm_destroy hm t h s) = fm_error s" "h \<in> strays s \<Longrightarrow> fm_error (fm_destroy hm t h s)"
proof -
  obtain n t0 where n: "fm_frames s h = Some n" "fm_blocks s h = Some (R_pool t0, n, max_align)"
    using fm_inv_live [OF assms] .
  have st: "h \<in> strays s \<longleftrightarrow> t0 \<noteq> t" using n assms(2) by (auto simp: strays_def)
  have e: "fm_destroy hm t h s = (if t0 = t then s\<lparr>fm_blocks := (fm_blocks s)(h := None), fm_frames := (fm_frames s)(h := None),
      fm_sched := (fm_sched s)(h := None)\<rparr> else s\<lparr>fm_error := True\<rparr>)"
    by (simp add: fm_destroy_def deallocate_frame_iff n)
  show "fm_inv (fm_destroy hm t h s)"
  proof (unfold fm_inv_def, rule allI)
    show "fm_ok (fm_destroy hm t h s) x" for x
      using assms(1) [unfolded fm_inv_def, THEN spec, of x] n
      by (cases "x = h"; cases "fm_frames s x") (simp_all add: e fm_ok_def)
  qed
  show "strays (fm_destroy hm t h s) \<subseteq> strays s" by (auto simp: e strays_def split: if_splits)
  show "h \<notin> strays s \<Longrightarrow> fm_error (fm_destroy hm t h s) = fm_error s" "h \<in> strays s \<Longrightarrow> fm_error (fm_destroy hm t h s)"
    using st by (simp_all add: e)
qed

text \<open>Only the frame of the accept loop is astray.\<close>

definition fm_good :: "handle option \<times> frame_mem \<Rightarrow> bool" where
  "fm_good x \<longleftrightarrow> fm_inv (snd x) \<and> strays (snd x) \<subseteq> set_option (fst x)"

lemma fm_step_good:
  assumes "fm_step hm main acc x y" "fm_good x"
  shows "fm_good y"
  using assms
proof (induction rule: fm_step.induct)
  case (start s h n)
  then have "fm_inv s" "strays s = {}" by (simp_all add: fm_good_def)
  then show ?case using fm_call_inv [OF _ start.hyps, of hm main acc n] by (auto simp: fm_good_def)
next
  case (connection s h a worker n)
  then show ?case using fm_call_inv [OF _ connection.hyps, of hm worker worker n] by (simp add: fm_good_def)
next
  case (nested s h0 t h a n)
  then show ?case using fm_call_inv [OF _ nested.hyps(2), of hm t t n] by (simp add: fm_good_def)
next
  case (destroy s h t a)
  then have i: "fm_inv s" by (simp add: fm_good_def)
  from fm_destroy_inv(1,2) [OF this destroy.hyps, of hm] destroy.prems show ?case unfolding fm_good_def by auto
qed

lemma fm_init_good: "fm_good (None, frame_mem_init)"
  by (simp add: fm_good_def fm_inv_def fm_ok_def strays_def frame_mem_init_def)

lemma fm_steps_good: "(fm_step hm main acc)\<^sup>*\<^sup>* x y \<Longrightarrow> fm_good x \<Longrightarrow> fm_good y"
  by (induction rule: rtranclp_induct) (auto intro: fm_step_good)

section \<open>Properties\<close>


text \<open>The frame of the accept loop comes from the pool of the thread that called \<^verbatim>\<open>start\<close>. When the acceptor
  destroys it, which it does if the server is stopped before the loop was resumed the first time,
  the block is given to a pool that it did not come from.\<close>

theorem accept_frame_freed_elsewhere:
  assumes "fm_frames s h = None" "main \<noteq> acc"
  shows "fm_step hm main acc (None, s) (Some h, fm_call hm main acc h n s) \<and>
    fm_error (fm_destroy hm acc h (fm_call hm main acc h n s))"
  using fm_step.start [OF assms(1)] assms(2) by (simp add: fm_destroy_def deallocate_frame_iff)

section \<open>Witnesses\<close>


theorem accept_frame_freed_elsewhere_witness:
  "fm_error (fm_destroy True 1 7 (fm_call True 0 1 7 64 frame_mem_init))"
  using accept_frame_freed_elsewhere [of frame_mem_init 7 0 1 True 64] by (simp add: frame_mem_init_def)

end
