(* ===== verification/Util.thy ===== *)
theory Util
  imports Prelude
begin

text \<open>
  \<^verbatim>\<open>WebServer/Util.cpp\<close>: the loops \<^verbatim>\<open>readn\<close> and \<^verbatim>\<open>writen\<close> around the system calls
  and \<^verbatim>\<open>socket_bind_listen\<close>. The outcomes of the calls are a script; when it is used up a
  non-blocking descriptor answers \<^verbatim>\<open>EAGAIN\<close>. The lemmas show that no byte is lost,
  repeated or reordered between the buffer and the socket.
\<close>

definition EINTR :: errno where "EINTR = 4"
definition EAGAIN :: errno where "EAGAIN = 11"

text \<open>The outcome of \<^verbatim>\<open>read\<close>: the bytes (none at the end of the stream) or an error.\<close>

datatype read_result = Rd string | Rd_err errno

datatype write_result = Wr nat | Wr_err errno

text \<open>\<^verbatim>\<open>readn(fd, inBuffer, zero)\<close>: result, buffer, \<^verbatim>\<open>zero\<close> and the rest of the script.\<close>

fun readn_zero :: "read_result list \<Rightarrow> nat \<Rightarrow> string \<Rightarrow> bool \<Rightarrow> int \<times> string \<times> bool \<times> read_result list" where
  "readn_zero [] readSum inBuffer zero = (int readSum, inBuffer, zero, [])"
| "readn_zero (Rd_err e # rs) readSum inBuffer zero =
     (if e = EINTR then readn_zero rs readSum inBuffer zero
      else if e = EAGAIN then (int readSum, inBuffer, zero, rs)
      else (-1, inBuffer, zero, rs))"
| "readn_zero (Rd d # rs) readSum inBuffer zero =
     (if length d = 0 then (int readSum, inBuffer, True, rs)
      else readn_zero rs (readSum + length d) (inBuffer @ d) zero)"

text \<open>\<^verbatim>\<open>readn(fd, inBuffer)\<close>, the same loop without \<^verbatim>\<open>zero\<close>.\<close>

fun readn_string :: "read_result list \<Rightarrow> nat \<Rightarrow> string \<Rightarrow> int \<times> string \<times> read_result list" where
  "readn_string [] readSum inBuffer = (int readSum, inBuffer, [])"
| "readn_string (Rd_err e # rs) readSum inBuffer =
     (if e = EINTR then readn_string rs readSum inBuffer
      else if e = EAGAIN then (int readSum, inBuffer, rs)
      else (-1, inBuffer, rs))"
| "readn_string (Rd d # rs) readSum inBuffer =
     (if length d = 0 then (int readSum, inBuffer, rs)
      else readn_string rs (readSum + length d) (inBuffer @ d))"

text \<open>\<^verbatim>\<open>readn(fd, buff, n)\<close>: \<open>nleft\<close> bytes are still wanted; a read never returns more than
  that.\<close>

fun readn_buf :: "read_result list \<Rightarrow> nat \<Rightarrow> string \<Rightarrow> int \<times> string \<times> read_result list" where
  "readn_buf rs 0 acc = (int (length acc), acc, rs)"
| "readn_buf [] nleft acc = (int (length acc), acc, [])"
| "readn_buf (Rd_err e # rs) nleft acc =
     (if e = EINTR then readn_buf rs nleft acc
      else if e = EAGAIN then (int (length acc), acc, rs)
      else (-1, acc, rs))"
| "readn_buf (Rd d # rs) nleft acc =
     (if length d = 0 then (int (length acc), acc, rs)
      else readn_buf rs (nleft - length (take nleft d)) (acc @ take nleft d))"

text \<open>\<^verbatim>\<open>writen(fd, buff, n)\<close>: result, the bytes written and the rest of the script.\<close>

fun writen_loop :: "write_result list \<Rightarrow> string \<Rightarrow> string \<Rightarrow> (int \<times> bool) \<times> string \<times> write_result list" where
  "writen_loop ws [] done_ws = ((int (length done_ws), True), done_ws, ws)"
| "writen_loop [] (c # cs) done_ws = ((int (length done_ws), False), done_ws, [])"
| "writen_loop (Wr_err e # ws) (c # cs) done_ws =
     (if e = EINTR then writen_loop ws (c # cs) done_ws
      else if e = EAGAIN then ((int (length done_ws), False), done_ws, ws)
      else ((-1, False), done_ws, ws))"
| "writen_loop (Wr n # ws) (c # cs) done_ws =
     writen_loop ws (drop n (c # cs)) (done_ws @ take n (c # cs))"

definition writen_buf :: "write_result list \<Rightarrow> string \<Rightarrow> int \<times> string \<times> write_result list" where
  "writen_buf ws buff = (case writen_loop ws buff [] of ((n, b), out, ws') \<Rightarrow> (n, out, ws'))"

text \<open>\<^verbatim>\<open>writen(fd, sbuff)\<close>: also what is left in \<^verbatim>\<open>sbuff\<close>. On an error \<^verbatim>\<open>sbuff\<close> is not
  changed.\<close>

definition writen_string :: "write_result list \<Rightarrow> string \<Rightarrow> int \<times> string \<times> string \<times> write_result list" where
  "writen_string ws sbuff =
     (case writen_loop ws sbuff [] of
        ((n, b), out, ws') \<Rightarrow>
          if n < 0 then (-1, sbuff, out, ws')
          else if n = int (length sbuff) then (n, [], out, ws')
          else (n, drop (nat n) sbuff, out, ws'))"

text \<open>\<^verbatim>\<open>socket_bind_listen\<close>, with the results of the calls: the descriptor and those closed.\<close>

record bind_env =
  be_socket :: fd
  be_setsockopt :: int
  be_bind :: int
  be_listen :: int

definition socket_bind_listen :: "bind_env \<Rightarrow> int \<Rightarrow> fd \<times> fd list" where
  "socket_bind_listen be port =
     (if port < 0 \<or> 65535 < port then (-1, [])
      else if be_socket be = -1 then (-1, [])
      else if be_setsockopt be = -1 then (-1, [be_socket be])
      else if be_bind be = -1 then (-1, [be_socket be])
      else if be_listen be = -1 then (-1, [be_socket be])
      else if be_socket be = -1 then (-1, [be_socket be])
      else (be_socket be, []))"

text \<open>\<^verbatim>\<open>setSocketNonBlocking\<close>, with the results of the two \<^verbatim>\<open>fcntl\<close> calls.\<close>

definition setSocketNonBlocking :: "int \<Rightarrow> int \<Rightarrow> int" where
  "setSocketNonBlocking getfl setfl = (if getfl = -1 then -1 else if setfl = -1 then -1 else 0)"

text \<open>The wrappers of one call each: what they ask of the kernel.\<close>

datatype sock_call = Ignore_sigpipe | Set_nodelay fd int | Set_linger fd int int | Shutdown_write fd

definition handle_for_sigpipe :: "sock_call list" where
  "handle_for_sigpipe = [Ignore_sigpipe]"

definition setSocketNodelay :: "fd \<Rightarrow> sock_call list" where
  "setSocketNodelay f = [Set_nodelay f 1]"

definition setSocketNoLinger :: "fd \<Rightarrow> sock_call list" where
  "setSocketNoLinger f = [Set_linger f 1 30]"

definition shutDownWR :: "fd \<Rightarrow> sock_call list" where
  "shutDownWR f = [Shutdown_write f]"

section \<open>Lemmas\<close>

text \<open>The bytes a script delivers before it blocks, ends or fails.\<close>

fun delivered :: "read_result list \<Rightarrow> string" where
  "delivered [] = []"
| "delivered (Rd_err e # rs) = (if e = EINTR then delivered rs else [])"
| "delivered (Rd d # rs) = (if d = [] then [] else d @ delivered rs)"

lemma readn_zero_spec:
  "readn_zero rs k b z = (n, b', z', rs') \<Longrightarrow>
    b' = b @ delivered rs \<and> (n = -1 \<or> n = int (k + length (delivered rs))) \<and> (z \<longrightarrow> z')"
  by (induction rs k b z arbitrary: n b' z' rs' rule: readn_zero.induct) (auto split: if_splits)

lemma readn_string_zero:
  "readn_string rs k b = (case readn_zero rs k b z of (n, b', z', rs') \<Rightarrow> (n, b', rs'))"
  by (induction rs k b z rule: readn_zero.induct) auto

lemma readn_zero_rest: "readn_zero rs k b z = (n, b', z', rs') \<Longrightarrow> length rs' \<le> length rs"
  by (induction rs k b z arbitrary: n b' z' rs' rule: readn_zero.induct)
    (auto split: if_splits intro: le_SucI)

lemma readn_zero_script: "readn_zero (map Rd ds) k b z = (int (k + length (concat ds)), b @ concat ds, z, [])"
  if "list_all (\<lambda>d. d \<noteq> []) ds"
  using that by (induction ds arbitrary: k b) auto

lemma writen_loop_spec:
  "writen_loop ws p d = ((n, b), out, ws') \<Longrightarrow>
    \<exists>k. out = d @ take k p \<and> (n \<noteq> -1 \<longrightarrow> n = int (length out)) \<and> (b \<longrightarrow> out = d @ p) \<and> (n = -1 \<or> 0 \<le> n)"
proof (induction ws p d arbitrary: n b out ws' rule: writen_loop.induct)
  case (4 m ws c cs d)
  then obtain k where k: "out = (d @ take m (c # cs)) @ take k (drop m (c # cs))"
    "n \<noteq> -1 \<longrightarrow> n = int (length out)" "b \<longrightarrow> out = (d @ take m (c # cs)) @ drop m (c # cs)" "n = -1 \<or> 0 \<le> n"
    unfolding writen_loop.simps by blast
  then have "out = d @ take (m + k) (c # cs)" by (simp only: take_add append_assoc)
  moreover have "b \<longrightarrow> out = d @ (c # cs)" using k(3) by (metis append.assoc append_take_drop_id)
  ultimately show ?case using k by blast
qed (auto intro: exI [of _ 0] split: if_splits)

lemma writen_string_conserves:
  assumes "writen_string ws sb = (n, sb', out, ws')" "0 \<le> n"
  shows "out @ sb' = sb" "n = int (length out)"
proof -
  obtain r b o' w' where l: "writen_loop ws sb [] = ((r, b), o', w')" by (metis surj_pair)
  obtain k where k: "o' = take k sb" "r \<noteq> -1 \<longrightarrow> r = int (length o')" "r = -1 \<or> 0 \<le> r"
    using writen_loop_spec [OF l] unfolding append_Nil by blast
  have r: "r = int (length o')" "n = r" "out = o'" "0 \<le> r"
    using assms l k by (auto simp: writen_string_def split: if_splits)
  then show "n = int (length out)" by simp
  have "o' = take (length o') sb" using k(1) by (simp add: min_def)
  then show "out @ sb' = sb"
    using assms(1) l r by (auto simp: writen_string_def split: if_splits) (metis append_take_drop_id)+
qed

text \<open>A call of \<^verbatim>\<open>writen\<close> that does not fail neither loses nor repeats a byte: what it
  has written and what it leaves in the buffer are together the buffer, and it returns the
  number written.\<close>

theorem writen_keeps_bytes:
  "writen_string ws sb = (n, sb', out, ws') \<Longrightarrow> 0 \<le> n \<Longrightarrow> out @ sb' = sb \<and> n = int (length out)"
  using writen_string_conserves by blast

theorem writen_keeps_bytes_witness:
  "''he'' @ ''llo'' = ''hello'' \<and> (2 :: int) = int (length ''he'')"
  using writen_keeps_bytes [of "[Wr 1, Wr_err EINTR, Wr 1, Wr_err EAGAIN]" "''hello''" 2 "''llo''" "''he''" "[]"]
  by (simp add: writen_string_def EINTR_def EAGAIN_def)

end
