(* ===== verification/HttpData.thy ===== *)
theory HttpData
  imports Util
begin

text \<open>
  \<^verbatim>\<open>WebServer/HttpData.{h,cpp}\<close>: the connection object of the epoll server, with its
  request-line parser, its header automaton, the analysis of a request and the handlers the
  channel calls. Reads and writes of the socket are scripts, the file system is an argument.
  The 64-bit arithmetic on \<^verbatim>\<open>string::npos\<close> is written out.
\<close>

section \<open>Types\<close>

datatype ProcessState = STATE_PARSE_URI | STATE_PARSE_HEADERS | STATE_RECV_BODY | STATE_ANALYSIS | STATE_FINISH
datatype URIState = PARSE_URI_AGAIN | PARSE_URI_ERROR | PARSE_URI_SUCCESS

text \<open>\<open>PARSE_HEADER_UNDEFINED\<close> is not in the source: the automaton builds a string from an
  iterator before \<^verbatim>\<open>begin()\<close>.\<close>

datatype HeaderState = PARSE_HEADER_SUCCESS | PARSE_HEADER_AGAIN | PARSE_HEADER_ERROR | PARSE_HEADER_UNDEFINED
datatype AnalysisState = ANALYSIS_SUCCESS | ANALYSIS_ERROR
datatype ParseState =
  H_START | H_KEY | H_COLON | H_SPACES_AFTER_COLON | H_VALUE | H_CR | H_LF | H_END_CR | H_END_LF
datatype ConnectionState = H_CONNECTED | H_DISCONNECTING | H_DISCONNECTED
datatype HttpMethod = METHOD_POST | METHOD_GET | METHOD_HEAD
datatype HttpVersion = HTTP_10 | HTTP_11

definition EPOLLIN :: "32 word" where "EPOLLIN = 0x001"
definition EPOLLOUT :: "32 word" where "EPOLLOUT = 0x004"
definition EPOLLONESHOT :: "32 word" where "EPOLLONESHOT = 0x40000000"
definition EPOLLET :: "32 word" where "EPOLLET = 0x80000000"

definition DEFAULT_EVENT :: "32 word" where
  "DEFAULT_EVENT = or (or EPOLLIN EPOLLET) EPOLLONESHOT"

definition DEFAULT_EXPIRED_TIME :: int where "DEFAULT_EXPIRED_TIME = 2000"
definition DEFAULT_KEEP_ALIVE_TIME :: int where "DEFAULT_KEEP_ALIVE_TIME = 5 * 60 * 1000"

definition favicon :: string where
  "favicon = map (char_of :: nat \<Rightarrow> char) [
    0x89, 0x50, 0x4E, 0x47, 0x0D, 0x0A, 0x1A, 0x0A, 0x00, 0x00, 0x00, 0x0D,
    0x49, 0x48, 0x44, 0x52, 0x00, 0x00, 0x00, 0x10, 0x00, 0x00, 0x00, 0x10,
    0x08, 0x06, 0x00, 0x00, 0x00, 0x1F, 0xF3, 0xFF, 0x61, 0x00, 0x00, 0x00,
    0x19, 0x74, 0x45, 0x58, 0x74, 0x53, 0x6F, 0x66, 0x74, 0x77, 0x61, 0x72,
    0x65, 0x00, 0x41, 0x64, 0x6F, 0x62, 0x65, 0x20, 0x49, 0x6D, 0x61, 0x67,
    0x65, 0x52, 0x65, 0x61, 0x64, 0x79, 0x71, 0xC9, 0x65, 0x3C, 0x00, 0x00,
    0x01, 0xCD, 0x49, 0x44, 0x41, 0x54, 0x78, 0xDA, 0x94, 0x93, 0x39, 0x48,
    0x03, 0x41, 0x14, 0x86, 0xFF, 0x5D, 0x62, 0xA7, 0x04, 0x52, 0xC4, 0x6D,
    0x22, 0x1E, 0xA0, 0x46, 0x24, 0x08, 0x16, 0x16, 0x76, 0x0A, 0x36, 0xBA,
    0x4A, 0x9A, 0x80, 0x08, 0x41, 0xB4, 0x71, 0x85, 0x58, 0x89, 0x47, 0xB0,
    0x49, 0xA9, 0x51, 0x24, 0xCD, 0xA6, 0x08, 0xA4, 0x48, 0x63, 0x91, 0x42,
    0x0B, 0xAF, 0x56, 0xC1, 0x46, 0xB4, 0x15, 0xCF, 0x22, 0x58, 0x98, 0x0B,
    0x54, 0x48, 0x8A, 0x64, 0x93, 0x8D, 0xFB, 0x46, 0x67, 0xC9, 0x1A, 0x14,
    0x7D, 0xF0, 0x66, 0x76, 0x66, 0xDF, 0x7C, 0xEF, 0xE7, 0x67, 0x46, 0xA8,
    0xD5, 0x6A, 0x48, 0x24, 0x12, 0x2A, 0x00, 0x05, 0xBF, 0x47, 0xD4, 0xEF,
    0xF7, 0x2F, 0x36, 0xEC, 0x12, 0x20, 0x1E, 0x8F, 0xD7, 0xAA, 0xD5, 0xEA,
    0xAF, 0x49, 0x35, 0x46, 0xAA, 0x54, 0x5F, 0x9F, 0x22, 0x41, 0x2A, 0x95,
    0x0A, 0x83, 0xE5, 0x72, 0x39, 0x64, 0xB3, 0x59, 0x96, 0x99, 0x4C, 0x06,
    0xE9, 0x74, 0x9A, 0x25, 0x85, 0x2C, 0xCB, 0x54, 0xA7, 0xC4, 0x62, 0x31,
    0xB5, 0x5E, 0x00, 0x03, 0x68, 0x9A, 0xC6, 0x16, 0x82, 0x20, 0x58, 0x52,
    0x14, 0x45, 0x36, 0x53, 0x94, 0xCB, 0x65, 0x78, 0xBD, 0x5E, 0xAA, 0x55,
    0x54, 0x23, 0x4C, 0xC0, 0xE0, 0xE2, 0xC1, 0x8F, 0x00, 0x9E, 0xBC, 0x09,
    0x41, 0x7C, 0x3E, 0x1F, 0x83, 0x44, 0x22, 0x11, 0xD5, 0x54, 0x40, 0x3F,
    0x38, 0x80, 0x77, 0xE5, 0x33, 0x07, 0xB8, 0x5C, 0x2E, 0x48, 0x92, 0x04,
    0x87, 0xC3, 0x81, 0x40, 0x20, 0x40, 0x67, 0x98, 0xE9, 0x36, 0x1A, 0xA6,
    0x67, 0x15, 0x04, 0xE3, 0xD7, 0xC8, 0xBD, 0x15, 0xE1, 0x69, 0xB7, 0x43,
    0xAB, 0xEA, 0x78, 0x2F, 0x6A, 0x58, 0x92, 0xBB, 0x18, 0x20, 0x9F, 0xCF,
    0x33, 0xC3, 0xB8, 0xE9, 0x4E, 0xA7, 0xD3, 0x6C, 0x4A, 0x00, 0x69, 0x36,
    0x7C, 0x8E, 0xE1, 0xFE, 0x56, 0x84, 0xE7, 0x3C, 0x9F, 0x72, 0x2B, 0x3A,
    0x42, 0x7B, 0x37, 0x66, 0x77, 0xAE, 0x8E, 0x0E, 0xF3, 0xBD, 0x52, 0xA9,
    0x64, 0x02, 0x42, 0xAF, 0x85, 0x32, 0x66, 0x46, 0xBA, 0x0C, 0xD9, 0x9F,
    0x1D, 0x9A, 0x6C, 0x22, 0xE6, 0xC7, 0x3A, 0x2C, 0x80, 0xEF, 0xC1, 0x15,
    0x90, 0x07, 0x93, 0xA2, 0x28, 0xA0, 0x53, 0x6A, 0xB1, 0xB8, 0xDF, 0x29,
    0x35, 0x43, 0x0E, 0x3F, 0x58, 0xFC, 0x98, 0xDA, 0x79, 0x6A, 0x50, 0x40,
    0x00, 0x87, 0xAE, 0x1B, 0x17, 0x42, 0xB4, 0x3A, 0x3F, 0xBE, 0x79, 0xC7,
    0x0A, 0x26, 0xB6, 0xEE, 0xD9, 0x9A, 0x60, 0x14, 0x93, 0xDB, 0x8F, 0x0D,
    0x0A, 0x2E, 0xE9, 0x23, 0x95, 0x29, 0x58, 0x00, 0x27, 0xEB, 0x6E, 0x56,
    0x70, 0xBC, 0xD6, 0xCB, 0xD6, 0x47, 0xAB, 0x3D, 0x6C, 0x7D, 0xB8, 0xD2,
    0xDD, 0xA0, 0x60, 0x83, 0xBA, 0xEF, 0x5F, 0xA4, 0xEA, 0xCC, 0x02, 0x4E,
    0xAE, 0x5E, 0x70, 0x1A, 0xEC, 0xB3, 0x40, 0x39, 0xAC, 0xFE, 0xF2, 0x91,
    0x89, 0x67, 0x91, 0x85, 0x21, 0xA8, 0x87, 0xB7, 0x58, 0x7E, 0x7E, 0x85,
    0xBB, 0xCD, 0x4E, 0x4E, 0x62, 0x74, 0x40, 0xFA, 0x93, 0x89, 0xEC, 0x1E,
    0xEC, 0x86, 0x02, 0x48, 0x26, 0x93, 0xD0, 0x75, 0x1D, 0x7F, 0x09, 0x32,
    0x95, 0xBF, 0x1F, 0xDB, 0xD7, 0x63, 0x8A, 0x1A, 0xF7, 0x5C, 0xC1, 0xFF,
    0x22, 0x4A, 0xC3, 0x87, 0x00, 0x03, 0x00, 0x4B, 0xBB, 0xF8, 0xD6, 0x2A,
    0x76, 0x98, 0x49, 0x00, 0x00, 0x00, 0x00, 0x49, 0x45, 0x4E, 0x44, 0xAE,
    0x42, 0x60, 0x82]"

definition mime_table :: "(string \<times> string) list" where
  "mime_table = [(''.html'', ''text/html''), (''.avi'', ''video/x-msvideo''), (''.bmp'', ''image/bmp''),
     (''.c'', ''text/plain''), (''.doc'', ''application/msword''), (''.gif'', ''image/gif''),
     (''.gz'', ''application/x-gzip''), (''.htm'', ''text/html''), (''.ico'', ''image/x-icon''),
     (''.jpg'', ''image/jpeg''), (''.png'', ''image/png''), (''.txt'', ''text/plain''),
     (''.mp3'', ''audio/mp3''), (''default'', ''text/html'')]"

definition getMime :: "string \<Rightarrow> string" where
  "getMime suffix =
     (case map_of mime_table suffix of None \<Rightarrow> the (map_of mime_table ''default'') | Some t \<Rightarrow> t)"

text \<open>The object, with the channel's \<^verbatim>\<open>events_\<close>; \<open>hd_timer\<close> says that a timer node is linked.\<close>

record HttpData =
  hd_fd :: fd
  hd_in :: string
  hd_out :: string
  hd_error :: bool
  hd_conn :: ConnectionState
  hd_method :: HttpMethod
  hd_version :: HttpVersion
  hd_file :: string
  hd_pos :: nat
  hd_state :: ProcessState
  hd_hstate :: ParseState
  hd_keep :: bool
  hd_headers :: "string \<rightharpoonup> string"
  hd_timer :: bool
  hd_events :: "32 word"

definition HttpData_make :: "fd \<Rightarrow> HttpData" where
  "HttpData_make connfd = \<lparr>hd_fd = connfd, hd_in = [], hd_out = [], hd_error = False, hd_conn = H_CONNECTED,
     hd_method = METHOD_GET, hd_version = HTTP_11, hd_file = [], hd_pos = 0, hd_state = STATE_PARSE_URI,
     hd_hstate = H_START, hd_keep = False, hd_headers = Map.empty, hd_timer = False, hd_events = 0\<rparr>"

definition seperateTimer :: "HttpData \<Rightarrow> HttpData" where
  "seperateTimer d = d\<lparr>hd_timer := False\<rparr>"

definition linkTimer :: "HttpData \<Rightarrow> HttpData" where
  "linkTimer d = d\<lparr>hd_timer := True\<rparr>"

declare linkTimer_def [simp]

definition hd_reset :: "HttpData \<Rightarrow> HttpData" where
  "hd_reset d = d\<lparr>hd_file := [], hd_pos := 0, hd_state := STATE_PARSE_URI, hd_hstate := H_START,
     hd_headers := Map.empty, hd_timer := False\<rparr>"

section \<open>The request line\<close>

definition npos :: nat where
  "npos = size_max - 1"

definition size_sub :: "nat \<Rightarrow> nat \<Rightarrow> nat" where
  "size_sub a b = (a + size_max - b) mod size_max"

definition find_npos :: "nat option \<Rightarrow> nat" where
  "find_npos r = (case r of None \<Rightarrow> npos | Some k \<Rightarrow> k)"

text \<open>A \<^verbatim>\<open>size_t\<close> compared with 0: never less.\<close>

definition parseVersion :: "string \<Rightarrow> nat \<Rightarrow> HttpData \<Rightarrow> URIState \<times> HttpData" where
  "parseVersion request_line pos0 d =
     (let pos = find_npos (str_find_char (CHR ''/'') request_line pos0)
      in if pos < 0 then (PARSE_URI_ERROR, d)
         else if size_sub (length request_line) pos \<le> 3 then (PARSE_URI_ERROR, d)
         else
           (let ver = substr request_line (size_add pos 1) 3
            in if ver = ''1.0'' then (PARSE_URI_SUCCESS, d\<lparr>hd_version := HTTP_10\<rparr>)
               else if ver = ''1.1'' then (PARSE_URI_SUCCESS, d\<lparr>hd_version := HTTP_11\<rparr>)
               else (PARSE_URI_ERROR, d)))"

definition find_method :: "string \<Rightarrow> (int \<times> HttpMethod) option" where
  "find_method request_line =
     (let posGet = cast_int (find_npos (str_find ''GET'' request_line 0));
          posPost = cast_int (find_npos (str_find ''POST'' request_line 0));
          posHead = cast_int (find_npos (str_find ''HEAD'' request_line 0))
      in if 0 \<le> posGet then Some (posGet, METHOD_GET)
         else if 0 \<le> posPost then Some (posPost, METHOD_POST)
         else if 0 \<le> posHead then Some (posHead, METHOD_HEAD)
         else None)"

definition parseURI :: "HttpData \<Rightarrow> URIState \<times> HttpData" where
  "parseURI d =
     (let str = hd_in d;
          pos = find_npos (str_find_char CR str (hd_pos d))
      in if pos < 0 then (PARSE_URI_AGAIN, d)
         else
           (let request_line = take pos str;
                d1 = d\<lparr>hd_in := (if size_add pos 1 < length str then drop (size_add pos 1) str else [])\<rparr>
            in case find_method request_line of
                 None \<Rightarrow> (PARSE_URI_ERROR, d1)
               | Some (p, meth) \<Rightarrow>
                   (let d2 = d1\<lparr>hd_method := meth\<rparr>;
                        pos2 = find_npos (str_find_char (CHR ''/'') request_line (nat p))
                    in if pos2 < 0 then (PARSE_URI_SUCCESS, d2\<lparr>hd_file := ''index.html'', hd_version := HTTP_11\<rparr>)
                       else
                         (let pos3 = find_npos (str_find_char (CHR '' '') request_line pos2)
                          in if pos3 < 0 then (PARSE_URI_ERROR, d2)
                             else
                               (let d3 = (if 1 < size_sub pos3 pos2 then
                                     (let f = substr request_line (size_add pos2 1) (size_sub (size_sub pos3 pos2) 1);
                                          q = find_npos (str_find_char (CHR ''?'') f 0)
                                      in d2\<lparr>hd_file := (if 0 \<le> q then take q f else f)\<rparr>)
                                   else d2\<lparr>hd_file := ''index.html''\<rparr>)
                                in parseVersion request_line pos3 d3)))))"

section \<open>The header automaton\<close>

record ph_locals =
  key_start :: int
  key_end :: int
  value_start :: int
  value_end :: int
  line_begin :: int

definition ph_init :: ph_locals where
  "ph_init = \<lparr>key_start = -1, key_end = -1, value_start = -1, value_end = -1, line_begin = 0\<rparr>"

text \<open>The characters between two offsets.\<close>

definition slice :: "string \<Rightarrow> int \<Rightarrow> int \<Rightarrow> string" where
  "slice s a b = take (nat (b - a)) (drop (nat a) s)"

text \<open>One turn of the loop: an early return, or the new locals, state, headers and
  \<^verbatim>\<open>notFinish\<close>.\<close>

definition ph_step ::
  "string \<Rightarrow> nat \<Rightarrow> char \<Rightarrow> ph_locals \<Rightarrow> ParseState \<Rightarrow> (string \<rightharpoonup> string) \<Rightarrow>
    HeaderState option \<times> ph_locals \<times> ParseState \<times> (string \<rightharpoonup> string) \<times> bool" where
  "ph_step str i c l st hs =
     (case st of
        H_START \<Rightarrow>
          if c = LF \<or> c = CR then (None, l, H_START, hs, True)
          else (None, l\<lparr>key_start := int i, line_begin := int i\<rparr>, H_KEY, hs, True)
      | H_KEY \<Rightarrow>
          if c = CHR '':'' then
            (let l1 = l\<lparr>key_end := int i\<rparr>
             in if key_end l1 - key_start l1 \<le> 0 then (Some PARSE_HEADER_ERROR, l1, H_KEY, hs, True)
                else (None, l1, H_COLON, hs, True))
          else if c = LF \<or> c = CR then (Some PARSE_HEADER_ERROR, l, H_KEY, hs, True)
          else (None, l, H_KEY, hs, True)
      | H_COLON \<Rightarrow>
          if c = CHR '' '' then (None, l, H_SPACES_AFTER_COLON, hs, True)
          else (Some PARSE_HEADER_ERROR, l, H_COLON, hs, True)
      | H_SPACES_AFTER_COLON \<Rightarrow> (None, l\<lparr>value_start := int i\<rparr>, H_VALUE, hs, True)
      | H_VALUE \<Rightarrow>
          if c = CR then
            (let l1 = l\<lparr>value_end := int i\<rparr>
             in if value_end l1 - value_start l1 \<le> 0 then (Some PARSE_HEADER_ERROR, l1, H_CR, hs, True)
                else (None, l1, H_CR, hs, True))
          else if 255 < int i - value_start l then (Some PARSE_HEADER_ERROR, l, H_VALUE, hs, True)
          else (None, l, H_VALUE, hs, True)
      | H_CR \<Rightarrow>
          if c = LF then
            (if key_start l < 0 \<or> value_start l < 0 then (Some PARSE_HEADER_UNDEFINED, l, H_LF, hs, True)
             else (None, l\<lparr>line_begin := int i\<rparr>, H_LF,
               hs(slice str (key_start l) (key_end l) \<mapsto> slice str (value_start l) (value_end l)), True))
          else (Some PARSE_HEADER_ERROR, l, H_CR, hs, True)
      | H_LF \<Rightarrow>
          if c = CR then (None, l, H_END_CR, hs, True)
          else (None, l\<lparr>key_start := int i\<rparr>, H_KEY, hs, True)
      | H_END_CR \<Rightarrow>
          if c = LF then (None, l, H_END_LF, hs, True) else (Some PARSE_HEADER_ERROR, l, H_END_CR, hs, True)
      | H_END_LF \<Rightarrow> (None, l\<lparr>key_start := int i, line_begin := int i\<rparr>, H_END_LF, hs, False))"

text \<open>The loop from index \<open>i\<close>, where the characters left are the last argument; the result
  carries the index at its end.\<close>

fun ph_loop ::
  "string \<Rightarrow> nat \<Rightarrow> ph_locals \<Rightarrow> ParseState \<Rightarrow> (string \<rightharpoonup> string) \<Rightarrow> string \<Rightarrow>
    HeaderState option \<times> nat \<times> ph_locals \<times> ParseState \<times> (string \<rightharpoonup> string)" where
  "ph_loop str i l st hs [] = (None, i, l, st, hs)"
| "ph_loop str i l st hs (c # cs) =
     (case ph_step str i c l st hs of
        (Some r, l', st', hs', nf) \<Rightarrow> (Some r, i, l', st', hs')
      | (None, l', st', hs', nf) \<Rightarrow>
          if nf then ph_loop str (Suc i) l' st' hs' cs else (None, Suc i, l', st', hs'))"

definition parseHeaders :: "HttpData \<Rightarrow> HeaderState \<times> HttpData" where
  "parseHeaders d =
     (case ph_loop (hd_in d) 0 ph_init (hd_hstate d) (hd_headers d) (hd_in d) of
        (Some r, i, l, st, hs) \<Rightarrow> (r, d\<lparr>hd_hstate := st, hd_headers := hs\<rparr>)
      | (None, i, l, st, hs) \<Rightarrow>
          if st = H_END_LF
          then (PARSE_HEADER_SUCCESS, d\<lparr>hd_hstate := st, hd_headers := hs, hd_in := drop i (hd_in d)\<rparr>)
          else (PARSE_HEADER_AGAIN,
            d\<lparr>hd_hstate := st, hd_headers := hs, hd_in := drop (nat (line_begin l)) (hd_in d)\<rparr>))"

section \<open>Answers\<close>

text \<open>
  What the handlers exchange with the socket: the outcomes of reads and writes to come, the
  bytes written so far, and an exception that no one catches.
\<close>

record lworld =
  lw_reads :: "read_result list"
  lw_writes :: "write_result list"
  lw_out :: string
  lw_exn :: "cpp_exn option"

text \<open>Files: the size \<^verbatim>\<open>stat\<close> gives (\<open>None\<close> on failure), whether \<^verbatim>\<open>open\<close> succeeds and the
  bytes \<^verbatim>\<open>mmap\<close> shows (\<open>None\<close> on failure).\<close>

record legacy_fs =
  ls_stat :: "string \<Rightarrow> nat option"
  ls_open :: "string \<Rightarrow> bool"
  ls_mmap :: "string \<Rightarrow> string option"

text \<open>The name a system call sees of a string: up to the first NUL.\<close>

definition c_str :: "string \<Rightarrow> string" where
  "c_str s = takeWhile (\<lambda>c. c \<noteq> CHR 0x00) s"

definition sock_write :: "string \<Rightarrow> lworld \<Rightarrow> lworld" where
  "sock_write buff w =
     (case writen_buf (lw_writes w) buff of
        (n, out, ws) \<Rightarrow> w\<lparr>lw_writes := ws, lw_out := lw_out w @ out\<rparr>)"

definition error_title :: string where
  "error_title = ''<html><title>'' @ [CHR 0xE5, CHR 0x93, CHR 0x8E, CHR 0x7E, CHR 0xE5, CHR 0x87,
     CHR 0xBA, CHR 0xE9, CHR 0x94, CHR 0x99, CHR 0xE4, CHR 0xBA, CHR 0x86] @ ''</title>''"

definition error_body :: "nat \<Rightarrow> string \<Rightarrow> string" where
  "error_body err_num short_msg =
     error_title @ ''<body bgcolor='' @ [CHR 0x22] @ ''ffffff'' @ [CHR 0x22] @ ''>'' @
     to_string err_num @ '' '' @ short_msg @
     ''<hr><em> LinYa'' @ [CHR 0x27] @ ''s Web Server</em>'' @ [LF] @ ''</body></html>''"

definition server_line :: string where
  "server_line = ''Server: LinYa'' @ [CHR 0x27] @ ''s Web Server'' @ CRLF"

definition error_header :: "nat \<Rightarrow> string \<Rightarrow> string" where
  "error_header err_num short_msg =
     ''HTTP/1.1 '' @ to_string err_num @ '' '' @ short_msg @ CRLF @
     ''Content-Type: text/html'' @ CRLF @ ''Connection: Close'' @ CRLF @
     ''Content-Length: '' @ to_string (length (error_body err_num short_msg)) @ CRLF @
     server_line @ CRLF"

text \<open>\<^verbatim>\<open>handleError\<close>: two writes that are not completed later.\<close>

definition handleError :: "nat \<Rightarrow> string \<Rightarrow> lworld \<Rightarrow> lworld" where
  "handleError err_num short_msg w =
     sock_write (error_body err_num short_msg) (sock_write (error_header err_num short_msg) w)"

definition wants_keep :: "HttpData \<Rightarrow> bool" where
  "wants_keep d = (hd_headers d ''Connection'' \<in> {Some ''Keep-Alive'', Some ''keep-alive''})"

definition analysisRequest :: "legacy_fs \<Rightarrow> HttpData \<Rightarrow> lworld \<Rightarrow> AnalysisState \<times> HttpData \<times> lworld" where
  "analysisRequest fs d w =
     (if hd_method d = METHOD_POST then (ANALYSIS_ERROR, d, w)
      else
        (let d1 = (if wants_keep d then d\<lparr>hd_keep := True\<rparr> else d);
             header = ''HTTP/1.1 200 OK'' @ CRLF @
               (if wants_keep d then ''Connection: Keep-Alive'' @ CRLF @ ''Keep-Alive: timeout='' @
                  int_to_string DEFAULT_KEEP_ALIVE_TIME @ CRLF else []);
             filetype = (case str_find_char (CHR ''.'') (hd_file d) 0 of
               None \<Rightarrow> getMime ''default'' | Some dot \<Rightarrow> getMime (drop dot (hd_file d)))
         in if hd_file d = ''hello'' then
              (ANALYSIS_SUCCESS, d1\<lparr>hd_out := ''HTTP/1.1 200 OK'' @ CRLF @ ''Content-type: text/plain'' @ CRLF @
                 CRLF @ ''Hello World''\<rparr>, w)
            else if hd_file d = ''favicon.ico'' then
              (ANALYSIS_SUCCESS, d1\<lparr>hd_out := hd_out d1 @ header @ ''Content-Type: image/png'' @ CRLF @
                 ''Content-Length: '' @ to_string (length favicon) @ CRLF @ server_line @ CRLF @ favicon\<rparr>, w)
            else
              (case ls_stat fs (c_str (hd_file d)) of
                 None \<Rightarrow> (ANALYSIS_ERROR, d1, handleError 404 ''Not Found!'' w)
               | Some sz \<Rightarrow>
                   (let d2 = d1\<lparr>hd_out := hd_out d1 @ header @ ''Content-Type: '' @ filetype @ CRLF @
                           ''Content-Length: '' @ to_string sz @ CRLF @ server_line @ CRLF\<rparr>
                    in if hd_method d = METHOD_HEAD then (ANALYSIS_SUCCESS, d2, w)
                       else if \<not> ls_open fs (c_str (hd_file d))
                       then (ANALYSIS_ERROR, d2\<lparr>hd_out := []\<rparr>, handleError 404 ''Not Found!'' w)
                       else
                         (case ls_mmap fs (c_str (hd_file d)) of
                            None \<Rightarrow> (ANALYSIS_ERROR, d2\<lparr>hd_out := []\<rparr>, handleError 404 ''Not Found!'' w)
                          | Some bytes \<Rightarrow> (ANALYSIS_SUCCESS, d2\<lparr>hd_out := hd_out d2 @ take sz bytes\<rparr>, w))))))"

section \<open>Handlers\<close>

definition handleWrite :: "HttpData \<Rightarrow> lworld \<Rightarrow> HttpData \<times> lworld" where
  "handleWrite d w =
     (if \<not> hd_error d \<and> hd_conn d \<noteq> H_DISCONNECTED then
        (case writen_string (lw_writes w) (hd_out d) of
           (n, rest, out, ws) \<Rightarrow>
             (let d1 = (if n < 0 then d\<lparr>hd_out := rest, hd_events := 0, hd_error := True\<rparr> else d\<lparr>hd_out := rest\<rparr>);
                  d2 = (if hd_out d1 \<noteq> [] then d1\<lparr>hd_events := or (hd_events d1) EPOLLOUT\<rparr> else d1)
              in (d2, w\<lparr>lw_writes := ws, lw_out := lw_out w @ out\<rparr>)))
      else (d, w))"

text \<open>The parts of the \<^verbatim>\<open>do\<close> block of \<^verbatim>\<open>handleRead\<close>, each telling whether the block goes on.\<close>

type_synonym hr_state = "HttpData \<times> lworld"

definition hr_then :: "(hr_state \<Rightarrow> bool \<times> hr_state) \<Rightarrow> (hr_state \<Rightarrow> bool \<times> hr_state) \<Rightarrow> hr_state \<Rightarrow> bool \<times> hr_state" where
  "hr_then f g s = (case f s of (True, s') \<Rightarrow> g s' | (False, s') \<Rightarrow> (False, s'))"

fun hr_read :: "hr_state \<Rightarrow> bool \<times> hr_state" where
  "hr_read (d, w) =
     (case readn_zero (lw_reads w) 0 (hd_in d) False of
        (read_num, buf, zero, rs) \<Rightarrow>
          (let d1 = d\<lparr>hd_in := buf\<rparr>; w1 = w\<lparr>lw_reads := rs\<rparr>
           in if hd_conn d1 = H_DISCONNECTING then (False, d1\<lparr>hd_in := []\<rparr>, w1)
              else if read_num < 0 then (False, d1\<lparr>hd_error := True\<rparr>, handleError 400 ''Bad Request'' w1)
              else if zero then
                (let d2 = d1\<lparr>hd_conn := H_DISCONNECTING\<rparr>
                 in (read_num \<noteq> 0, d2, w1))
              else (True, d1, w1)))"

fun hr_uri :: "hr_state \<Rightarrow> bool \<times> hr_state" where
  "hr_uri (d, w) =
     (if hd_state d = STATE_PARSE_URI then
        (case parseURI d of
           (PARSE_URI_AGAIN, d1) \<Rightarrow> (False, d1, w)
         | (PARSE_URI_ERROR, d1) \<Rightarrow> (False, d1\<lparr>hd_in := [], hd_error := True\<rparr>, handleError 400 ''Bad Request'' w)
         | (PARSE_URI_SUCCESS, d1) \<Rightarrow> (True, d1\<lparr>hd_state := STATE_PARSE_HEADERS\<rparr>, w))
      else (True, d, w))"

fun hr_headers :: "hr_state \<Rightarrow> bool \<times> hr_state" where
  "hr_headers (d, w) =
     (if hd_state d = STATE_PARSE_HEADERS then
        (case parseHeaders d of
           (PARSE_HEADER_AGAIN, d1) \<Rightarrow> (False, d1, w)
         | (PARSE_HEADER_ERROR, d1) \<Rightarrow> (False, d1\<lparr>hd_error := True\<rparr>, handleError 400 ''Bad Request'' w)
         | (PARSE_HEADER_UNDEFINED, d1) \<Rightarrow> (False, d1\<lparr>hd_error := True\<rparr>, w)
         | (PARSE_HEADER_SUCCESS, d1) \<Rightarrow>
             (True, d1\<lparr>hd_state := (if hd_method d1 = METHOD_POST then STATE_RECV_BODY else STATE_ANALYSIS)\<rparr>, w))
      else (True, d, w))"

fun hr_body :: "hr_state \<Rightarrow> bool \<times> hr_state" where
  "hr_body (d, w) =
     (if hd_state d = STATE_RECV_BODY then
        (case hd_headers d ''Content-length'' of
           None \<Rightarrow> (False, d\<lparr>hd_error := True\<rparr>,
             handleError 400 ''Bad Request: Lack of argument (Content-length)'' w)
         | Some v \<Rightarrow>
             (case stoi v of
                Inl e \<Rightarrow> (False, d\<lparr>hd_error := True\<rparr>, w\<lparr>lw_exn := Some e\<rparr>)
              | Inr content_length \<Rightarrow>
                  if cast_int (length (hd_in d)) < content_length then (False, d, w)
                  else (True, d\<lparr>hd_state := STATE_ANALYSIS\<rparr>, w)))
      else (True, d, w))"

fun hr_analysis :: "legacy_fs \<Rightarrow> hr_state \<Rightarrow> bool \<times> hr_state" where
  "hr_analysis fs (d, w) =
     (if hd_state d = STATE_ANALYSIS then
        (case analysisRequest fs d w of
           (ANALYSIS_SUCCESS, d1, w1) \<Rightarrow> (False, d1\<lparr>hd_state := STATE_FINISH\<rparr>, w1)
         | (ANALYSIS_ERROR, d1, w1) \<Rightarrow> (False, d1\<lparr>hd_error := True\<rparr>, w1))
      else (True, d, w))"

definition hr_block :: "legacy_fs \<Rightarrow> hr_state \<Rightarrow> hr_state" where
  "hr_block fs s = snd (hr_then hr_read (hr_then hr_uri (hr_then hr_headers (hr_then hr_body (hr_analysis fs)))) s)"

definition hr_flush :: "hr_state \<Rightarrow> hr_state" where
  "hr_flush s = (case s of (d, w) \<Rightarrow> if hd_out d \<noteq> [] then handleWrite d w else (d, w))"

section \<open>Termination of handleRead\<close>

fun rd_size :: "read_result list \<Rightarrow> nat" where
  "rd_size [] = 0"
| "rd_size (Rd x # rs) = Suc (length x) + rd_size rs"
| "rd_size (Rd_err e # rs) = Suc (rd_size rs)"

definition pending :: "hr_state \<Rightarrow> nat" where
  "pending s = (case s of (d, w) \<Rightarrow> length (hd_in d) + rd_size (lw_reads w))"

definition hr_measure :: "hr_state \<Rightarrow> nat" where
  "hr_measure s = 2 * pending s + (if hd_state (fst s) = STATE_PARSE_URI then 0 else 1)"

lemma readn_zero_size:
  "readn_zero rs k b z = (n, b', z', rs') \<Longrightarrow> length b' + rd_size rs' \<le> length b + rd_size rs"
  by (induction rs k b z arbitrary: n b' z' rs' rule: readn_zero.induct) (auto split: if_splits dest: le_SucI)

lemma parseVersion_frame:
  "parseVersion l p d = (r, d') \<Longrightarrow> \<exists>v. d' = d\<lparr>hd_version := v\<rparr>"
  by (auto simp: parseVersion_def Let_def split: if_splits intro: exI [of _ "hd_version d"])

lemma parseURI_shrinks:
  assumes "parseURI d = (r, d')"
  shows "length (hd_in d') \<le> length (hd_in d)" "hd_state d' = hd_state d" "hd_hstate d' = hd_hstate d"
    "r = PARSE_URI_SUCCESS \<Longrightarrow> hd_in d \<noteq> []"
    "length (hd_in d') = length (hd_in d) \<Longrightarrow> hd_in d' = hd_in d"
proof -
  define pos where "pos = find_npos (str_find_char CR (hd_in d) (hd_pos d))"
  define b where "b = (if size_add pos 1 < length (hd_in d) then drop (size_add pos 1) (hd_in d) else [])"
  have same: "hd_in d' = b" "hd_state d' = hd_state d" "hd_hstate d' = hd_hstate d"
    using assms unfolding parseURI_def Let_def pos_def [symmetric] b_def [symmetric]
    by (auto split: if_splits option.splits prod.splits dest!: parseVersion_frame)
  show "hd_state d' = hd_state d" "hd_hstate d' = hd_hstate d" using same by simp_all
  show "length (hd_in d') \<le> length (hd_in d)" by (simp add: same b_def)
  show "hd_in d' = hd_in d" if "length (hd_in d') = length (hd_in d)"
    using that by (cases "size_add pos (Suc 0)") (auto simp: same b_def split: if_splits)
  show "hd_in d \<noteq> []" if "r = PARSE_URI_SUCCESS"
  proof
    assume e: "hd_in d = []"
    have "cast_int npos = -1" by (simp add: cast_int_def npos_def size_max_def)
    then have "parseURI d = (PARSE_URI_ERROR, d\<lparr>hd_in := []\<rparr>)"
      using e by (simp add: parseURI_def find_method_def find_npos_def str_find_def str_find_char_def)
    with assms that show False by simp
  qed
qed

lemma ph_loop_index:
  "ph_loop str i l st hs cs = (None, j, l', st', hs') \<Longrightarrow> i \<le> j \<and> (cs \<noteq> [] \<longrightarrow> i < j)"
proof (induction cs arbitrary: i l st hs)
  case (Cons c cs)
  obtain r l1 st1 hs1 nf where p: "ph_step str i c l st hs = (r, l1, st1, hs1, nf)" by (metis surj_pair)
  with Cons.prems Cons.IH [of "Suc i" l1 st1 hs1] show ?case by (auto split: option.splits if_splits)
qed simp

lemma parseHeaders_shrinks:
  assumes "parseHeaders d = (PARSE_HEADER_SUCCESS, d')"
  shows "length (hd_in d') \<le> length (hd_in d)" "hd_in d \<noteq> [] \<Longrightarrow> length (hd_in d') < length (hd_in d)"
proof -
  obtain r i l st hs where p: "ph_loop (hd_in d) 0 ph_init (hd_hstate d) (hd_headers d) (hd_in d) = (r, i, l, st, hs)"
    by (metis surj_pair)
  show "length (hd_in d') \<le> length (hd_in d)"
    using assms p by (auto simp: parseHeaders_def split: option.splits if_splits)
  show "length (hd_in d') < length (hd_in d)" if ne: "hd_in d \<noteq> []"
  proof (cases r)
    case None
    with p have "0 < i" using ph_loop_index [of "hd_in d"] ne by auto
    with assms p None ne show ?thesis by (auto simp: parseHeaders_def split: if_splits)
  next
    case (Some h)
    have ne: "ph_step str i c l st hs \<noteq> (Some PARSE_HEADER_SUCCESS, l', st', hs', nf)" for str i c l st hs l' st' hs' nf
      by (auto simp: ph_step_def Let_def split: ParseState.splits if_splits)
    have "ph_loop str i l st hs cs \<noteq> (Some PARSE_HEADER_SUCCESS, j, l', st', hs')" for str i l st hs cs j l' st' hs'
    proof (induction str i l st hs cs rule: ph_loop.induct)
      case (2 str i l st hs c cs)
      then show ?case using ne by (auto split: prod.splits option.splits if_splits)
    qed simp
    with assms p Some show ?thesis by (auto simp: parseHeaders_def)
  qed
qed

lemma parseHeaders_state: "parseHeaders d = (r, d') \<Longrightarrow> hd_state d' = hd_state d"
  by (auto simp: parseHeaders_def split: prod.splits option.splits if_splits)

lemma handleError_frame [simp]:
  "lw_reads (handleError e m w) = lw_reads w" "lw_exn (handleError e m w) = lw_exn w"
  by (simp_all add: handleError_def sock_write_def split: prod.split)

lemma analysisRequest_frame:
  assumes "analysisRequest fs d w = (r, d', w')"
  shows "hd_in d' = hd_in d" "lw_reads w' = lw_reads w" "hd_error d' = hd_error d" "hd_conn d' = hd_conn d"
    "hd_events d' = hd_events d"
  using assms by (auto simp: analysisRequest_def Let_def split: if_splits option.splits)

lemma handleWrite_frame:
  assumes "handleWrite d w = (d', w')"
  shows "hd_in d' = hd_in d" "lw_reads w' = lw_reads w" "hd_state d' = hd_state d" "hd_conn d' = hd_conn d"
    "hd_keep d' = hd_keep d"
  using assms by (auto simp: handleWrite_def Let_def split: if_splits prod.splits)

lemma hr_read_pending: "pending (snd (hr_read s)) \<le> pending s" "hd_state (fst (snd (hr_read s))) = hd_state (fst s)"
proof -
  obtain d w where s: "s = (d, w)" by (cases s)
  obtain n b z rs where r: "readn_zero (lw_reads w) 0 (hd_in d) False = (n, b, z, rs)" by (metis surj_pair)
  from readn_zero_size [OF r] show "pending (snd (hr_read s)) \<le> pending s"
    by (auto simp: s r pending_def Let_def)
  show "hd_state (fst (snd (hr_read s))) = hd_state (fst s)" by (simp add: s r Let_def)
qed

text \<open>What the block does after the read, when it ends a request.\<close>

lemma hr_rest_pending:
  assumes "hr_then hr_uri (hr_then hr_headers (hr_then hr_body (hr_analysis fs))) s = (b, s')"
    "hd_state (fst s') = STATE_FINISH" "\<not> hd_error (fst s')"
  shows "pending s' \<le> pending s" "hd_state (fst s) = STATE_PARSE_URI \<Longrightarrow> pending s' < pending s"
proof -
  obtain d w where s: "s = (d, w)" by (cases s)
  obtain b1 d1 w1 where u: "hr_uri (d, w) = (b1, d1, w1)" by (metis surj_pair)
  have u1: "b1"
    using assms u s
    by (auto simp: hr_then_def split: if_splits URIState.splits prod.splits dest!: parseURI_shrinks(2))
  obtain b2 d2 w2 where h: "hr_headers (d1, w1) = (b2, d2, w2)" by (metis surj_pair)
  have h1: "b2"
    using assms u u1 h s
    by (auto simp: hr_then_def split: if_splits URIState.splits HeaderState.splits prod.splits
        dest!: parseHeaders_state)
  have "pending s' = pending (d2, w2)"
    using assms u u1 h h1 s
    by (auto simp: hr_then_def pending_def analysisRequest_frame
        split: if_splits option.splits sum.splits prod.splits AnalysisState.splits)
  moreover have p2: "pending (d2, w2) \<le> pending (d1, w1)"
    and "hd_state d1 = STATE_PARSE_HEADERS \<Longrightarrow> hd_in d1 \<noteq> [] \<Longrightarrow> pending (d2, w2) < pending (d1, w1)"
    using h h1 parseHeaders_shrinks [of d1]
    by (auto simp: pending_def split: if_splits prod.splits HeaderState.splits)
  moreover have p1: "pending (d1, w1) \<le> pending (d, w)"
    using u u1 parseURI_shrinks(1) [of d]
    by (auto simp: pending_def split: if_splits prod.splits URIState.splits)
  moreover have "pending (d1, w1) < pending (d, w) \<or> (hd_in d1 \<noteq> [] \<and> hd_state d1 = STATE_PARSE_HEADERS)"
    if "hd_state d = STATE_PARSE_URI"
  proof -
    obtain r e where e: "parseURI d = (r, e)" by (metis surj_pair)
    with u u1 that have r: "r = PARSE_URI_SUCCESS" and d1: "d1 = e\<lparr>hd_state := STATE_PARSE_HEADERS\<rparr>" "w1 = w"
      by (auto split: URIState.splits)
    note sh = parseURI_shrinks [OF e]
    show ?thesis
    proof (cases "length (hd_in e) = length (hd_in d)")
      case True
      with sh(4) [OF r] sh(5) d1 show ?thesis by auto
    next
      case False
      with sh(1) d1 show ?thesis by (simp add: pending_def)
    qed
  qed
  ultimately show "pending s' \<le> pending s" "hd_state (fst s) = STATE_PARSE_URI \<Longrightarrow> pending s' < pending s"
    unfolding s by fastforce+
qed

lemma hr_block_pending:
  assumes "hr_block fs s = s'" "hd_state (fst s') = STATE_FINISH" "\<not> hd_error (fst s')"
  shows "pending s' \<le> pending s" "hd_state (fst s) = STATE_PARSE_URI \<Longrightarrow> pending s' < pending s"
proof -
  obtain b1 s1 where r: "hr_read s = (b1, s1)" by (metis surj_pair)
  have le: "pending s1 \<le> pending s" "hd_state (fst s1) = hd_state (fst s)" using hr_read_pending [of s] r by simp_all
  have *: "pending s' \<le> pending s1 \<and> (hd_state (fst s1) = STATE_PARSE_URI \<longrightarrow> pending s' < pending s1)"
  proof (cases b1)
    case True
    obtain b2 s2 where "hr_then hr_uri (hr_then hr_headers (hr_then hr_body (hr_analysis fs))) s1 = (b2, s2)"
      by (metis surj_pair)
    with hr_rest_pending [OF this] assms r True show ?thesis
      by (simp add: hr_block_def hr_then_def [of hr_read])
  next
    case False
    then have "s' = s1" using assms r by (simp add: hr_block_def hr_then_def)
    with assms(2) show ?thesis by simp
  qed
  then show "pending s' \<le> pending s" "hd_state (fst s) = STATE_PARSE_URI \<Longrightarrow> pending s' < pending s"
    using le by auto
qed

lemma handleRead_decreases:
  assumes "hr_block fs s = (d1, w1)" "\<not> hd_error d1" "hr_flush (d1, w1) = (d2, w2)"
    "\<not> hd_error d2" "hd_state d2 = STATE_FINISH"
  shows "hr_measure (hd_reset d2, w2) < hr_measure s"
proof -
  have st: "hd_state d1 = STATE_FINISH" "pending (hd_reset d2, w2) = pending (d1, w1)"
    using assms(3,5) handleWrite_frame [of d1 w1 d2 w2]
    by (auto simp: hr_flush_def pending_def hd_reset_def split: if_splits)
  have "pending (d1, w1) \<le> pending s" "hd_state (fst s) = STATE_PARSE_URI \<Longrightarrow> pending (d1, w1) < pending s"
    using hr_block_pending [OF assms(1)] st(1) assms(2) by simp_all
  with st(2) show ?thesis by (auto simp: hr_measure_def hd_reset_def)
qed

function handleRead :: "legacy_fs \<Rightarrow> hr_state \<Rightarrow> hr_state" where
  "handleRead fs s =
     (case hr_block fs s of
        (d1, w1) \<Rightarrow>
          if hd_error d1 then (d1, w1)
          else
            (case hr_flush (d1, w1) of
               (d2, w2) \<Rightarrow>
                 if \<not> hd_error d2 \<and> hd_state d2 = STATE_FINISH then
                   (let d3 = hd_reset d2
                    in if hd_in d3 \<noteq> [] \<and> hd_conn d3 \<noteq> H_DISCONNECTING then handleRead fs (d3, w2)
                       else (d3, w2))
                 else if \<not> hd_error d2 \<and> hd_conn d2 \<noteq> H_DISCONNECTED
                 then (d2\<lparr>hd_events := or (hd_events d2) EPOLLIN\<rparr>, w2)
                 else (d2, w2)))"
  by pat_completeness auto
termination
proof (relation "measure (\<lambda>(fs, s). hr_measure s)", goal_cases)
  case 1
  show ?case by simp
next
  case (2 fs s)
  then show ?case by simp (metis handleRead_decreases)
qed

declare handleRead.simps [simp del]

text \<open>What \<^verbatim>\<open>handleConn\<close> and \<^verbatim>\<open>handleClose\<close> ask of the event loop.\<close>

datatype poller_call = Update_poller "32 word" int | Remove_from_poller

definition handleClose :: "HttpData \<Rightarrow> HttpData \<times> poller_call list" where
  "handleClose d = (d\<lparr>hd_conn := H_DISCONNECTED\<rparr>, [Remove_from_poller])"

definition handleConn :: "HttpData \<Rightarrow> HttpData \<times> poller_call list" where
  "handleConn d0 =
     (let d = seperateTimer d0; ev = hd_events d
      in if \<not> hd_error d \<and> hd_conn d = H_CONNECTED then
           (if ev \<noteq> 0 then
              (let timeout = (if hd_keep d then DEFAULT_KEEP_ALIVE_TIME else DEFAULT_EXPIRED_TIME);
                   ev1 = (if and ev EPOLLIN \<noteq> 0 \<and> and ev EPOLLOUT \<noteq> 0 then or 0 EPOLLOUT else ev);
                   ev2 = or ev1 EPOLLET
               in (d\<lparr>hd_events := ev2\<rparr>, [Update_poller ev2 timeout]))
            else if hd_keep d then
              (let ev1 = or ev (or EPOLLIN EPOLLET)
               in (d\<lparr>hd_events := ev1\<rparr>, [Update_poller ev1 DEFAULT_KEEP_ALIVE_TIME]))
            else
              (let ev1 = or ev (or EPOLLIN EPOLLET)
               in (d\<lparr>hd_events := ev1\<rparr>, [Update_poller ev1 (DEFAULT_KEEP_ALIVE_TIME div 2)])))
         else if \<not> hd_error d \<and> hd_conn d = H_DISCONNECTING \<and> and ev EPOLLOUT \<noteq> 0
         then (d\<lparr>hd_events := or EPOLLOUT EPOLLET\<rparr>, [])
         else handleClose d)"

definition newEvent :: "HttpData \<Rightarrow> HttpData \<times> (32 word \<times> int)" where
  "newEvent d = (d\<lparr>hd_events := DEFAULT_EVENT\<rparr>, (DEFAULT_EVENT, DEFAULT_EXPIRED_TIME))"

end
