(* ===== verification/HttpDataSpec.thy ===== *)
theory HttpDataSpec
  imports HttpData
begin

text \<open>
  What the connection object of the epoll server does with requests: a well-formed request line
  and header block are parsed as written, a complete request is answered and the object is
  ready for the next one, and the requests it cannot serve.
\<close>

section \<open>Well-formed requests are parsed\<close>

lemma str_find_char_from:
  "c \<notin> set u \<Longrightarrow> str_find_char c (w @ u @ c # r) (length w) = Some (length w + length u)"
  by (simp add: str_find_char_def find_char_at_prefix)

lemma cast_int_simps: "cast_int npos = -1" "k < 2 ^ 31 \<Longrightarrow> cast_int k = int k"
  by (simp_all add: cast_int_def npos_def size_max_def) (simp add: cast_int_small flip: cast_int_def)

lemma size_sub_le: "b \<le> a \<Longrightarrow> a < size_max \<Longrightarrow> size_sub a b = a - b"
proof -
  assume a: "b \<le> a" "a < size_max"
  then have "a + size_max - b = (a - b) + size_max" by simp
  then have "size_sub a b = ((a - b) + size_max) mod size_max" by (simp only: size_sub_def)
  also have "\<dots> = (a - b) mod size_max" by (rule mod_add_self2)
  also have "\<dots> = a - b" using a by (intro mod_less) simp
  finally show ?thesis .
qed

lemma take_find_npos:
  assumes "length f < size_max"
  shows "take (find_npos (str_find_char c f 0)) f = takeWhile (\<lambda>x. x \<noteq> c) f"
proof (cases "str_find_char c f 0")
  case None
  then have "c \<notin> set f" using str_find_char_None_iff [of c f 0] by simp
  then have "takeWhile (\<lambda>x. x \<noteq> c) f = f" by (intro takeWhile_eq_all_conv [THEN iffD2]) auto
  moreover have "take npos f = f" using assms by (simp add: npos_def)
  ultimately show ?thesis unfolding None find_npos_def by (simp only: option.case)
next
  case (Some k)
  note k = str_find_char_SomeD [OF Some]
  then have "takeWhile (\<lambda>x. x \<noteq> c) f = take k f"
    by (intro takeWhile_eq_take_P_nth) (auto simp: in_set_conv_nth)
  with Some show ?thesis by (simp add: find_npos_def)
qed

definition method_name :: "HttpMethod \<Rightarrow> string" where
  "method_name m = (case m of METHOD_GET \<Rightarrow> ''GET'' | METHOD_POST \<Rightarrow> ''POST'' | METHOD_HEAD \<Rightarrow> ''HEAD'')"

definition version_name :: "HttpVersion \<Rightarrow> string" where
  "version_name v = (case v of HTTP_10 \<Rightarrow> ''1.0'' | HTTP_11 \<Rightarrow> ''1.1'')"

definition req_line :: "HttpMethod \<Rightarrow> string \<Rightarrow> HttpVersion \<Rightarrow> string" where
  "req_line m f v = method_name m @ '' /'' @ f @ '' HTTP/'' @ version_name v"

text \<open>The line does not contain the name of a method that is looked for earlier.\<close>

definition method_clear :: "HttpMethod \<Rightarrow> string \<Rightarrow> bool" where
  "method_clear m line =
     (case m of
        METHOD_GET \<Rightarrow> True
      | METHOD_POST \<Rightarrow> str_find ''GET'' line 0 = None
      | METHOD_HEAD \<Rightarrow> str_find ''GET'' line 0 = None \<and> str_find ''POST'' line 0 = None)"

lemma req_line_method:
  assumes "method_clear m (req_line m f v)"
  shows "find_method (req_line m f v) = Some (0, m)"
proof -
  have "str_find (method_name m) (req_line m f v) 0 = Some 0"
    using str_find_here [of "method_name m"] by (simp add: req_line_def method_name_def split: HttpMethod.split)
  then show ?thesis
    using assms
    by (cases m) (simp_all add: find_method_def method_clear_def method_name_def find_npos_def cast_int_simps)
qed

lemma parseURI_ok:
  assumes "hd_in d = req_line m f v @ CR # rest" "hd_pos d = 0"
    and f: "f \<noteq> []" "CR \<notin> set f" "CHR '' '' \<notin> set f" and clear: "method_clear m (req_line m f v)"
    and len: "length (hd_in d) < 2 ^ 31"
  shows "parseURI d = (PARSE_URI_SUCCESS,
    d\<lparr>hd_in := rest, hd_method := m, hd_file := takeWhile (\<lambda>c. c \<noteq> CHR ''?'') f, hd_version := v\<rparr>)"
proof -
  define line where "line = req_line m f v"
  let ?w = "method_name m @ '' ''"
  have m: "CR \<notin> set (method_name m)" "CHR ''/'' \<notin> set (method_name m)" "length (method_name m) \<le> 4"
    by (auto simp: method_name_def CR_def split: HttpMethod.splits)
  have vn: "CR \<notin> set (version_name v)" "length (version_name v) = 3"
    by (auto simp: version_name_def CR_def split: HttpVersion.splits)
  have "CR \<notin> set line" using m f vn by (simp add: line_def req_line_def) (simp add: CR_def)
  then have cr: "str_find_char CR (hd_in d) 0 = Some (length line)"
    using str_find_char_prefix [of CR line rest] assms(1) by (simp add: line_def)
  have ll: "length line = length (method_name m) + 11 + length f"
    using vn by (simp add: line_def req_line_def)
  have fits: "length line < 2 ^ 31" "length line + 2 < size_max" "length f < size_max"
    using len assms(1) ll by (simp_all add: line_def size_max_def)
  define p2 where "p2 = length ?w"
  define p3 where "p3 = p2 + 1 + length f"
  have s2: "str_find_char (CHR ''/'') line 0 = Some p2"
    using str_find_char_prefix [of "CHR ''/''" ?w] m(2) by (simp add: p2_def line_def req_line_def)
  have s3: "str_find_char (CHR '' '') line p2 = Some p3"
    using str_find_char_from [of "CHR '' ''" "CHR ''/'' # f" ?w "''HTTP/'' @ version_name v"] f(3)
    by (simp add: p2_def p3_def line_def req_line_def)
  have s4: "str_find_char (CHR ''/'') line p3 = Some (p3 + 5)"
    using str_find_char_from [of "CHR ''/''" "'' HTTP''" "?w @ CHR ''/'' # f" "version_name v"]
    by (simp add: p2_def p3_def line_def req_line_def)
  have small: "p3 + 9 = length line" "p3 + 10 < size_max" "p2 < p3"
    using ll fits by (simp_all add: p3_def p2_def)
  have sub: "size_sub p3 p2 = 1 + length f" "size_sub (1 + length f) 1 = length f" "size_sub (length line) (p3 + 5) = 4"
    "size_add p2 1 = Suc p2" "size_add (p3 + 5) 1 = p3 + 6" "size_add (length line) 1 = Suc (length line)"
    using small fits by (simp_all add: size_sub_le size_add_def) (simp_all add: p3_def size_sub_le)
  have fl: "substr line (Suc p2) (length f) = f"
    by (simp add: substr_def p2_def line_def req_line_def)
  have ver: "substr line (p3 + 6) 3 = version_name v"
  proof -
    let ?pre = "?w @ CHR ''/'' # f @ '' HTTP/''"
    have "line = ?pre @ version_name v" "length ?pre = p3 + 6"
      by (simp_all add: line_def req_line_def p2_def p3_def)
    then have "drop (p3 + 6) line = version_name v" by (metis append_eq_conv_conj)
    with vn(2) show ?thesis by (simp only: substr_def) simp
  qed
  have inb: "take (length line) (hd_in d) = line" "drop (Suc (length line)) (hd_in d) = rest"
    "\<not> Suc (length line) < length (hd_in d) \<Longrightarrow> rest = []"
    using assms(1) by (auto simp: line_def)
  have pv: "parseVersion line p3 e = (PARSE_URI_SUCCESS, e\<lparr>hd_version := v\<rparr>)" for e
    using s4 sub ver by (cases v) (simp_all add: parseVersion_def find_npos_def version_name_def)
  have "1 < 1 + length f" using f(1) by simp
  then show ?thesis
    using cr assms(2) req_line_method [OF clear, folded line_def] s2 s3 sub fl inb pv
      take_find_npos [OF fits(3), of "CHR ''?''"]
    by (auto simp add: parseURI_def find_npos_def [of "Some _"] Let_def)
qed

text \<open>A header as the automaton accepts it.\<close>

definition lkey_ok :: "string \<Rightarrow> bool" where
  "lkey_ok k = (k \<noteq> [] \<and> CHR '':'' \<notin> set (tl k) \<and> CR \<notin> set k \<and> LF \<notin> set k)"

definition lvalue_ok :: "string \<Rightarrow> bool" where
  "lvalue_ok v = (v \<noteq> [] \<and> CR \<notin> set v \<and> length v \<le> 256)"

definition lheader :: "string \<times> string \<Rightarrow> string" where
  "lheader h = fst h @ '': '' @ snd h @ CRLF"

definition lblock :: "(string \<times> string) list \<Rightarrow> string" where
  "lblock hs = concat (map lheader hs)"

lemma ph_key:
  assumes "CHR '':'' \<notin> set ks" "CR \<notin> set ks" "LF \<notin> set ks" "key_start l < int i"
  shows "ph_loop str i l H_KEY hs (ks @ '': '' @ cs) =
    ph_loop str (i + length ks + 2) (l\<lparr>key_end := int (i + length ks)\<rparr>) H_SPACES_AFTER_COLON hs cs"
  using assms
proof (induction ks arbitrary: i)
  case Nil
  then show ?case by (simp add: ph_step_def numeral_2_eq_2)
next
  case (Cons c ks)
  then have "c \<noteq> CHR '':''" "c \<noteq> CR" "c \<noteq> LF" by auto
  then have "ph_loop str i l H_KEY hs ((c # ks) @ '': '' @ cs) = ph_loop str (Suc i) l H_KEY hs (ks @ '': '' @ cs)"
    by (simp add: ph_step_def)
  with Cons.IH [of "Suc i"] Cons.prems show ?case by (simp add: add.commute)
qed

lemma ph_value_rest:
  assumes "CR \<notin> set vs" "value_start l < int i" "int i + int (length vs) - value_start l \<le> 256"
    "0 \<le> key_start l" "0 \<le> value_start l"
  shows "ph_loop str i l H_VALUE hs (vs @ CRLF @ cs) =
    ph_loop str (i + length vs + 2)
      (l\<lparr>value_end := int (i + length vs), line_begin := int (i + length vs + 1)\<rparr>) H_LF
      (hs(slice str (key_start l) (key_end l) \<mapsto> slice str (value_start l) (int (i + length vs)))) cs"
  using assms
proof (induction vs arbitrary: i)
  case Nil
  then show ?case by (simp add: ph_step_def CRLF_def numeral_2_eq_2 fun_upd_def)
next
  case (Cons c vs)
  then have "c \<noteq> CR" "\<not> 255 < int i - value_start l" by auto
  then have "ph_loop str i l H_VALUE hs ((c # vs) @ CRLF @ cs) = ph_loop str (Suc i) l H_VALUE hs (vs @ CRLF @ cs)"
    by (simp add: ph_step_def)
  with Cons.IH [of "Suc i"] Cons.prems show ?case by (simp add: add.commute add.left_commute)
qed

lemma slice_at: "slice (pre @ x @ post) (int (length pre)) (int (length pre + length x)) = x"
  by (simp add: slice_def)

lemma ph_header:
  assumes k: "lkey_ok k" and v: "lvalue_ok v" and str: "str = pre @ lheader (k, v) @ cs"
    and st: "st = H_LF \<or> st = H_START"
  shows "\<exists>l'. ph_loop str (length pre) l st hs (lheader (k, v) @ cs) =
    ph_loop str (length (pre @ lheader (k, v))) l' H_LF (hs(k \<mapsto> v)) cs"
proof -
  obtain c ks where ck: "k = c # ks" using k by (cases k) (auto simp: lkey_ok_def)
  obtain a vs where av: "v = a # vs" using v by (cases v) (auto simp: lvalue_ok_def)
  have cne: "c \<noteq> CR" "c \<noteq> LF" using k ck by (auto simp: lkey_ok_def)
  define i where "i = length pre"
  obtain l1 where l1: "key_start l1 = int i"
    "ph_loop str i l st hs (lheader (k, v) @ cs) = ph_loop str (Suc i) l1 H_KEY hs (ks @ '': '' @ v @ CRLF @ cs)"
  proof (cases "st = H_LF")
    case True
    with cne ck show ?thesis by (intro that [of "l\<lparr>key_start := int i\<rparr>"]) (simp_all add: lheader_def ph_step_def)
  next
    case False
    with st cne ck show ?thesis
      by (intro that [of "l\<lparr>key_start := int i, line_begin := int i\<rparr>"]) (simp_all add: lheader_def ph_step_def)
  qed
  define l2 where "l2 = l1\<lparr>key_end := int (Suc i + length ks)\<rparr>"
  define j where "j = Suc i + length ks + 2"
  have "ph_loop str (Suc i) l1 H_KEY hs (ks @ '': '' @ v @ CRLF @ cs) =
      ph_loop str j l2 H_SPACES_AFTER_COLON hs (v @ CRLF @ cs)"
    using ph_key [of ks l1 "Suc i" str hs "v @ CRLF @ cs"] k ck l1(1) by (simp add: lkey_ok_def l2_def j_def)
  also have "\<dots> = ph_loop str (Suc j) (l2\<lparr>value_start := int j\<rparr>) H_VALUE hs (vs @ CRLF @ cs)"
    by (simp add: av ph_step_def)
  also have "\<dots> = ph_loop str (Suc j + length vs + 2)
      ((l2\<lparr>value_start := int j\<rparr>)\<lparr>value_end := int (Suc j + length vs), line_begin := int (Suc j + length vs + 1)\<rparr>)
      H_LF (hs(slice str (int i) (int (Suc i + length ks)) \<mapsto> slice str (int j) (int (Suc j + length vs)))) cs"
    using ph_value_rest [of vs "l2\<lparr>value_start := int j\<rparr>" "Suc j" str hs cs] v av l1(1)
    by (simp add: lvalue_ok_def l2_def)
  also have "slice str (int i) (int (Suc i + length ks)) = k"
    using slice_at [of pre k "'': '' @ v @ CRLF @ cs"] by (simp add: str lheader_def i_def ck)
  also have "slice str (int j) (int (Suc j + length vs)) = v"
    using slice_at [of "pre @ k @ '': ''" v "CRLF @ cs"]
    by (simp add: str lheader_def i_def j_def ck av)
  finally show ?thesis
    unfolding i_def [symmetric] l1(2)
    by (auto simp: lheader_def i_def j_def ck av add.commute add.left_commute fun_upd_def)
qed

definition lheader_ok :: "string \<times> string \<Rightarrow> bool" where
  "lheader_ok h = (lkey_ok (fst h) \<and> lvalue_ok (snd h))"

lemma ph_block:
  assumes "list_all lheader_ok hs" "str = pre @ lblock hs @ cs"
  shows "\<exists>l'. ph_loop str (length pre) l H_LF m (lblock hs @ cs) =
    ph_loop str (length (pre @ lblock hs)) l' H_LF (m ++ map_of (rev hs)) cs"
  using assms
proof (induction hs arbitrary: pre l m)
  case Nil
  then show ?case by (auto simp: lblock_def)
next
  case (Cons h hs)
  let ?m = "m(fst h \<mapsto> snd h)"
  have ok: "lkey_ok (fst h)" "lvalue_ok (snd h)" "list_all lheader_ok hs"
    and str: "str = pre @ lheader (fst h, snd h) @ lblock hs @ cs"
    using Cons.prems by (simp_all add: lheader_ok_def [of h] lblock_def)
  then have str2: "str = (pre @ lheader (fst h, snd h)) @ lblock hs @ cs" by simp
  obtain l1 where 1: "ph_loop str (length pre) l H_LF m (lheader (fst h, snd h) @ lblock hs @ cs) =
      ph_loop str (length (pre @ lheader (fst h, snd h))) l1 H_LF ?m (lblock hs @ cs)"
    using ph_header [OF ok(1,2) str] by blast
  obtain l2 where 2: "ph_loop str (length (pre @ lheader (fst h, snd h))) l1 H_LF ?m (lblock hs @ cs) =
      ph_loop str (length ((pre @ lheader (fst h, snd h)) @ lblock hs)) l2 H_LF (?m ++ map_of (rev hs)) cs"
    using Cons.IH [OF ok(3) str2] by blast
  have "?m ++ map_of (rev hs) = m ++ map_of (rev (h # hs))"
    by (rule ext) (simp add: map_add_def map_of_append split: option.split)
  moreover have "lblock (h # hs) = lheader (fst h, snd h) @ lblock hs" by (simp add: lblock_def)
  ultimately show ?case using 1 2 by (intro exI [of _ l2]) (simp only: append_assoc)
qed

text \<open>The blank line: one byte more is consumed, if there is one.\<close>

lemma ph_blank:
  "\<exists>i' l'. ph_loop str i l H_LF m (CRLF @ rest) = (None, i', l', H_END_LF, m) \<and>
     i' = i + 2 + (if rest = [] then 0 else 1)"
  by (cases rest) (simp_all add: CRLF_def ph_step_def)

lemma parseHeaders_ok:
  assumes "hd_in d = LF # lblock hs @ CRLF @ rest" "hs \<noteq> []" "list_all lheader_ok hs" "hd_hstate d = H_START"
  shows "parseHeaders d = (PARSE_HEADER_SUCCESS,
    d\<lparr>hd_hstate := H_END_LF, hd_headers := hd_headers d ++ map_of (rev hs), hd_in := tl rest\<rparr>)"
proof -
  obtain h hs' where hs: "hs = h # hs'" using assms(2) by (cases hs) auto
  define str where "str = hd_in d"
  let ?m = "hd_headers d" and ?pre = "LF # lheader h"
  have str: "str = [LF] @ lheader h @ lblock hs' @ CRLF @ rest" using assms(1) by (simp add: str_def hs lblock_def)
  have "ph_loop str 0 ph_init H_START ?m str =
      ph_loop str (length [LF]) ph_init H_START ?m (lheader h @ lblock hs' @ CRLF @ rest)"
    by (subst (2) str) (simp add: ph_step_def)
  moreover obtain l1 where "ph_loop str (length [LF]) ph_init H_START ?m (lheader h @ lblock hs' @ CRLF @ rest) =
      ph_loop str (length ?pre) l1 H_LF (?m(fst h \<mapsto> snd h)) (lblock hs' @ CRLF @ rest)"
    using ph_header [of "fst h" "snd h" str "[LF]" "lblock hs' @ CRLF @ rest" H_START ph_init ?m] assms(3) str
    by (auto simp: lheader_ok_def hs)
  moreover obtain l2 where "ph_loop str (length ?pre) l1 H_LF (?m(fst h \<mapsto> snd h)) (lblock hs' @ CRLF @ rest) =
      ph_loop str (length (?pre @ lblock hs')) l2 H_LF (?m(fst h \<mapsto> snd h) ++ map_of (rev hs')) (CRLF @ rest)"
    using ph_block [of hs' str ?pre "CRLF @ rest" l1] assms(3) str by (auto simp: hs)
  moreover obtain i' l3 where "ph_loop str (length (?pre @ lblock hs')) l2 H_LF
      (?m(fst h \<mapsto> snd h) ++ map_of (rev hs')) (CRLF @ rest) =
      (None, i', l3, H_END_LF, ?m(fst h \<mapsto> snd h) ++ map_of (rev hs'))"
    and i': "i' = length (?pre @ lblock hs') + 2 + (if rest = [] then 0 else 1)"
    using ph_blank by blast
  moreover have "?m(fst h \<mapsto> snd h) ++ map_of (rev hs') = ?m ++ map_of (rev hs)"
    by (rule ext) (simp add: hs map_add_def map_of_append split: option.split)
  moreover have "drop i' str = tl rest"
    by (cases rest) (simp_all add: i' str CRLF_def)
  ultimately show ?thesis
    using assms(4) by (simp add: parseHeaders_def str_def)
qed

section \<open>Requests served\<close>

text \<open>A connection that waits for a request.\<close>

definition idle :: "HttpData \<Rightarrow> bool" where
  "idle d = (hd_in d = [] \<and> hd_out d = [] \<and> \<not> hd_error d \<and> hd_conn d = H_CONNECTED \<and> hd_pos d = 0 \<and>
     hd_state d = STATE_PARSE_URI \<and> hd_hstate d = H_START \<and> hd_headers d = Map.empty)"

definition keep_asked :: "(string \<times> string) list \<Rightarrow> bool" where
  "keep_asked hs = (map_of (rev hs) ''Connection'' \<in> {Some ''Keep-Alive'', Some ''keep-alive''})"

definition content_type :: "string \<Rightarrow> string" where
  "content_type f = (case str_find_char (CHR ''.'') f 0 of
     None \<Rightarrow> ''text/html'' | Some k \<Rightarrow> getMime (drop k f))"

text \<open>The answer for a file of \<open>sz\<close> bytes.\<close>

definition ok_reply :: "HttpMethod \<Rightarrow> string \<Rightarrow> bool \<Rightarrow> nat \<Rightarrow> string \<Rightarrow> string" where
  "ok_reply m f keep sz bytes =
     ''HTTP/1.1 200 OK'' @ CRLF @
     (if keep then ''Connection: Keep-Alive'' @ CRLF @ ''Keep-Alive: timeout=300000'' @ CRLF else []) @
     ''Content-Type: '' @ content_type f @ CRLF @ ''Content-Length: '' @ to_string sz @ CRLF @
     server_line @ CRLF @ (if m = METHOD_HEAD then [] else take sz bytes)"

definition request_bytes :: "HttpMethod \<Rightarrow> string \<Rightarrow> HttpVersion \<Rightarrow> (string \<times> string) list \<Rightarrow> string" where
  "request_bytes m f v hs = req_line m f v @ CRLF @ lblock hs @ CRLF"

definition request_ok :: "HttpMethod \<Rightarrow> string \<Rightarrow> HttpVersion \<Rightarrow> (string \<times> string) list \<Rightarrow> bool" where
  "request_ok m f v hs =
     (f \<noteq> [] \<and> CR \<notin> set f \<and> CHR '' '' \<notin> set f \<and> method_clear m (req_line m f v) \<and>
      hs \<noteq> [] \<and> list_all lheader_ok hs \<and> length (request_bytes m f v hs) < 2 ^ 31)"

text \<open>The part of the block after the read, on a complete request and what follows it.\<close>

definition parsed :: "HttpMethod \<Rightarrow> string \<Rightarrow> HttpVersion \<Rightarrow> (string \<times> string) list \<Rightarrow> string \<Rightarrow> HttpData \<Rightarrow> HttpData" where
  "parsed m f v hs rest d = d\<lparr>hd_in := tl rest, hd_method := m, hd_version := v,
     hd_file := takeWhile (\<lambda>c. c \<noteq> CHR ''?'') f, hd_hstate := H_END_LF,
     hd_headers := map_of (rev hs), hd_state := STATE_ANALYSIS\<rparr>"

lemma hr_rest_parsed:
  assumes "idle (d\<lparr>hd_in := []\<rparr>)" "hd_in d = request_bytes m f v hs @ rest" "request_ok m f v hs"
    "m \<noteq> METHOD_POST" "length (hd_in d) < 2 ^ 31"
  shows "hr_then hr_uri (hr_then hr_headers (hr_then hr_body (hr_analysis fs))) (d, w) =
    hr_analysis fs (parsed m f v hs rest d, w)"
proof -
  define d1 where "d1 = d\<lparr>hd_in := LF # lblock hs @ CRLF @ rest, hd_method := m,
    hd_file := takeWhile (\<lambda>c. c \<noteq> CHR ''?'') f, hd_version := v\<rparr>"
  have "parseURI d = (PARSE_URI_SUCCESS, d1)"
    unfolding d1_def
    by (rule parseURI_ok) (use assms in \<open>simp_all add: request_ok_def request_bytes_def idle_def CRLF_def\<close>)
  then have u: "hr_uri (d, w) = (True, d1\<lparr>hd_state := STATE_PARSE_HEADERS\<rparr>, w)"
    using assms(1) by (simp add: idle_def)
  have "parseHeaders (d1\<lparr>hd_state := STATE_PARSE_HEADERS\<rparr>) = (PARSE_HEADER_SUCCESS,
      (d1\<lparr>hd_state := STATE_PARSE_HEADERS\<rparr>)\<lparr>hd_hstate := H_END_LF, hd_headers := map_of (rev hs), hd_in := tl rest\<rparr>)"
    using parseHeaders_ok [of "d1\<lparr>hd_state := STATE_PARSE_HEADERS\<rparr>" hs rest] assms
    by (simp add: d1_def request_ok_def idle_def)
  then have h: "hr_headers (d1\<lparr>hd_state := STATE_PARSE_HEADERS\<rparr>, w) = (True, parsed m f v hs rest d, w)"
    using assms(4) by (simp add: d1_def parsed_def)
  show ?thesis by (simp only: hr_then_def u h prod.case bool.case) (simp add: parsed_def)
qed

lemma content_type_eq:
  "(case str_find_char (CHR ''.'') f 0 of None \<Rightarrow> getMime ''default'' | Some k \<Rightarrow> getMime (drop k f)) = content_type f"
proof -
  have "getMime ''default'' = ''text/html''" by (simp add: getMime_def mime_table_def)
  then show ?thesis by (simp only: content_type_def)
qed

lemma keep_alive_text: "int_to_string DEFAULT_KEEP_ALIVE_TIME = ''300000''"
proof -
  have "char_of (51 :: nat) = CHR ''3''" "char_of (48 :: nat) = CHR ''0''" by code_simp+
  then show ?thesis by (simp add: int_to_string_def DEFAULT_KEEP_ALIVE_TIME_def to_string.simps digit_char_def)
qed

lemma analysis_file:
  assumes f: "hd_file d = f" "f \<noteq> ''hello''" "f \<noteq> ''favicon.ico''" "ls_stat fs (c_str f) = Some sz"
    and m: "hd_method d \<noteq> METHOD_POST" and out: "hd_out d = []"
    and get: "hd_method d = METHOD_GET \<Longrightarrow> ls_open fs (c_str f) \<and> ls_mmap fs (c_str f) = Some bytes"
  shows "analysisRequest fs d w = (ANALYSIS_SUCCESS,
    d\<lparr>hd_keep := hd_keep d \<or> wants_keep d, hd_out := ok_reply (hd_method d) f (wants_keep d) sz bytes\<rparr>, w)"
  unfolding analysisRequest_def Let_def f(1) content_type_eq keep_alive_text ok_reply_def
  using f m out get by (cases "hd_method d"; cases "wants_keep d") simp_all

text \<open>One readiness of the descriptor: the request arrives in any number of pieces and the answer
  leaves in any number of pieces.\<close>

lemma writen_loop_all:
  "length p \<le> sum_list ks \<Longrightarrow>
    \<exists>ks'. writen_loop (map Wr ks) p d = ((int (length (d @ p)), True), d @ p, map Wr ks')"
proof (induction ks arbitrary: p d)
  case Nil
  then show ?case by (auto intro: exI [of _ "[]"])
next
  case (Cons k ks)
  show ?case
  proof (cases p)
    case Nil
    then show ?thesis by (auto intro: exI [of _ "k # ks"])
  next
    case p: (Cons c cs)
    have "length (drop k p) \<le> sum_list ks" using Cons.prems by simp
    from Cons.IH [OF this, of "d @ take k p"]
    obtain ks' where "writen_loop (map Wr ks) (drop k p) (d @ take k p) =
        ((int (length (d @ p)), True), d @ p, map Wr ks')"
      by (metis append.assoc append_take_drop_id)
    moreover have "writen_loop (map Wr (k # ks)) p d = writen_loop (map Wr ks) (drop k p) (d @ take k p)"
      by (simp add: p)
    ultimately show ?thesis by metis
  qed
qed

lemma writen_string_all:
  "length p \<le> sum_list ks \<Longrightarrow> \<exists>ks'. writen_string (map Wr ks) p = (int (length p), [], p, map Wr ks')"
  using writen_loop_all [of p ks "[]"] by (auto simp: writen_string_def)

lemma handleWrite_all:
  assumes "\<not> hd_error d" "hd_conn d \<noteq> H_DISCONNECTED" "lw_writes w = map Wr ks" "length (hd_out d) \<le> sum_list ks"
  shows "\<exists>ks'. handleWrite d w = (d\<lparr>hd_out := []\<rparr>, w\<lparr>lw_writes := map Wr ks', lw_out := lw_out w @ hd_out d\<rparr>)"
  using writen_string_all [OF assms(4)] assms(1-3) by (auto simp: handleWrite_def Let_def)

lemma hr_read_chunks:
  assumes "lw_reads w = map Rd ds" "list_all (\<lambda>x. x \<noteq> []) ds" "hd_conn d = H_CONNECTED"
  shows "hr_read (d, w) = (True, d\<lparr>hd_in := hd_in d @ concat ds\<rparr>, w\<lparr>lw_reads := []\<rparr>)"
  using readn_zero_script [OF assms(2), of 0 "hd_in d" False] assms by (simp add: Let_def)

text \<open>The state of the connection after a request that left \<open>rest'\<close> in the buffer.\<close>

definition served :: "HttpMethod \<Rightarrow> HttpVersion \<Rightarrow> (string \<times> string) list \<Rightarrow> string \<Rightarrow> HttpData \<Rightarrow> HttpData" where
  "served m v hs rest' d = d\<lparr>hd_in := rest', hd_method := m, hd_version := v, hd_file := [],
     hd_keep := hd_keep d \<or> keep_asked hs, hd_timer := False\<rparr>"

text \<open>A file that can be sent.\<close>

definition servable :: "legacy_fs \<Rightarrow> HttpMethod \<Rightarrow> string \<Rightarrow> nat \<Rightarrow> string \<Rightarrow> bool" where
  "servable fs m f sz bytes =
     (f \<noteq> ''hello'' \<and> f \<noteq> ''favicon.ico'' \<and> ls_stat fs (c_str f) = Some sz \<and>
      (m = METHOD_GET \<longrightarrow> ls_open fs (c_str f) \<and> ls_mmap fs (c_str f) = Some bytes))"

lemma hr_block_request:
  assumes idle: "idle d" and w: "lw_reads w = map Rd ds" "list_all (\<lambda>x. x \<noteq> []) ds"
    and bytes: "concat ds = request_bytes m f v hs @ rest" "length (concat ds) < 2 ^ 31"
    and ok: "request_ok m f v hs" "m \<noteq> METHOD_POST"
    and f: "f' = takeWhile (\<lambda>c. c \<noteq> CHR ''?'') f" "servable fs m f' sz body"
  shows "hr_block fs (d, w) =
    ((parsed m f v hs rest d)\<lparr>hd_keep := hd_keep d \<or> keep_asked hs,
       hd_out := ok_reply m f' (keep_asked hs) sz body, hd_state := STATE_FINISH\<rparr>, w\<lparr>lw_reads := []\<rparr>)"
proof -
  let ?d = "d\<lparr>hd_in := concat ds\<rparr>" and ?w = "w\<lparr>lw_reads := []\<rparr>"
  let ?p = "parsed m f v hs rest ?d"
  have r: "hr_read (d, w) = (True, ?d, ?w)" using hr_read_chunks [OF w, of d] idle by (simp add: idle_def del: hr_read.simps)
  have p: "hr_then hr_uri (hr_then hr_headers (hr_then hr_body (hr_analysis fs))) (?d, ?w) =
      hr_analysis fs (?p, ?w)"
    by (rule hr_rest_parsed) (use idle bytes ok in \<open>simp_all add: idle_def\<close>)
  have wk: "wants_keep ?p = keep_asked hs" by (simp add: wants_keep_def keep_asked_def parsed_def)
  have "analysisRequest fs ?p ?w = (ANALYSIS_SUCCESS,
      ?p\<lparr>hd_keep := hd_keep ?p \<or> wants_keep ?p, hd_out := ok_reply (hd_method ?p) f' (wants_keep ?p) sz body\<rparr>, ?w)"
    by (rule analysis_file) (use f ok idle in \<open>simp_all add: servable_def parsed_def idle_def\<close>)
  then have "hr_analysis fs (?p, ?w) =
      (False, ?p\<lparr>hd_keep := hd_keep d \<or> keep_asked hs, hd_out := ok_reply m f' (keep_asked hs) sz body,
        hd_state := STATE_FINISH\<rparr>, ?w)"
    unfolding wk by (simp add: parsed_def)
  then show ?thesis 
    by (simp add: hr_block_def hr_then_def [of hr_read] r p del: hr_read.simps hr_analysis.simps)
      (simp add: parsed_def)
qed

lemma handleRead_step:
  assumes idle: "idle d" and w: "lw_reads w = map Rd ds" "list_all (\<lambda>x. x \<noteq> []) ds"
    and bytes: "concat ds = request_bytes m f v hs @ rest" "length (concat ds) < 2 ^ 31"
    and ok: "request_ok m f v hs" "m \<noteq> METHOD_POST"
    and f: "f' = takeWhile (\<lambda>c. c \<noteq> CHR ''?'') f" "servable fs m f' sz body"
    and wr: "lw_writes w = map Wr ks" "length (ok_reply m f' (keep_asked hs) sz body) \<le> sum_list ks"
  shows "\<exists>ks'. handleRead fs (d, w) =
    (let s = (served m v hs (tl rest) d, w\<lparr>lw_reads := [], lw_writes := map Wr ks',
           lw_out := lw_out w @ ok_reply m f' (keep_asked hs) sz body\<rparr>)
     in if tl rest \<noteq> [] then handleRead fs s else s)"
proof -
  let ?r = "ok_reply m f' (keep_asked hs) sz body"
  let ?d = "(parsed m f v hs rest d)\<lparr>hd_keep := hd_keep d \<or> keep_asked hs, hd_out := ?r, hd_state := STATE_FINISH\<rparr>"
  let ?w = "w\<lparr>lw_reads := []\<rparr>"
  have d: "\<not> hd_error ?d" "hd_conn ?d = H_CONNECTED" "hd_out ?d = ?r" "?r \<noteq> []"
    using idle by (simp_all add: parsed_def idle_def ok_reply_def)
  obtain ks' where wr': "handleWrite ?d ?w =
      (?d\<lparr>hd_out := []\<rparr>, ?w\<lparr>lw_writes := map Wr ks', lw_out := lw_out ?w @ hd_out ?d\<rparr>)"
    using handleWrite_all [of ?d ?w ks] d wr by auto
  have flush: "hr_flush (?d, ?w) = (?d\<lparr>hd_out := []\<rparr>, w\<lparr>lw_reads := [], lw_writes := map Wr ks', lw_out := lw_out w @ ?r\<rparr>)"
    unfolding hr_flush_def prod.case wr' using d(4) by simp
  have reset: "hd_reset (?d\<lparr>hd_out := []\<rparr>) = served m v hs (tl rest) d"
    using idle by (cases d) (simp add: hd_reset_def parsed_def served_def idle_def)
  have "handleRead fs (d, w) =
    (let s = (served m v hs (tl rest) d, w\<lparr>lw_reads := [], lw_writes := map Wr ks', lw_out := lw_out w @ ?r\<rparr>)
     in if tl rest \<noteq> [] then handleRead fs s else s)"
    unfolding handleRead.simps [of fs "(d, w)"] hr_block_request [OF assms(1-9)] prod.case flush reset Let_def
    using idle by (simp add: parsed_def served_def idle_def)
  then show ?thesis by blast
qed

lemma idle_served: "idle d \<Longrightarrow> idle (served m v hs [] d)"
  by (simp add: idle_def served_def)


text \<open>The byte after the blank line is dropped. So a request that arrives together with the
  one before loses its first byte: unless its line happens to contain the name of a method
  later, the pipelined request is answered 400 and the connection fails.\<close>

theorem handleRead_pipelined:
  assumes "idle d" "lw_reads w = map Rd ds" "list_all (\<lambda>x. x \<noteq> []) ds"
    "concat ds = request_bytes m f v hs @ rest" "length (concat ds) < 2 ^ 31"
    "rest = req_line m2 f2 v2 @ CR # rest2" "CR \<notin> set f2" "find_method (tl (req_line m2 f2 v2)) = None"
    "request_ok m f v hs" "m \<noteq> METHOD_POST"
    "f' = takeWhile (\<lambda>c. c \<noteq> CHR ''?'') f" "servable fs m f' sz body"
    "lw_writes w = map Wr ks" "length (ok_reply m f' (keep_asked hs) sz body) \<le> sum_list ks"
  shows "\<exists>d' w1. handleRead fs (d, w) = (d', handleError 400 ''Bad Request'' w1) \<and> hd_error d' \<and>
    lw_out w1 = lw_out w @ ok_reply m f' (keep_asked hs) sz body"
proof -
  let ?r = "ok_reply m f' (keep_asked hs) sz body" and ?line = "tl (req_line m2 f2 v2)"
  have line: "CR \<notin> set ?line"
    using assms(7) by (auto simp: req_line_def method_name_def version_name_def CR_def split: HttpMethod.splits HttpVersion.splits)
  have tl: "tl rest = ?line @ CR # rest2" "tl rest \<noteq> []"
    unfolding assms(6) by (simp_all add: req_line_def method_name_def split: HttpMethod.splits)
  obtain ks' where step: "handleRead fs (d, w) = handleRead fs (served m v hs (tl rest) d,
      w\<lparr>lw_reads := [], lw_writes := map Wr ks', lw_out := lw_out w @ ?r\<rparr>)"
    using handleRead_step [OF assms(1-5,9-14)] tl(2) by auto
  let ?d = "served m v hs (tl rest) d"
  let ?w = "w\<lparr>lw_reads := [], lw_writes := map Wr ks', lw_out := lw_out w @ ?r\<rparr>"
  have d: "hd_conn ?d = H_CONNECTED" "hd_state ?d = STATE_PARSE_URI" "hd_pos ?d = 0" "hd_in ?d = ?line @ CR # rest2"
    using assms(1) tl by (simp_all add: served_def idle_def)
  have same: "?d\<lparr>hd_in := hd_in ?d\<rparr> = ?d" by simp
  have "str_find_char CR (hd_in ?d) 0 = Some (length ?line)"
    unfolding d(4) using line by (rule str_find_char_prefix)
  then have "fst (parseURI ?d) = PARSE_URI_ERROR"
    using assms(8) d by (simp add: parseURI_def find_npos_def [of "Some _"] Let_def)
  then obtain e where "parseURI ?d = (PARSE_URI_ERROR, e)" by (metis prod.collapse)
  then have "hr_block fs (?d, ?w) =
      (e\<lparr>hd_in := [], hd_error := True\<rparr>, handleError 400 ''Bad Request'' (?w\<lparr>lw_reads := []\<rparr>))"
    using d(1,2) same by (simp add: hr_block_def hr_then_def)
  then have "handleRead fs (d, w) =
      (e\<lparr>hd_in := [], hd_error := True\<rparr>, handleError 400 ''Bad Request'' (?w\<lparr>lw_reads := []\<rparr>))"
    unfolding step handleRead.simps [of fs "(?d, ?w)"] by simp
  then show ?thesis
    by (intro exI [of _ "e\<lparr>hd_in := [], hd_error := True\<rparr>"] exI [of _ "?w\<lparr>lw_reads := []\<rparr>"] conjI) simp_all
qed

section \<open>Requests refused or left waiting\<close>

lemma sock_write_once:
  "buff \<noteq> [] \<Longrightarrow> length buff \<le> k \<Longrightarrow> lw_writes w = Wr k # ws \<Longrightarrow>
    sock_write buff w = w\<lparr>lw_writes := ws, lw_out := lw_out w @ buff\<rparr>"
  by (cases buff) (simp_all add: sock_write_def writen_buf_def)

text \<open>A request for a file that does not exist is answered with the 404 page, whose
  Content-Length is the length of its body, and the connection is closed.\<close>

theorem handleRead_missing:
  assumes "idle d" "lw_reads w = map Rd ds" "list_all (\<lambda>x. x \<noteq> []) ds"
    "concat ds = request_bytes m f v hs" "request_ok m f v hs" "m \<noteq> METHOD_POST"
    "f' = takeWhile (\<lambda>c. c \<noteq> CHR ''?'') f" "f' \<noteq> ''hello''" "f' \<noteq> ''favicon.ico''" "ls_stat fs (c_str f') = None"
    "lw_writes w = Wr a # Wr b # ws" "length (error_header 404 ''Not Found!'') \<le> a"
    "length (error_body 404 ''Not Found!'') \<le> b"
  shows "\<exists>d'. handleRead fs (d, w) = (d', w\<lparr>lw_reads := [], lw_writes := ws,
      lw_out := lw_out w @ error_header 404 ''Not Found!'' @ error_body 404 ''Not Found!''\<rparr>) \<and>
    snd (handleConn d') = [Remove_from_poller]"
proof -
  let ?d = "d\<lparr>hd_in := concat ds\<rparr>" and ?w = "w\<lparr>lw_reads := []\<rparr>"
  let ?p = "parsed m f v hs [] ?d"
  have r: "hr_read (d, w) = (True, ?d, ?w)"
    using hr_read_chunks [OF assms(2,3), of d] assms(1) by (simp add: idle_def del: hr_read.simps)
  have p: "hr_then hr_uri (hr_then hr_headers (hr_then hr_body (hr_analysis fs))) (?d, ?w) = hr_analysis fs (?p, ?w)"
    by (rule hr_rest_parsed) (use assms in \<open>simp_all add: idle_def request_ok_def\<close>)
  have e: "error_header 404 ''Not Found!'' \<noteq> []" "error_body 404 ''Not Found!'' \<noteq> []"
    by (simp_all add: error_header_def error_body_def error_title_def)
  have he: "handleError 404 ''Not Found!'' ?w = w\<lparr>lw_reads := [], lw_writes := ws,
      lw_out := lw_out w @ error_header 404 ''Not Found!'' @ error_body 404 ''Not Found!''\<rparr>"
    using sock_write_once [OF e(1), of a ?w "Wr b # ws"] assms(11-13)
      sock_write_once [OF e(2), of b "?w\<lparr>lw_writes := Wr b # ws, lw_out := lw_out w @ error_header 404 ''Not Found!''\<rparr>" ws]
    by (simp add: handleError_def)
  have "hd_file ?p = f'" "hd_method ?p = m" by (simp_all add: parsed_def assms(7))
  then have "analysisRequest fs ?p ?w = (ANALYSIS_ERROR, if wants_keep ?p then ?p\<lparr>hd_keep := True\<rparr> else ?p,
      handleError 404 ''Not Found!'' ?w)"
    using assms(6,8-10) by (simp add: analysisRequest_def Let_def)
  then have "hr_analysis fs (?p, ?w) = (False, (if wants_keep ?p then ?p\<lparr>hd_keep := True\<rparr> else ?p)\<lparr>hd_error := True\<rparr>,
      handleError 404 ''Not Found!'' ?w)"
    by (simp add: parsed_def)
  then have "hr_block fs (d, w) = ((if wants_keep ?p then ?p\<lparr>hd_keep := True\<rparr> else ?p)\<lparr>hd_error := True\<rparr>,
      handleError 404 ''Not Found!'' ?w)"
    by (simp add: hr_block_def hr_then_def [of hr_read] r p del: hr_read.simps hr_analysis.simps)
  then show ?thesis
    unfolding handleRead.simps [of fs "(d, w)"] he
    by (auto simp: handleConn_def seperateTimer_def handleClose_def Let_def)
qed

text \<open>Line ends alone never move the header automaton from its first state.\<close>

lemma ph_blank_start:
  "set cs \<subseteq> {CR, LF} \<Longrightarrow> ph_loop str i l H_START m cs = (None, i + length cs, l, H_START, m)"
  by (induction cs arbitrary: i) (auto simp: ph_step_def)

lemma parseHeaders_blank:
  "hd_hstate d = H_START \<Longrightarrow> set (hd_in d) \<subseteq> {CR, LF} \<Longrightarrow> parseHeaders d = (PARSE_HEADER_AGAIN, d)"
  by (cases d) (simp add: parseHeaders_def ph_blank_start ph_init_def)

text \<open>A request without header lines, though complete, is not answered: the connection goes
  on waiting for headers, and any further line ends are kept and change nothing.\<close>

theorem handleRead_no_headers:
  assumes "idle d" "lw_reads w = map Rd ds" "list_all (\<lambda>x. x \<noteq> []) ds"
    "concat ds = req_line m f v @ CRLF @ CRLF @ more_ends" "set more_ends \<subseteq> {CR, LF}"
    "f \<noteq> []" "CR \<notin> set f" "CHR '' '' \<notin> set f" "method_clear m (req_line m f v)" "length (concat ds) < 2 ^ 31"
  shows "\<exists>d'. handleRead fs (d, w) = (d', w\<lparr>lw_reads := []\<rparr>) \<and> hd_state d' = STATE_PARSE_HEADERS \<and>
    hd_hstate d' = H_START \<and> hd_in d' = LF # CRLF @ more_ends \<and> \<not> hd_error d' \<and> hd_out d' = []"
proof -
  let ?d = "d\<lparr>hd_in := concat ds\<rparr>" and ?w = "w\<lparr>lw_reads := []\<rparr>"
  define d1 where "d1 = ?d\<lparr>hd_in := LF # CRLF @ more_ends, hd_method := m,
    hd_file := takeWhile (\<lambda>c. c \<noteq> CHR ''?'') f, hd_version := v, hd_state := STATE_PARSE_HEADERS\<rparr>"
  have r: "hr_read (d, w) = (True, ?d, ?w)"
    using hr_read_chunks [OF assms(2,3), of d] assms(1) by (simp add: idle_def del: hr_read.simps)
  have "parseURI ?d = (PARSE_URI_SUCCESS, ?d\<lparr>hd_in := LF # CRLF @ more_ends, hd_method := m,
      hd_file := takeWhile (\<lambda>c. c \<noteq> CHR ''?'') f, hd_version := v\<rparr>)"
    by (rule parseURI_ok) (use assms in \<open>simp_all add: idle_def CRLF_def\<close>)
  then have u: "hr_uri (?d, ?w) = (True, d1, ?w)" using assms(1) by (simp add: idle_def d1_def)
  have "parseHeaders d1 = (PARSE_HEADER_AGAIN, d1)"
    by (rule parseHeaders_blank) (use assms(1,5) in \<open>simp_all add: d1_def idle_def CRLF_def\<close>)
  then have h: "hr_headers (d1, ?w) = (False, d1, ?w)" by (simp add: d1_def)
  have "hr_block fs (d, w) = (d1, ?w)"
    by (simp add: hr_block_def hr_then_def r u h del: hr_read.simps hr_uri.simps hr_headers.simps)
  then show ?thesis
    unfolding handleRead.simps [of fs "(d, w)"] using assms(1) by (simp add: hr_flush_def d1_def idle_def)
qed

section \<open>Witnesses\<close>

definition wit_fs :: legacy_fs where
  "wit_fs = \<lparr>ls_stat = (\<lambda>p. if p = ''a'' then Some 2 else None), ls_open = (\<lambda>p. p = ''a''), ls_mmap = (\<lambda>p. Some ''hi'')\<rparr>"

definition wit_world :: "string list \<Rightarrow> lworld" where
  "wit_world ds = \<lparr>lw_reads = map Rd ds, lw_writes = map Wr [50, 1000], lw_out = [], lw_exn = None\<rparr>"

definition wit_req :: string where
  "wit_req = request_bytes METHOD_GET ''a?x'' HTTP_11 [(''Host'', ''x'')]"

lemma wit_request:
  "idle (HttpData_make 7)" "request_ok METHOD_GET ''a?x'' HTTP_11 [(''Host'', ''x'')]"
  "request_ok METHOD_GET ''b'' HTTP_11 [(''Host'', ''x'')]"
  by (simp_all add: idle_def HttpData_make_def request_ok_def CR_def LF_def method_clear_def lheader_ok_def lkey_ok_def
      lvalue_ok_def request_bytes_def req_line_def lblock_def lheader_def CRLF_def method_name_def version_name_def)

lemma wit_servable: "servable wit_fs METHOD_GET ''a'' 2 ''hi''"
  by (simp add: servable_def wit_fs_def c_str_def)

lemma wit_keep: "keep_asked [(''Host'', ''x'')] = False"
  by (simp add: keep_asked_def)

lemma wit_reply: "length (ok_reply METHOD_GET ''a'' False 2 ''hi'') \<le> 1050"
proof -
  have "length (to_string 2) = 1" by (simp add: to_string.simps [of 2])
  moreover have "content_type ''a'' = ''text/html''" by (simp add: content_type_def str_find_char_def)
  ultimately show ?thesis by (simp add: ok_reply_def server_line_def CRLF_def)
qed

lemmas wit_facts = wit_request wit_servable wit_keep wit_reply


theorem handleRead_pipelined_witness:
  "\<exists>d' w1. handleRead wit_fs (HttpData_make 7, wit_world [wit_req @ req_line METHOD_GET ''a'' HTTP_11 @ CR # [LF]]) =
      (d', handleError 400 ''Bad Request'' w1) \<and> hd_error d' \<and>
    lw_out w1 = [] @ ok_reply METHOD_GET ''a'' False 2 ''hi''"
proof -
  let ?rest = "req_line METHOD_GET ''a'' HTTP_11 @ CR # [LF]"
  let ?ds = "[wit_req @ ?rest]"
  let ?w = "wit_world ?ds"
  have w: "lw_reads ?w = map Rd ?ds" "lw_writes ?w = map Wr [50, 1000]" "lw_out ?w = []"
    by (simp_all add: wit_world_def)
  have ds: "list_all (\<lambda>x. x \<noteq> []) ?ds" "concat ?ds = request_bytes METHOD_GET ''a?x'' HTTP_11 [(''Host'', ''x'')] @ ?rest"
    by (simp_all add: wit_req_def)
  have len: "length (concat ?ds) < 2 ^ 31"
    by (simp add: wit_req_def request_bytes_def req_line_def lblock_def lheader_def CRLF_def method_name_def version_name_def)
  have fm: "find_method (tl (req_line METHOD_GET ''a'' HTTP_11)) = None" "CR \<notin> set ''a''"
    by (simp_all add: find_method_def req_line_def method_name_def version_name_def str_find_def find_npos_def
        cast_int_simps CR_def)
  have f: "''a'' = takeWhile (\<lambda>c. c \<noteq> CHR ''?'') ''a?x''" "METHOD_GET \<noteq> METHOD_POST" by simp_all
  have wr: "length (ok_reply METHOD_GET ''a'' (keep_asked [(''Host'', ''x'')]) 2 ''hi'') \<le> sum_list [50, 1000]"
    using wit_reply by (simp add: wit_keep)
  show ?thesis
    using handleRead_pipelined [OF wit_request(1) w(1) ds len refl fm(2,1) wit_request(2) f(2,1) wit_servable w(2) wr]
    unfolding w(3) wit_keep .
qed

theorem handleRead_missing_witness:
  "\<exists>d'. handleRead wit_fs (HttpData_make 7, (wit_world [request_bytes METHOD_GET ''b'' HTTP_11 [(''Host'', ''x'')]])
        \<lparr>lw_writes := [Wr 500, Wr 500]\<rparr>) =
      (d', \<lparr>lw_reads = [], lw_writes = [],
        lw_out = error_header 404 ''Not Found!'' @ error_body 404 ''Not Found!'', lw_exn = None\<rparr>) \<and>
    snd (handleConn d') = [Remove_from_poller]"
proof -
  let ?ds = "[request_bytes METHOD_GET ''b'' HTTP_11 [(''Host'', ''x'')]]"
  let ?w = "(wit_world ?ds)\<lparr>lw_writes := [Wr 500, Wr 500]\<rparr>"
  have "length (error_header 404 ''Not Found!'') \<le> 500" "length (error_body 404 ''Not Found!'') \<le> 500"
    by (simp_all add: error_header_def error_body_def error_title_def server_line_def CRLF_def to_string.simps)
  moreover have "request_bytes METHOD_GET ''b'' HTTP_11 [(''Host'', ''x'')] \<noteq> []"
    by (simp add: request_bytes_def req_line_def method_name_def)
  moreover have "ls_stat wit_fs (c_str ''b'') = None" by (simp add: wit_fs_def c_str_def)
  ultimately show ?thesis
    using handleRead_missing [of "HttpData_make 7" ?w ?ds METHOD_GET "''b''" HTTP_11
        "[(''Host'', ''x'')]" "''b''" wit_fs 500 500 "[]"] wit_request
    by (simp add: wit_world_def)
qed

theorem handleRead_no_headers_witness:
  "\<exists>d'. handleRead wit_fs (HttpData_make 7, wit_world [req_line METHOD_GET ''a'' HTTP_11 @ CRLF, CRLF]) =
      (d', (wit_world [])) \<and> hd_state d' = STATE_PARSE_HEADERS \<and>
    hd_hstate d' = H_START \<and> hd_in d' = LF # CRLF \<and> \<not> hd_error d' \<and> hd_out d' = []"
proof -
  let ?ds = "[req_line METHOD_GET ''a'' HTTP_11 @ CRLF, CRLF]"
  have "length (concat ?ds) < 2 ^ 31" "list_all (\<lambda>x. x \<noteq> []) ?ds"
    by (simp_all add: req_line_def CRLF_def method_name_def version_name_def)
  then show ?thesis
    using handleRead_no_headers [of "HttpData_make 7" "wit_world ?ds" ?ds METHOD_GET "''a''" HTTP_11 "[]" wit_fs] wit_request(1)
    by (simp add: wit_world_def CR_def method_clear_def)
qed

end
