(* ===== verification/ThreadPool.thy ===== *)
theory ThreadPool
  imports BoundedQueue
begin

text \<open>
  \<^verbatim>\<open>WebServer/ThreadPool.{h,cpp}\<close>: the pool's static data as a record, its operations, and
  the pool with its worker threads as a step relation in which every critical section is one
  step. The task ring is a bounded queue. A task is a value of the type variable; \<open>None\<close> in the
  ring is the slot whose function is \<^verbatim>\<open>NULL\<close>. The results of the \<^verbatim>\<open>pthread\<close> calls are
  arguments.
\<close>

definition THREADPOOL_LOCK_FAILURE :: int where "THREADPOOL_LOCK_FAILURE = -2"
definition THREADPOOL_QUEUE_FULL :: int where "THREADPOOL_QUEUE_FULL = -3"
definition THREADPOOL_SHUTDOWN :: int where "THREADPOOL_SHUTDOWN = -4"
definition THREADPOOL_THREAD_FAILURE :: int where "THREADPOOL_THREAD_FAILURE = -5"

definition MAX_THREADS :: int where "MAX_THREADS = 1024"
definition MAX_QUEUE :: int where "MAX_QUEUE = 65535"

lemmas tp_codes = THREADPOOL_LOCK_FAILURE_def THREADPOOL_QUEUE_FULL_def THREADPOOL_SHUTDOWN_def
  THREADPOOL_THREAD_FAILURE_def

datatype ShutDownOption = immediate_shutdown | graceful_shutdown

text \<open>\<open>tp_shutdown\<close> is \<open>None\<close> where the source has 0. The counters are natural numbers: they never
  go below 0 nor above \<^verbatim>\<open>MAX_QUEUE\<close>. \<open>tp_locked\<close> tells whether the mutex is left locked.\<close>

record 'a ThreadPool =
  tp_queue :: "'a option list"
  tp_threads :: nat
  thread_count :: nat
  queue_size :: nat
  tp_head :: nat
  tp_tail :: nat
  tp_count :: nat
  tp_shutdown :: "ShutDownOption option"
  tp_started :: int
  tp_locked :: bool

section \<open>Operations\<close>

fun create_threads :: "bool list \<Rightarrow> nat \<Rightarrow> 'a ThreadPool \<Rightarrow> int \<times> 'a ThreadPool" where
  "create_threads rcs 0 p = (0, p)"
| "create_threads [] (Suc n) p = (-1, p)"
| "create_threads (ok # rcs) (Suc n) p =
     (if \<not> ok then (-1, p)
      else create_threads rcs n (p\<lparr>thread_count := thread_count p + 1, tp_started := tp_started p + 1\<rparr>))"

text \<open>\<^verbatim>\<open>vector::resize\<close>.\<close>

definition vec_resize :: "nat \<Rightarrow> 'a option list \<Rightarrow> 'a option list" where
  "vec_resize n xs = take n xs @ replicate (n - length xs) None"

definition threadpool_create :: "bool list \<Rightarrow> int \<Rightarrow> int \<Rightarrow> 'a ThreadPool \<Rightarrow> int \<times> 'a ThreadPool" where
  "threadpool_create rcs tc0 qs0 p =
     (let bad = tc0 \<le> 0 \<or> MAX_THREADS < tc0 \<or> qs0 \<le> 0 \<or> MAX_QUEUE < qs0;
          tc = (if bad then 4 else nat tc0);
          qs = (if bad then 1024 else nat qs0);
          p1 = p\<lparr>thread_count := 0, queue_size := qs, tp_head := 0, tp_tail := 0, tp_count := 0,
                tp_shutdown := None, tp_started := 0, tp_threads := tc, tp_queue := vec_resize qs (tp_queue p)\<rparr>
      in create_threads rcs tc p1)"

text \<open>\<^verbatim>\<open>threadpool_add\<close>, with the results of lock, signal and unlock; \<open>None\<close> is the division by
  zero on a pool that was never created.\<close>

definition threadpool_add :: "int \<Rightarrow> int \<Rightarrow> int \<Rightarrow> 'a \<Rightarrow> 'a ThreadPool \<Rightarrow> (int \<times> 'a ThreadPool) option" where
  "threadpool_add lock_rc signal_rc unlock_rc task p =
     (if lock_rc \<noteq> 0 then Some (THREADPOOL_LOCK_FAILURE, p)
      else if queue_size p = 0 then None
      else
        (let nxt = (tp_tail p + 1) mod queue_size p;
             (err, p1) =
               (if tp_count p = queue_size p then (THREADPOOL_QUEUE_FULL, p)
                else if tp_shutdown p \<noteq> None then (THREADPOOL_SHUTDOWN, p)
                else
                  (let p' = p\<lparr>tp_queue := (tp_queue p)[tp_tail p := Some task], tp_tail := nxt,
                        tp_count := tp_count p + 1\<rparr>
                   in if signal_rc \<noteq> 0 then (THREADPOOL_LOCK_FAILURE, p') else (0, p')))
         in Some (if unlock_rc \<noteq> 0 then (THREADPOOL_LOCK_FAILURE, p1\<lparr>tp_locked := True\<rparr>) else (err, p1))))"

text \<open>\<^verbatim>\<open>threadpool_destroy\<close> up to the joins: the error so far. A pool that is shut down already
  keeps its mutex locked.\<close>

definition destroy_request :: "int \<Rightarrow> int \<Rightarrow> int \<Rightarrow> ShutDownOption \<Rightarrow> 'a ThreadPool \<Rightarrow> int \<times> 'a ThreadPool" where
  "destroy_request lock_rc bcast_rc unlock_rc opt p =
     (if lock_rc \<noteq> 0 then (THREADPOOL_LOCK_FAILURE, p)
      else if tp_shutdown p \<noteq> None then (THREADPOOL_SHUTDOWN, p\<lparr>tp_locked := True\<rparr>)
      else
        (let p1 = p\<lparr>tp_shutdown := Some opt\<rparr>
         in if bcast_rc \<noteq> 0 \<or> unlock_rc \<noteq> 0 then (THREADPOOL_LOCK_FAILURE, p1\<lparr>tp_locked := True\<rparr>)
            else (0, p1)))"

definition threadpool_free :: "'a ThreadPool \<Rightarrow> int" where
  "threadpool_free p = (if 0 < tp_started p then -1 else 0)"

text \<open>The rest of \<^verbatim>\<open>threadpool_destroy\<close> once the joins have returned: its result and that of
  \<^verbatim>\<open>threadpool_free\<close>, if it is called.\<close>

definition destroy_finish :: "int \<Rightarrow> int list \<Rightarrow> 'a ThreadPool \<Rightarrow> int \<times> int option" where
  "destroy_finish err0 join_rcs p =
     (let err = (if err0 \<noteq> 0 then err0
                 else if list_ex (\<lambda>rc. rc \<noteq> 0) join_rcs then THREADPOOL_THREAD_FAILURE else 0)
      in (err, if err = 0 then Some (threadpool_free p) else None))"

text \<open>One turn of \<^verbatim>\<open>threadpool_thread\<close> with the mutex: it waits, leaves its loop or takes a
  task.\<close>

datatype 'a worker_next = Waits | Exits | Takes "'a option"

definition worker_turn :: "'a ThreadPool \<Rightarrow> 'a worker_next \<times> 'a ThreadPool" where
  "worker_turn p =
     (if tp_count p = 0 \<and> tp_shutdown p = None then (Waits, p)
      else if tp_shutdown p = Some immediate_shutdown \<or> (tp_shutdown p = Some graceful_shutdown \<and> tp_count p = 0)
      then (Exits, p\<lparr>tp_started := tp_started p - 1\<rparr>)
      else (Takes (tp_queue p ! tp_head p),
            p\<lparr>tp_queue := (tp_queue p)[tp_head p := None], tp_head := (tp_head p + 1) mod queue_size p,
              tp_count := tp_count p - 1\<rparr>))"

section \<open>The ring is a bounded queue\<close>

definition tp_slot :: "'a ThreadPool \<Rightarrow> nat \<Rightarrow> nat" where
  "tp_slot p i = (tp_head p + i) mod queue_size p"

definition tp_contents :: "'a ThreadPool \<Rightarrow> 'a list" where
  "tp_contents p = map (\<lambda>i. the (tp_queue p ! tp_slot p i)) [0..<tp_count p]"

definition tp_ring :: "'a ThreadPool \<Rightarrow> bool" where
  "tp_ring p = (0 < queue_size p \<and> length (tp_queue p) = queue_size p \<and> tp_head p < queue_size p \<and>
     tp_count p \<le> queue_size p \<and> tp_tail p = tp_slot p (tp_count p) \<and>
     list_all (\<lambda>i. tp_queue p ! tp_slot p i \<noteq> None) [0..<tp_count p])"

lemma tp_ringD:
  assumes "tp_ring p"
  shows "0 < queue_size p" "length (tp_queue p) = queue_size p" "tp_head p < queue_size p"
    "tp_count p \<le> queue_size p" "tp_tail p = tp_slot p (tp_count p)" "i < tp_count p \<Longrightarrow> tp_queue p ! tp_slot p i \<noteq> None"
  using assms by (auto simp: tp_ring_def list_all_iff)

lemma tp_contents_length [simp]: "length (tp_contents p) = tp_count p"
  by (simp add: tp_contents_def)

lemma tp_slot_inj:
  "tp_slot p i = tp_slot p j \<Longrightarrow> i < queue_size p \<Longrightarrow> j < queue_size p \<Longrightarrow> i = j"
  unfolding tp_slot_def by (rule add_mod_inj)

definition tp_enqueued :: "'a \<Rightarrow> 'a ThreadPool \<Rightarrow> 'a ThreadPool" where
  "tp_enqueued x p = p\<lparr>tp_queue := (tp_queue p)[tp_tail p := Some x],
     tp_tail := (tp_tail p + 1) mod queue_size p, tp_count := tp_count p + 1\<rparr>"

lemma tp_enqueued_ring:
  assumes r: "tp_ring p" and room: "tp_count p < queue_size p"
  shows "tp_ring (tp_enqueued x p)" "tp_contents (tp_enqueued x p) = tp_contents p @ [x]"
proof -
  note d = tp_ringD [OF r]
  have slot: "tp_slot (tp_enqueued x p) i = tp_slot p i" for i by (simp add: tp_slot_def tp_enqueued_def)
  have lt: "tp_tail p < length (tp_queue p)" using d(1,2,5) by (simp add: tp_slot_def)
  have last: "tp_queue (tp_enqueued x p) ! tp_slot p (tp_count p) = Some x"
    using lt d(5) by (simp add: tp_enqueued_def)
  have other: "tp_queue (tp_enqueued x p) ! tp_slot p i = tp_queue p ! tp_slot p i" if "i < tp_count p" for i
  proof -
    have "tp_slot p i \<noteq> tp_tail p" using tp_slot_inj [of p i "tp_count p"] that room d(5) by auto
    then show ?thesis by (simp add: tp_enqueued_def)
  qed
  show "tp_contents (tp_enqueued x p) = tp_contents p @ [x]"
    using last other by (simp add: tp_contents_def slot) (simp add: tp_enqueued_def)
  have "list_all (\<lambda>i. tp_queue (tp_enqueued x p) ! tp_slot p i \<noteq> None) [0..<tp_count (tp_enqueued x p)]"
    using last other d(6) by (auto simp: list_all_iff tp_enqueued_def less_Suc_eq)
  then show "tp_ring (tp_enqueued x p)"
    using d room by (simp add: tp_ring_def slot) (simp add: tp_enqueued_def tp_slot_def mod_Suc_eq)
qed

definition tp_dequeued :: "'a ThreadPool \<Rightarrow> 'a ThreadPool" where
  "tp_dequeued p = p\<lparr>tp_queue := (tp_queue p)[tp_head p := None], tp_head := (tp_head p + 1) mod queue_size p,
     tp_count := tp_count p - 1\<rparr>"

lemma tp_dequeued_ring:
  assumes r: "tp_ring p" and c: "tp_contents p = x # xs"
  shows "tp_ring (tp_dequeued p)" "tp_contents (tp_dequeued p) = xs" "tp_queue p ! tp_head p = Some x"
proof -
  note d = tp_ringD [OF r]
  have pos: "0 < tp_count p" using c by (metis tp_contents_length length_greater_0_conv list.distinct(1))
  have slot0: "tp_slot p 0 = tp_head p" using d(3) by (simp add: tp_slot_def)
  have hd: "hd (tp_contents p) = the (tp_queue p ! tp_head p)"
    using pos slot0 by (simp add: tp_contents_def hd_map)
  then show "tp_queue p ! tp_head p = Some x" using c d(6) [OF pos] slot0 by auto
  have slot: "tp_slot (tp_dequeued p) i = tp_slot p (Suc i)" for i
    by (simp add: tp_slot_def tp_dequeued_def mod_simps)
  have other: "tp_queue (tp_dequeued p) ! tp_slot p (Suc i) = tp_queue p ! tp_slot p (Suc i)" if "Suc i < tp_count p" for i
  proof -
    have "tp_slot p (Suc i) \<noteq> tp_slot p 0" using tp_slot_inj [of p "Suc i" 0] that d(4) by auto
    then show ?thesis by (simp add: tp_dequeued_def slot0)
  qed
  have "tp_contents (tp_dequeued p) = map (\<lambda>i. the (tp_queue p ! tp_slot p (Suc i))) [0..<tp_count p - 1]"
    using other by (simp add: tp_contents_def slot) (simp add: tp_dequeued_def)
  also have "\<dots> = tl (tp_contents p)"
    using pos by (intro nth_equalityI) (simp_all add: tp_contents_def nth_tl less_diff_conv)
  finally show "tp_contents (tp_dequeued p) = xs" using c by simp
  have "list_all (\<lambda>i. tp_queue (tp_dequeued p) ! tp_slot p (Suc i) \<noteq> None) [0..<tp_count (tp_dequeued p)]"
    using other d(6) by (auto simp: list_all_iff tp_dequeued_def)
  moreover have "tp_tail (tp_dequeued p) = tp_slot p (Suc (tp_count (tp_dequeued p)))"
    using d(5) pos by (simp add: tp_dequeued_def)
  ultimately show "tp_ring (tp_dequeued p)"
    using d pos by (simp add: tp_ring_def slot) (simp add: tp_dequeued_def)
qed

text \<open>A pool in use: the operations of the client and the worker as queue operations.\<close>

definition tp_open :: "'a ThreadPool \<Rightarrow> bool" where
  "tp_open p = (tp_ring p \<and> tp_shutdown p = None)"

definition tp_enq :: "'a \<Rightarrow> 'a ThreadPool \<Rightarrow> bool \<times> 'a ThreadPool" where
  "tp_enq x p = (case threadpool_add 0 0 0 x p of None \<Rightarrow> (False, p) | Some (err, p') \<Rightarrow> (err = 0, p'))"

definition tp_deq :: "'a ThreadPool \<Rightarrow> 'a option \<times> 'a ThreadPool" where
  "tp_deq p = (case worker_turn p of (Takes t, p') \<Rightarrow> (t, p') | (Waits, p') \<Rightarrow> (None, p') | (Exits, p') \<Rightarrow> (None, p'))"

lemma threadpool_add_cases:
  assumes "tp_ring p"
  shows "threadpool_add 0 0 0 x p =
    Some (if tp_count p = queue_size p then (THREADPOOL_QUEUE_FULL, p)
          else if tp_shutdown p \<noteq> None then (THREADPOOL_SHUTDOWN, p)
          else (0, tp_enqueued x p))"
  using tp_ringD(1) [OF assms] by (simp add: threadpool_add_def Let_def tp_enqueued_def)

lemma worker_turn_takes:
  assumes "tp_ring p" "tp_contents p = x # xs" "tp_shutdown p \<noteq> Some immediate_shutdown"
  shows "worker_turn p = (Takes (Some x), tp_dequeued p)"
proof -
  have "tp_count p \<noteq> 0" using assms(2) by (metis tp_contents_length list.size(3) list.distinct(1) length_0_conv)
  with assms(3) tp_dequeued_ring(3) [OF assms(1,2)] show ?thesis
    by (simp add: worker_turn_def tp_dequeued_def)
qed

interpretation tpq: bounded_queue tp_enq tp_deq tp_contents queue_size tp_open
proof (unfold_locales, goal_cases)
  case (1 q x)
  then have "tp_count q = queue_size q" using tp_ringD(4) [of q] by (simp add: tp_open_def)
  with 1 show ?case by (simp add: tp_open_def tp_enq_def threadpool_add_cases tp_codes)
next
  case (2 q x)
  then have "tp_enq x q = (True, tp_enqueued x q)"
    by (simp add: tp_open_def tp_enq_def threadpool_add_cases)
  with 2 tp_enqueued_ring [of q x] show ?case by (simp add: tp_open_def) (simp add: tp_enqueued_def)
next
  case (3 q)
  then have "tp_count q = 0" by (metis tp_contents_length list.size(3))
  with 3 show ?case by (simp add: tp_deq_def worker_turn_def tp_open_def)
next
  case (4 q x xs)
  then have "tp_deq q = (Some x, tp_dequeued q)" by (simp add: tp_deq_def worker_turn_takes tp_open_def)
  with 4 tp_dequeued_ring [of q x xs] show ?case by (simp add: tp_open_def) (simp add: tp_dequeued_def)
next
  case (5 q)
  then show ?case using tp_ringD(4) [of q] by (simp add: tp_open_def)
qed

section \<open>Workers and clients\<close>

text \<open>A worker wants the mutex, waits for the condition, runs a task or has finished.\<close>

datatype 'a wstate = W_lock | W_wait | W_run 'a | W_done

record 'a tp_world =
  tw_pool :: "'a ThreadPool"
  tw_workers :: "'a wstate list"
  tw_added :: "'a list"
  tw_begun :: "'a list"
  tw_finished :: "'a list"

definition wake_all :: "'a wstate list \<Rightarrow> 'a wstate list" where
  "wake_all ws = map (\<lambda>s. if s = W_wait then W_lock else s) ws"

fun after_turn :: "'a worker_next \<Rightarrow> 'a wstate" where
  "after_turn Waits = W_wait"
| "after_turn Exits = W_done"
| "after_turn (Takes (Some t)) = W_run t"
| "after_turn (Takes None) = W_done"

fun taken :: "'a worker_next \<Rightarrow> 'a list" where
  "taken (Takes (Some t)) = [t]"
| "taken n = []"

text \<open>
  \<^verbatim>\<open>pthread_cond_signal\<close> wakes one waiting worker if there is one; a waiting worker may also
  wake by itself. A step that needs the mutex waits while it is locked.
\<close>

inductive tp_step :: "'a tp_world \<Rightarrow> 'a tp_world \<Rightarrow> bool" where
  add_signal: "\<not> tp_locked (tw_pool w) \<Longrightarrow> threadpool_add 0 0 0 x (tw_pool w) = Some (0, p') \<Longrightarrow>
    i < length (tw_workers w) \<Longrightarrow> tw_workers w ! i = W_wait \<Longrightarrow>
    tp_step w (w\<lparr>tw_pool := p', tw_workers := (tw_workers w)[i := W_lock], tw_added := tw_added w @ [x]\<rparr>)"
| add_busy: "\<not> tp_locked (tw_pool w) \<Longrightarrow> threadpool_add 0 0 0 x (tw_pool w) = Some (0, p') \<Longrightarrow>
    W_wait \<notin> set (tw_workers w) \<Longrightarrow>
    tp_step w (w\<lparr>tw_pool := p', tw_added := tw_added w @ [x]\<rparr>)"
| add_refused: "\<not> tp_locked (tw_pool w) \<Longrightarrow> threadpool_add 0 0 0 x (tw_pool w) = Some (err, p') \<Longrightarrow> err \<noteq> 0 \<Longrightarrow>
    tp_step w (w\<lparr>tw_pool := p'\<rparr>)"
| turn: "\<not> tp_locked (tw_pool w) \<Longrightarrow> i < length (tw_workers w) \<Longrightarrow> tw_workers w ! i = W_lock \<Longrightarrow>
    worker_turn (tw_pool w) = (n, p') \<Longrightarrow>
    tp_step w (w\<lparr>tw_pool := p', tw_workers := (tw_workers w)[i := after_turn n], tw_begun := tw_begun w @ taken n\<rparr>)"
| spurious: "i < length (tw_workers w) \<Longrightarrow> tw_workers w ! i = W_wait \<Longrightarrow>
    tp_step w (w\<lparr>tw_workers := (tw_workers w)[i := W_lock]\<rparr>)"
| finish: "i < length (tw_workers w) \<Longrightarrow> tw_workers w ! i = W_run t \<Longrightarrow>
    tp_step w (w\<lparr>tw_workers := (tw_workers w)[i := W_lock], tw_finished := tw_finished w @ [t]\<rparr>)"
| destroy: "\<not> tp_locked (tw_pool w) \<Longrightarrow> destroy_request 0 0 0 opt (tw_pool w) = (err, p') \<Longrightarrow>
    tp_step w (w\<lparr>tw_pool := p', tw_workers := (if err = 0 then wake_all (tw_workers w) else tw_workers w)\<rparr>)"

definition tp_start :: "'a ThreadPool \<Rightarrow> 'a tp_world" where
  "tp_start p = \<lparr>tw_pool = p, tw_workers = replicate (thread_count p) W_lock, tw_added = [], tw_begun = [],
     tw_finished = []\<rparr>"

fun running :: "'a wstate \<Rightarrow> 'a list" where
  "running (W_run t) = [t]"
| "running s = []"

text \<open>
  The invariant: the ring is sound; the accepted tasks are those begun, in the order in which
  they were accepted, followed by those in the ring; a begun task is running or finished, once; a
  task in the ring of an open pool never finds every worker waiting; once the pool is shut down
  nobody waits, and a worker has left a gracefully shut pool only when the ring is empty;
  \<^verbatim>\<open>started\<close> counts the workers that have not left.
\<close>

definition tp_inv :: "'a tp_world \<Rightarrow> bool" where
  "tp_inv w = (let p = tw_pool w in
     tp_ring p \<and> tw_added w = tw_begun w @ tp_contents p \<and>
     mset (tw_begun w) = mset (tw_finished w) + mset (concat (map running (tw_workers w))) \<and>
     (tp_shutdown p = None \<longrightarrow> W_done \<notin> set (tw_workers w) \<and>
        (tp_count p = 0 \<or> tw_workers w = [] \<or> (\<exists>s \<in> set (tw_workers w). s \<noteq> W_wait))) \<and>
     (tp_shutdown p \<noteq> None \<longrightarrow> W_wait \<notin> set (tw_workers w)) \<and>
     (tp_shutdown p = Some graceful_shutdown \<longrightarrow> W_done \<in> set (tw_workers w) \<longrightarrow> tp_count p = 0) \<and>
     tp_started p = int (length (filter (\<lambda>s. s \<noteq> W_done) (tw_workers w))))"

lemma mset_concat_update:
  assumes "i < length ws"
  shows "mset (concat (map f (ws[i := s]))) + mset (f (ws ! i)) = mset (concat (map f ws)) + mset (f s)"
proof -
  have ws: "ws = take i ws @ ws ! i # drop (Suc i) ws" using assms by (rule id_take_nth_drop)
  have "ws[i := s] = take i ws @ s # drop (Suc i) ws" using assms by (rule upd_conv_take_nth_drop)
  then have "mset (concat (map f (ws[i := s]))) =
      mset (concat (map f (take i ws))) + mset (f s) + mset (concat (map f (drop (Suc i) ws)))" by simp
  moreover have "mset (concat (map f ws)) =
      mset (concat (map f (take i ws))) + mset (f (ws ! i)) + mset (concat (map f (drop (Suc i) ws)))"
    by (subst ws) simp
  ultimately show ?thesis by simp
qed

lemma filter_update_length:
  assumes "i < length ws"
  shows "int (length (filter P (ws[i := s]))) =
    int (length (filter P ws)) - (if P (ws ! i) then 1 else 0) + (if P s then 1 else 0)"
proof -
  have ws: "ws = take i ws @ ws ! i # drop (Suc i) ws" using assms by (rule id_take_nth_drop)
  have "ws[i := s] = take i ws @ s # drop (Suc i) ws" using assms by (rule upd_conv_take_nth_drop)
  then have "length (filter P (ws[i := s])) =
      length (filter P (take i ws)) + (if P s then 1 else 0) + length (filter P (drop (Suc i) ws))" by simp
  moreover have "length (filter P ws) =
      length (filter P (take i ws)) + (if P (ws ! i) then 1 else 0) + length (filter P (drop (Suc i) ws))"
    by (subst ws) simp
  ultimately show ?thesis by simp
qed

lemma running_update_same:
  assumes "i < length ws" "running (ws ! i) = []" "running s = []"
  shows "mset (concat (map running (ws[i := s]))) = mset (concat (map running ws))"
  using mset_concat_update [OF assms(1), of running s] assms(2,3) by simp

lemma wake_all_simps [simp]:
  "set (wake_all ws) = (\<lambda>s. if s = W_wait then W_lock else s) ` set ws"
  "concat (map running (wake_all ws)) = concat (map running ws)"
  "length (filter (\<lambda>s. s \<noteq> W_done) (wake_all ws)) = length (filter (\<lambda>s. s \<noteq> W_done) ws)"
proof -
  show "set (wake_all ws) = (\<lambda>s. if s = W_wait then W_lock else s) ` set ws" by (simp add: wake_all_def)
  show "concat (map running (wake_all ws)) = concat (map running ws)"
    unfolding wake_all_def by (induction ws) auto
  show "length (filter (\<lambda>s. s \<noteq> W_done) (wake_all ws)) = length (filter (\<lambda>s. s \<noteq> W_done) ws)"
    unfolding wake_all_def by (induction ws) auto
qed

lemma worker_turn_cases [consumes 2, case_names waits exits takes]:
  assumes "tp_ring p" "worker_turn p = (n, p')"
  obtains "n = Waits" "p' = p" "tp_count p = 0" "tp_shutdown p = None"
  | "n = Exits" "p' = p\<lparr>tp_started := tp_started p - 1\<rparr>" "tp_shutdown p \<noteq> None"
      "tp_shutdown p = Some graceful_shutdown \<longrightarrow> tp_count p = 0"
  | x xs where "n = Takes (Some x)" "p' = tp_dequeued p" "tp_contents p = x # xs"
      "tp_shutdown p \<noteq> Some immediate_shutdown"
proof (cases "tp_contents p")
  case Nil
  then have "tp_count p = 0" by (metis tp_contents_length list.size(3))
  with assms(2) that(1,2) show ?thesis
    by (cases "tp_shutdown p"; cases "the (tp_shutdown p)") (auto simp: worker_turn_def)
next
  case (Cons x xs)
  show ?thesis
  proof (cases "tp_shutdown p = Some immediate_shutdown")
    case True
    with assms(2) that(2) show ?thesis by (auto simp: worker_turn_def)
  next
    case False
    with worker_turn_takes [OF assms(1) Cons] assms(2) that(3) Cons show ?thesis by auto
  qed
qed

lemma tp_enqueued_frame [simp]:
  "tp_shutdown (tp_enqueued x p) = tp_shutdown p" "tp_started (tp_enqueued x p) = tp_started p"
  "tp_locked (tp_enqueued x p) = tp_locked p"
  by (simp_all add: tp_enqueued_def)

lemma tp_dequeued_frame [simp]:
  "tp_shutdown (tp_dequeued p) = tp_shutdown p" "tp_started (tp_dequeued p) = tp_started p"
  "tp_count (tp_dequeued p) = tp_count p - 1" "tp_locked (tp_dequeued p) = tp_locked p"
  by (simp_all add: tp_dequeued_def)

lemma tp_ring_frame [simp]:
  "tp_ring (p\<lparr>tp_started := n\<rparr>) = tp_ring p" "tp_contents (p\<lparr>tp_started := n\<rparr>) = tp_contents p"
  "tp_ring (p\<lparr>tp_shutdown := o1\<rparr>) = tp_ring p" "tp_contents (p\<lparr>tp_shutdown := o1\<rparr>) = tp_contents p"
  "tp_ring (p\<lparr>tp_locked := b\<rparr>) = tp_ring p" "tp_contents (p\<lparr>tp_locked := b\<rparr>) = tp_contents p"
  by (simp_all add: tp_ring_def tp_contents_def tp_slot_def)

lemma threadpool_add_ok:
  assumes "tp_ring p" "threadpool_add 0 0 0 x p = Some (0, p')"
  shows "tp_count p < queue_size p" "tp_shutdown p = None" "p' = tp_enqueued x p"
    "tp_ring p'" "tp_contents p' = tp_contents p @ [x]"
proof -
  note c = assms(2) [unfolded threadpool_add_cases [OF assms(1)]]
  show "tp_shutdown p = None" "p' = tp_enqueued x p" and lt: "tp_count p < queue_size p"
    using c tp_ringD(4) [OF assms(1)] by (auto simp: tp_codes split: if_splits)
  with tp_enqueued_ring [OF assms(1) lt] show "tp_ring p'" "tp_contents p' = tp_contents p @ [x]" by simp_all
qed

lemma tp_inv_turn:
  assumes inv: "tp_inv w" and i: "i < length (tw_workers w)" "tw_workers w ! i = W_lock"
    and t: "worker_turn (tw_pool w) = (n, p')"
  shows "tp_inv (w\<lparr>tw_pool := p', tw_workers := (tw_workers w)[i := after_turn n], tw_begun := tw_begun w @ taken n\<rparr>)"
proof -
  have r: "tp_ring (tw_pool w)" using inv by (simp add: tp_inv_def Let_def)
  have mem: "set ((tw_workers w)[i := s]) \<subseteq> insert s (set (tw_workers w))" for s by (rule set_update_subset_insert)
  have in_i: "W_lock \<in> set (tw_workers w)" "s \<in> set ((tw_workers w)[i := s])" for s
    using i by (metis nth_mem, simp add: set_update_memI)
  note upd = mset_concat_update [OF i(1), of running] filter_update_length [OF i(1), of "\<lambda>s. s \<noteq> W_done"]
  from r t show ?thesis
  proof (cases rule: worker_turn_cases)
    case waits
    then show ?thesis using inv mem [of W_wait] upd [of W_wait] i(2) by (auto simp: tp_inv_def Let_def)
  next
    case exits
    then show ?thesis using inv mem [of W_done] upd [of W_done] i(2) by (auto simp: tp_inv_def Let_def)
  next
    case (takes x xs)
    note dq = tp_dequeued_ring [OF r takes(3)]
    have pos: "tp_count (tw_pool w) \<noteq> 0"
      using takes(3) by (metis tp_contents_length list.size(3) list.distinct(1) length_0_conv)
    have "W_done \<notin> set (tw_workers w)"
      using inv pos takes(4) by (cases "tp_shutdown (tw_pool w)"; cases "the (tp_shutdown (tw_pool w))")
        (auto simp: tp_inv_def Let_def)
    moreover have "\<exists>s \<in> set ((tw_workers w)[i := W_run x]). s \<noteq> W_wait" using in_i(2) by blast
    ultimately show ?thesis
      using inv mem [of "W_run x"] upd [of "W_run x"] i(2) takes dq(1,2)
      by (auto simp: tp_inv_def Let_def)
  qed
qed

lemma tp_inv_step: "tp_step w w' \<Longrightarrow> tp_inv w \<Longrightarrow> tp_inv w'"
proof (induction rule: tp_step.induct)
  case (add_signal w x p' i)
  have r: "tp_ring (tw_pool w)" using add_signal by (simp add: tp_inv_def Let_def)
  note ok = threadpool_add_ok [OF r add_signal(2)]
  have "W_lock \<in> set ((tw_workers w)[i := W_lock])" using add_signal(3) by (simp add: set_update_memI)
  then have ex: "\<exists>s \<in> set ((tw_workers w)[i := W_lock]). s \<noteq> W_wait" by blast
  show ?case
    using add_signal.prems ok ex running_update_same [OF add_signal(3), of W_lock]
      filter_update_length [OF add_signal(3), of "\<lambda>s. s \<noteq> W_done" W_lock]
      set_update_subset_insert [of "tw_workers w" i W_lock] add_signal(4)
    by (auto simp: tp_inv_def Let_def)
next
  case (add_busy w x p')
  have r: "tp_ring (tw_pool w)" using add_busy by (simp add: tp_inv_def Let_def)
  note ok = threadpool_add_ok [OF r add_busy(2)]
  have "tw_workers w = [] \<or> (\<exists>s \<in> set (tw_workers w). s \<noteq> W_wait)"
    using add_busy(3) by (cases "tw_workers w") auto
  then show ?case using add_busy.prems ok by (auto simp: tp_inv_def Let_def)
next
  case (add_refused w x err p')
  have "tp_ring (tw_pool w)" using add_refused by (simp add: tp_inv_def Let_def)
  then have "p' = tw_pool w" using add_refused(2,3) by (auto simp: threadpool_add_cases split: if_splits)
  with add_refused show ?case by simp
next
  case (turn w i n p')
  then show ?case using tp_inv_turn by blast
next
  case (spurious i w)
  then show ?case
    using running_update_same [OF spurious(1), of W_lock]
      filter_update_length [OF spurious(1), of "\<lambda>s. s \<noteq> W_done" W_lock]
      set_update_subset_insert [of "tw_workers w" i W_lock] set_update_memI [of i "tw_workers w" W_lock]
    by (auto simp: tp_inv_def Let_def)
next
  case (finish i w t)
  then show ?case
    using mset_concat_update [OF finish(1), of running W_lock]
      filter_update_length [OF finish(1), of "\<lambda>s. s \<noteq> W_done" W_lock]
      set_update_subset_insert [of "tw_workers w" i W_lock] set_update_memI [of i "tw_workers w" W_lock]
    by (auto simp: tp_inv_def Let_def)
next
  case (destroy w opt err p')
  then show ?case
    by (auto simp: tp_inv_def Let_def destroy_request_def tp_codes split: if_splits)
qed

section \<open>Reachable states\<close>

lemma create_threads_ok:
  "create_threads rcs n p = (0, p') \<Longrightarrow>
    p' = p\<lparr>thread_count := thread_count p + n, tp_started := tp_started p + int n\<rparr>"
  by (induction rcs n p rule: create_threads.induct) (auto split: if_splits)

lemma threadpool_create_ok:
  assumes "threadpool_create rcs tc qs p0 = (0, p)"
  shows "tp_ring p" "tp_contents p = []" "tp_shutdown p = None" "tp_started p = int (thread_count p)"
    "0 < thread_count p" "thread_count p \<le> nat MAX_THREADS"
proof -
  note c = create_threads_ok [OF assms [unfolded threadpool_create_def Let_def]]
  show "tp_ring p" "tp_contents p = []" "tp_shutdown p = None" "tp_started p = int (thread_count p)"
    "0 < thread_count p" "thread_count p \<le> nat MAX_THREADS"
    using c by (auto simp: tp_ring_def tp_contents_def tp_slot_def vec_resize_def MAX_THREADS_def MAX_QUEUE_def)
qed

lemma tp_inv_start:
  assumes "threadpool_create rcs tc qs p0 = (0, p)"
  shows "tp_inv (tp_start p)"
proof -
  have "tp_count p = 0" using threadpool_create_ok(2) [OF assms] by (metis tp_contents_length list.size(3))
  moreover have "concat (map running (replicate n W_lock)) = []" for n by (induction n) auto
  ultimately show ?thesis
    using threadpool_create_ok [OF assms] by (simp add: tp_inv_def Let_def tp_start_def filter_replicate)
qed

lemma tp_step_length: "tp_step w w' \<Longrightarrow> length (tw_workers w') = length (tw_workers w)"
  by (induction rule: tp_step.induct) (auto simp: wake_all_def)

lemma tp_reach:
  assumes "threadpool_create rcs tc qs p0 = (0, p)" "tp_step\<^sup>*\<^sup>* (tp_start p) w"
  shows "tp_inv w" "length (tw_workers w) = thread_count p"
proof -
  have "tp_inv w \<and> length (tw_workers w) = thread_count p"
    using assms(2)
  proof (induction rule: rtranclp_induct)
    case base
    show ?case using tp_inv_start [OF assms(1)] by (simp add: tp_start_def)
  next
    case (step w w')
    then show ?case using tp_inv_step tp_step_length by metis
  qed
  then show "tp_inv w" "length (tw_workers w) = thread_count p" by simp_all
qed

text \<open>C20. In every state that clients and workers of a created pool can reach, the accepted
  tasks are those that were begun, in the order of acceptance, followed by those in the ring;
  every begun task is either running in one worker or has finished once. No task is lost, run
  twice or overtaken.\<close>

theorem threadpool_runs_in_order:
  assumes "threadpool_create rcs tc qs p0 = (0, p)" "tp_step\<^sup>*\<^sup>* (tp_start p) w"
  shows "tw_added w = tw_begun w @ tp_contents (tw_pool w) \<and>
    mset (tw_begun w) = mset (tw_finished w) + mset (concat (map running (tw_workers w)))"
  using tp_reach(1) [OF assms] by (simp add: tp_inv_def Let_def)

text \<open>C35. While the pool is open, a task in the ring never meets only waiting workers: the signal
  of \<^verbatim>\<open>threadpool_add\<close> is not lost.\<close>

theorem threadpool_no_lost_signal:
  assumes "threadpool_create rcs tc qs p0 = (0, p)" "tp_step\<^sup>*\<^sup>* (tp_start p) w"
    "tp_shutdown (tw_pool w) = None" "tp_contents (tw_pool w) \<noteq> []"
  shows "\<exists>i < length (tw_workers w). tw_workers w ! i = W_lock \<or> (\<exists>t. tw_workers w ! i = W_run t)"
proof -
  have "tp_count (tw_pool w) \<noteq> 0" using assms(4) by (metis tp_contents_length length_0_conv)
  moreover have "tw_workers w \<noteq> []"
    using tp_reach(2) [OF assms(1,2)] threadpool_create_ok(5) [OF assms(1)] by auto
  ultimately obtain s where "s \<in> set (tw_workers w)" "s \<noteq> W_wait" "s \<noteq> W_done"
    using tp_reach(1) [OF assms(1,2)] assms(3) by (auto simp: tp_inv_def Let_def)
  then show ?thesis by (metis in_set_conv_nth wstate.exhaust)
qed

text \<open>C34. A graceful shutdown is complete: when all workers have left, every accepted task has
  finished and \<^verbatim>\<open>threadpool_free\<close> succeeds.\<close>

theorem threadpool_graceful:
  assumes "threadpool_create rcs tc qs p0 = (0, p)" "tp_step\<^sup>*\<^sup>* (tp_start p) w"
    "tp_shutdown (tw_pool w) = Some graceful_shutdown" "set (tw_workers w) = {W_done}"
  shows "mset (tw_finished w) = mset (tw_added w) \<and> destroy_finish 0 (map (\<lambda>s. 0) (tw_workers w)) (tw_pool w) = (0, Some 0)"
proof -
  note inv = tp_reach(1) [OF assms(1,2), unfolded tp_inv_def Let_def]
  have "tp_count (tw_pool w) = 0" using inv assms(3,4) by simp
  then have "tp_contents (tw_pool w) = []" by (metis tp_contents_length length_0_conv)
  moreover have "concat (map running (tw_workers w)) = []" using assms(4) by simp
  moreover have "filter (\<lambda>s. s \<noteq> W_done) (tw_workers w) = []" using assms(4) by (simp add: filter_empty_conv)
  ultimately show ?thesis
    using inv by (simp add: destroy_finish_def threadpool_free_def list_ex_iff)
qed

lemma tp_locked_stuck: "tp_step w w' \<Longrightarrow> tp_locked (tw_pool w) \<Longrightarrow> tw_pool w' = tw_pool w \<and> tw_begun w' = tw_begun w"
  by (induction rule: tp_step.induct) auto

text \<open>A second call of \<^verbatim>\<open>threadpool_destroy\<close> returns \<^verbatim>\<open>THREADPOOL_SHUTDOWN\<close> with the
  mutex still locked: from then on no worker takes a task or leaves, whatever happens.\<close>

theorem destroy_twice_blocks:
  assumes "tp_shutdown (tw_pool w) \<noteq> None" "destroy_request 0 0 0 opt (tw_pool w) = (err, p')"
    "tp_step\<^sup>*\<^sup>* (w\<lparr>tw_pool := p'\<rparr>) w'"
  shows "err = THREADPOOL_SHUTDOWN \<and> tp_locked p' \<and> tw_pool w' = p' \<and> tw_begun w' = tw_begun w"
proof -
  have p': "err = THREADPOOL_SHUTDOWN" "tp_locked p'" using assms(1,2) by (auto simp: destroy_request_def)
  from assms(3) have "tw_pool w' = p' \<and> tw_begun w' = tw_begun w"
  proof (induction rule: rtranclp_induct)
    case (step w1 w2)
    then show ?case using tp_locked_stuck p'(2) by metis
  qed simp
  with p' show ?thesis by blast
qed

section \<open>Witnesses\<close>

text \<open>A pool of one thread and two slots that is given a task, runs it and is shut down.\<close>

definition ex_static :: "nat ThreadPool" where
  "ex_static = \<lparr>tp_queue = [], tp_threads = 0, thread_count = 0, queue_size = 0, tp_head = 0, tp_tail = 0,
     tp_count = 0, tp_shutdown = None, tp_started = 0, tp_locked = False\<rparr>"

definition ex_pool :: "nat ThreadPool" where
  "ex_pool = \<lparr>tp_queue = [None, None], tp_threads = 1, thread_count = 1, queue_size = 2, tp_head = 0, tp_tail = 0,
     tp_count = 0, tp_shutdown = None, tp_started = 1, tp_locked = False\<rparr>"

lemma ex_created: "threadpool_create [True] 1 2 ex_static = (0, ex_pool)"
  by (simp add: threadpool_create_def MAX_THREADS_def MAX_QUEUE_def ex_static_def ex_pool_def vec_resize_def
      numeral_2_eq_2)

definition ex_added :: "nat tp_world" where
  "ex_added = (tp_start ex_pool)\<lparr>tw_pool := tp_enqueued 7 ex_pool, tw_added := [7]\<rparr>"

lemma ex_add: "tp_step (tp_start ex_pool) ex_added"
proof -
  have "threadpool_add 0 0 0 7 (tw_pool (tp_start ex_pool)) = Some (0, tp_enqueued 7 ex_pool)"
    using threadpool_add_cases [of ex_pool 7] threadpool_create_ok(1) [OF ex_created]
    by (simp add: tp_start_def ex_pool_def)
  from tp_step.add_busy [OF _ this] show ?thesis by (simp add: ex_added_def tp_start_def ex_pool_def)
qed

theorem threadpool_runs_in_order_witness:
  "tw_added ex_added = tw_begun ex_added @ tp_contents (tw_pool ex_added) \<and>
    mset (tw_begun ex_added) = mset (tw_finished ex_added) + mset (concat (map running (tw_workers ex_added)))"
  using threadpool_runs_in_order [OF ex_created r_into_rtranclp, OF ex_add] .

theorem threadpool_no_lost_signal_witness:
  "\<exists>i < length (tw_workers ex_added). tw_workers ex_added ! i = W_lock \<or> (\<exists>t. tw_workers ex_added ! i = W_run t)"
proof -
  have "tp_shutdown (tw_pool ex_added) = None" "tp_contents (tw_pool ex_added) \<noteq> []"
    by (simp_all add: ex_added_def tp_contents_def tp_enqueued_def ex_pool_def)
  with threadpool_no_lost_signal [OF ex_created r_into_rtranclp, OF ex_add] show ?thesis by blast
qed

definition ex_left :: "nat tp_world" where
  "ex_left = \<lparr>tw_pool = ex_pool\<lparr>tp_head := 1, tp_tail := 1, tp_started := 0, tp_shutdown := Some graceful_shutdown\<rparr>,
     tw_workers = [W_done], tw_added = [7], tw_begun = [7], tw_finished = [7]\<rparr>"

lemma ex_leaves: "tp_step\<^sup>*\<^sup>* (tp_start ex_pool) ex_left"
proof -
  define p2 where "p2 = ex_pool\<lparr>tp_head := 1, tp_tail := 1\<rparr>"
  define w2 where "w2 = \<lparr>tw_pool = p2, tw_workers = [W_run 7], tw_added = [7], tw_begun = [7], tw_finished = [] :: nat list\<rparr>"
  define w3 where "w3 = w2\<lparr>tw_workers := [W_lock], tw_finished := [7]\<rparr>"
  define w4 where "w4 = w3\<lparr>tw_pool := p2\<lparr>tp_shutdown := Some graceful_shutdown\<rparr>\<rparr>"
  have 2: "tp_step ex_added w2"
    using tp_step.turn [of ex_added 0 "Takes (Some 7)" p2]
    by (simp add: ex_added_def tp_start_def ex_pool_def p2_def w2_def worker_turn_def tp_enqueued_def)
  have 3: "tp_step w2 w3" using tp_step.finish [of 0 w2 7] by (simp add: w2_def w3_def)
  have 4: "tp_step w3 w4"
    using tp_step.destroy [of w3 graceful_shutdown 0 "p2\<lparr>tp_shutdown := Some graceful_shutdown\<rparr>"]
    by (simp add: w3_def w2_def w4_def p2_def ex_pool_def destroy_request_def wake_all_def)
  have 5: "tp_step w4 ex_left"
    using tp_step.turn [of w4 0 Exits "p2\<lparr>tp_shutdown := Some graceful_shutdown, tp_started := 0\<rparr>"]
    by (simp add: w4_def w3_def w2_def p2_def ex_pool_def worker_turn_def ex_left_def)
  show ?thesis using ex_add 2 3 4 5 by (meson converse_rtranclp_into_rtranclp rtranclp.rtrancl_refl)
qed

theorem threadpool_graceful_witness:
  "mset (tw_finished ex_left) = mset (tw_added ex_left) \<and>
    destroy_finish 0 (map (\<lambda>s. 0) (tw_workers ex_left)) (tw_pool ex_left) = (0, Some 0)"
  by (rule threadpool_graceful [OF ex_created ex_leaves]) (simp_all add: ex_left_def)

theorem destroy_twice_blocks_witness:
  "THREADPOOL_SHUTDOWN = THREADPOOL_SHUTDOWN \<and> tp_locked ((tw_pool ex_left)\<lparr>tp_locked := True\<rparr>) \<and>
    tw_pool (ex_left\<lparr>tw_pool := (tw_pool ex_left)\<lparr>tp_locked := True\<rparr>\<rparr>) = (tw_pool ex_left)\<lparr>tp_locked := True\<rparr> \<and>
    tw_begun (ex_left\<lparr>tw_pool := (tw_pool ex_left)\<lparr>tp_locked := True\<rparr>\<rparr>) = tw_begun ex_left"
proof (rule destroy_twice_blocks)
  show "tp_shutdown (tw_pool ex_left) \<noteq> None" by (simp add: ex_left_def)
  then show "destroy_request 0 0 0 graceful_shutdown (tw_pool ex_left) =
      (THREADPOOL_SHUTDOWN, (tw_pool ex_left)\<lparr>tp_locked := True\<rparr>)" by (simp add: destroy_request_def)
qed simp

end
