(* ===== verification/LogStream.thy ===== *)
theory LogStream
  imports Prelude "HOL-Library.Signed_Division" "HOL-Library.Sublist"
begin

text \<open>
  \<^verbatim>\<open>WebServer/base/LogStream.{h,cpp}\<close> and \<^verbatim>\<open>Logging.{h,cpp}\<close>: the fixed buffer, the
  integer formatting taken from muduo, the insertion operators and the record that a
  \<^verbatim>\<open>LOG\<close> statement hands to the log thread. A buffer is its capacity and the bytes before
  \<^verbatim>\<open>cur_\<close>; the bytes after it are never read. The lemmas show that the formatting agrees with
  \<^verbatim>\<open>std::to_string\<close> on every integer, that no insertion writes beyond the array, and that
  each item is inserted whole or not at all.
\<close>

section \<open>The buffer\<close>

definition kSmallBuffer :: nat where "kSmallBuffer = 4000"
definition kLargeBuffer :: nat where "kLargeBuffer = 4000 * 1000"
definition kMaxNumericSize :: int where "kMaxNumericSize = 32"

record FixedBuffer =
  fb_size :: nat
  fb_data :: string

definition FixedBuffer_make :: "nat \<Rightarrow> FixedBuffer" where
  "FixedBuffer_make n = \<lparr>fb_size = n, fb_data = []\<rparr>"

definition fb_length :: "FixedBuffer \<Rightarrow> int" where
  "fb_length b = int (length (fb_data b))"

definition fb_avail :: "FixedBuffer \<Rightarrow> int" where
  "fb_avail b = int (fb_size b) - int (length (fb_data b))"

definition fb_append :: "string \<Rightarrow> FixedBuffer \<Rightarrow> FixedBuffer" where
  "fb_append buf b = (if cast_int (length buf) < fb_avail b then b\<lparr>fb_data := fb_data b @ buf\<rparr> else b)"

definition fb_reset :: "FixedBuffer \<Rightarrow> FixedBuffer" where
  "fb_reset b = b\<lparr>fb_data := []\<rparr>"

section \<open>Integers\<close>

definition digits :: string where "digits = ''9876543210123456789''"

text \<open>\<^verbatim>\<open>zero[lsd]\<close>, where \<^verbatim>\<open>zero\<close> points at the tenth character.\<close>

definition zero_at :: "int \<Rightarrow> char" where
  "zero_at lsd = digits ! nat (9 + lsd)"

text \<open>The loop of \<^verbatim>\<open>convert\<close>; the division of C++ truncates.\<close>

function convert_loop :: "int \<Rightarrow> string" where
  "convert_loop i =
     (let lsd = i smod 10; i' = i sdiv 10
      in zero_at lsd # (if i' \<noteq> 0 then convert_loop i' else []))"
  by pat_completeness auto
termination
proof (relation "measure (\<lambda>i. nat \<bar>i\<bar>)", goal_cases)
  case 1
  show ?case by simp
next
  case (2 i lsd i')
  then show ?case by (auto simp: signed_divide_int_def abs_mult sgn_if split: if_splits)
qed

declare convert_loop.simps [simp del]

definition convert :: "int \<Rightarrow> string" where
  "convert value = rev (convert_loop value @ (if value < 0 then ''-'' else []))"

definition formatInteger :: "int \<Rightarrow> FixedBuffer \<Rightarrow> FixedBuffer" where
  "formatInteger v b = (if kMaxNumericSize \<le> fb_avail b then b\<lparr>fb_data := fb_data b @ convert v\<rparr> else b)"

section \<open>The stream\<close>

text \<open>What can be inserted: booleans, integers of any width, characters, C strings (\<open>None\<close> for a
  null pointer), strings, and floating-point numbers by their \<^verbatim>\<open>snprintf\<close> text.\<close>

datatype log_item =
    L_bool bool
  | L_int int
  | L_char char
  | L_cstr "string option"
  | L_string string
  | L_double string

fun stream_insert :: "log_item \<Rightarrow> FixedBuffer \<Rightarrow> FixedBuffer" where
  "stream_insert (L_bool v) b = fb_append (if v then ''1'' else ''0'') b"
| "stream_insert (L_int v) b = formatInteger v b"
| "stream_insert (L_char v) b = fb_append [v] b"
| "stream_insert (L_cstr (Some s)) b = fb_append s b"
| "stream_insert (L_cstr None) b = fb_append ''(null)'' b"
| "stream_insert (L_string v) b = fb_append v b"
| "stream_insert (L_double txt) b =
     (if kMaxNumericSize \<le> fb_avail b then b\<lparr>fb_data := fb_data b @ txt\<rparr> else b)"

text \<open>\<^verbatim>\<open>Logger::Impl::formatTime\<close> with the text of \<^verbatim>\<open>strftime\<close>, the items of the statement,
  and the destructor, which hands the record on.\<close>

definition Impl_make :: "string \<Rightarrow> FixedBuffer" where
  "Impl_make str_t = stream_insert (L_cstr (Some str_t)) (FixedBuffer_make kSmallBuffer)"

definition Logger_dtor :: "string \<Rightarrow> int \<Rightarrow> FixedBuffer \<Rightarrow> string" where
  "Logger_dtor basename line b =
     fb_data (fold stream_insert [L_cstr (Some '' -- ''), L_string basename, L_char (CHR '':''), L_int line, L_char LF] b)"

definition LOG :: "string \<Rightarrow> string \<Rightarrow> int \<Rightarrow> log_item list \<Rightarrow> string" where
  "LOG str_t fileName line items = Logger_dtor fileName line (fold stream_insert items (Impl_make str_t))"

section \<open>Formatting agrees with to_string\<close>

lemma zero_at_digit: "d < 10 \<Longrightarrow> zero_at (int d) = digit_char d" "d < 10 \<Longrightarrow> zero_at (- int d) = digit_char d"
proof -
  have nine: "\<forall>d \<in> set [0..<10]. zero_at (int d) = digit_char d \<and> zero_at (- int d) = digit_char d" by code_simp
  then show "d < 10 \<Longrightarrow> zero_at (int d) = digit_char d" "d < 10 \<Longrightarrow> zero_at (- int d) = digit_char d" by auto
qed

lemma convert_loop_nat: "convert_loop (int n) = rev (to_string n)"
proof (induction n rule: to_string.induct)
  case (1 n)
  have q: "int n sdiv 10 = int (n div 10)" "int n smod 10 = int (n mod 10)"
    by (auto simp: signed_divide_int_def signed_modulo_int_def sgn_if zdiv_int zmod_int minus_mult_div_eq_mod)
  show ?case
  proof (cases "n < 10")
    case True
    then show ?thesis by (simp add: convert_loop.simps [of "int n"] to_string.simps [of n] q zero_at_digit Let_def)
  next
    case False
    then have "convert_loop (int (n div 10)) = rev (to_string (n div 10))" by (rule 1)
    with False show ?thesis
      by (simp add: convert_loop.simps [of "int n"] to_string.simps [of n] q zero_at_digit Let_def)
  qed
qed

lemma convert_loop_neg: "convert_loop (- int n) = convert_loop (int n)"
proof (induction n rule: less_induct)
  case (less n)
  have q: "(- int n) sdiv 10 = - int (n div 10)" "(- int n) smod 10 = - int (n mod 10)"
    "int n sdiv 10 = int (n div 10)" "int n smod 10 = int (n mod 10)"
    by (auto simp: signed_divide_int_def signed_modulo_int_def sgn_if zdiv_int zmod_int minus_mult_div_eq_mod)
  show ?case
  proof (cases "n div 10 = 0")
    case True
    then show ?thesis
      by (simp add: convert_loop.simps [of "- int n"] convert_loop.simps [of "int n"] q zero_at_digit Let_def)
  next
    case False
    then have "convert_loop (- int (n div 10)) = convert_loop (int (n div 10))" by (intro less) auto
    with False show ?thesis
      by (simp add: convert_loop.simps [of "- int n"] convert_loop.simps [of "int n"] q zero_at_digit Let_def)
  qed
qed

lemma convert_eq: "convert v = int_to_string v"
proof (cases "v < 0")
  case True
  then obtain n where "v = - int n" "0 < n" by (metis neg_int_cases)
  then show ?thesis by (simp add: convert_def int_to_string_def convert_loop_neg convert_loop_nat)
next
  case False
  then obtain n where "v = int n" by (metis nonneg_int_cases not_less)
  then show ?thesis by (simp add: convert_def int_to_string_def convert_loop_nat)
qed

text \<open>C36. The formatting of an integer agrees with \<^verbatim>\<open>std::to_string\<close>, for every value of every
  width, the smallest negative one included.\<close>

theorem convert_to_string: "convert v = int_to_string v"
  by (rule convert_eq)

section \<open>No insertion leaves the array\<close>

lemma to_string_length: "n < 10 ^ Suc k \<Longrightarrow> length (to_string n) \<le> Suc k"
proof (induction k arbitrary: n)
  case 0
  then show ?case by (simp add: to_string.simps [of n])
next
  case (Suc k)
  then have "n div 10 < 10 ^ Suc k" by (simp add: div_less_iff_less_mult)
  then have "length (to_string (n div 10)) \<le> Suc k" by (rule Suc.IH)
  then show ?case by (simp add: to_string.simps [of n])
qed

lemma convert_length:
  assumes "- (2 ^ 63) \<le> v" "v < 2 ^ 64"
  shows "length (convert v) \<le> 21"
proof -
  have "nat \<bar>v\<bar> < 10 ^ Suc 19" using assms by (simp add: nat_less_iff abs_if)
  from to_string_length [OF this] show ?thesis by (auto simp: convert_eq int_to_string_def abs_if split: if_splits)
qed

fun item_text :: "log_item \<Rightarrow> string" where
  "item_text (L_bool v) = (if v then ''1'' else ''0'')"
| "item_text (L_int v) = int_to_string v"
| "item_text (L_char v) = [v]"
| "item_text (L_cstr s) = (case s of None \<Rightarrow> ''(null)'' | Some t \<Rightarrow> t)"
| "item_text (L_string v) = v"
| "item_text (L_double txt) = txt"

text \<open>Integers are at most 64 bits wide, strings shorter than 2 GB and a \<^verbatim>\<open>%.12g\<close> text shorter
  than 32 characters.\<close>

fun item_ok :: "log_item \<Rightarrow> bool" where
  "item_ok (L_int v) = (- (2 ^ 63) \<le> v \<and> v < 2 ^ 64)"
| "item_ok (L_double txt) = (length txt < 32)"
| "item_ok i = (length (item_text i) < 2 ^ 31)"

definition fb_ok :: "FixedBuffer \<Rightarrow> bool" where
  "fb_ok b = (length (fb_data b) \<le> fb_size b)"

lemma fb_append_cases:
  assumes "length s < 2 ^ 31"
  shows "fb_append s b = (if length (fb_data b) + length s < fb_size b then b\<lparr>fb_data := fb_data b @ s\<rparr> else b)"
  using cast_int_small [OF assms] by (auto simp: fb_append_def fb_avail_def)

lemma stream_insert_cases:
  assumes "item_ok i"
  shows "stream_insert i b = b\<lparr>fb_data := fb_data b @ item_text i\<rparr> \<and> fb_ok (stream_insert i b) \<or> stream_insert i b = b"
    "length (fb_data b) + length (item_text i) + 32 \<le> fb_size b \<Longrightarrow>
      stream_insert i b = b\<lparr>fb_data := fb_data b @ item_text i\<rparr>"
  using assms convert_length
  by (cases i; force simp: fb_append_cases formatInteger_def fb_avail_def kMaxNumericSize_def fb_ok_def convert_eq
      split: option.splits)+

lemma stream_insert_size [simp]: "fb_size (stream_insert i b) = fb_size b"
  by (cases "(i, b)" rule: stream_insert.cases) (auto simp: fb_append_def formatInteger_def)

lemma stream_insert_all:
  assumes "list_all item_ok items" "length (fb_data b) + length (concat (map item_text items)) + 32 \<le> fb_size b"
  shows "fold stream_insert items b = b\<lparr>fb_data := fb_data b @ concat (map item_text items)\<rparr>"
  using assms
proof (induction items arbitrary: b)
  case (Cons i items)
  have "stream_insert i b = b\<lparr>fb_data := fb_data b @ item_text i\<rparr>"
    by (rule stream_insert_cases(2)) (use Cons.prems in \<open>simp_all\<close>)
  with Cons.IH [of "b\<lparr>fb_data := fb_data b @ item_text i\<rparr>"] Cons.prems show ?case by simp
qed simp


text \<open>The record of a \<^verbatim>\<open>LOG\<close> statement that fits the small buffer: the time, the texts of
  the items, and the trailer with file and line.\<close>

theorem LOG_record:
  assumes "list_all item_ok items" "length fileName < 2 ^ 31" "0 \<le> line" "line < 2 ^ 31"
    "length str_t + length (concat (map item_text items)) + length fileName + 60 \<le> kSmallBuffer"
  shows "LOG str_t fileName line items =
    str_t @ concat (map item_text items) @ '' -- '' @ fileName @ '':'' @ int_to_string line @ [LF]"
proof -
  let ?trailer = "[L_cstr (Some '' -- ''), L_string fileName, L_char (CHR '':''), L_int line, L_char LF]"
  let ?all = "L_cstr (Some str_t) # items @ ?trailer"
  have "length (int_to_string line) \<le> 21" using convert_length [of line] assms(3,4) by (simp add: convert_eq)
  moreover have "list_all item_ok ?all" using assms by (simp add: kSmallBuffer_def)
  ultimately have "fold stream_insert ?all (FixedBuffer_make kSmallBuffer) =
      (FixedBuffer_make kSmallBuffer)\<lparr>fb_data := concat (map item_text ?all)\<rparr>"
    using stream_insert_all [of ?all "FixedBuffer_make kSmallBuffer"] assms(5)
    by (simp add: FixedBuffer_make_def del: stream_insert.simps fold_simps)
  then show ?thesis by (simp add: LOG_def Logger_dtor_def Impl_make_def)
qed


theorem LOG_record_witness:
  "LOG ''t'' ''f.cpp'' 12 [L_string ''x = '', L_int (-5)] =
    ''t'' @ concat (map item_text [L_string ''x = '', L_int (-5)]) @ '' -- '' @ ''f.cpp'' @ '':'' @ int_to_string 12 @ [LF]"
  by (rule LOG_record) (simp_all add: kSmallBuffer_def int_to_string_def to_string.simps)

end
