(* ===== verification/AsyncLogging.thy ===== *)
theory AsyncLogging
  imports LogStream
begin

text \<open>
  \<^verbatim>\<open>WebServer/base/FileUtil\<close>, \<^verbatim>\<open>LogFile\<close> and \<^verbatim>\<open>AsyncLogging\<close>: the append-only file,
  the log file that flushes it now and then, and the double-buffered log thread. The front end
  and the thread are a step relation in which each critical section is one step. The lemmas show
  that the assertions of the thread hold, that the file receives the lines in order, and which
  lines \<^verbatim>\<open>stop\<close> saves and loses.
\<close>

section \<open>AppendFile and LogFile\<close>

text \<open>The bytes given to the stream, those flushed, and the counts that the coming calls of
  \<^verbatim>\<open>fwrite_unlocked\<close> accept; when there are no more counts it accepts everything.\<close>

record AppendFile =
  af_out :: string
  af_flushed :: string
  af_accepts :: "nat list"

text \<open>The constructor gives the stream its buffer without a look at what \<^verbatim>\<open>fopen\<close> has returned: \<open>None\<close> is the null
  pointer. The file is opened for appending, so that what it holds is left out.\<close>

definition AppendFile_make :: "bool \<Rightarrow> nat list \<Rightarrow> AppendFile option" where
  "AppendFile_make fopened accepts = (if fopened then Some \<lparr>af_out = [], af_flushed = [], af_accepts = accepts\<rparr> else None)"

definition AppendFile_write :: "string \<Rightarrow> AppendFile \<Rightarrow> nat \<times> AppendFile" where
  "AppendFile_write s f =
     (case af_accepts f of
        [] \<Rightarrow> (length s, f\<lparr>af_out := af_out f @ s\<rparr>)
      | n # ns \<Rightarrow> (min n (length s), f\<lparr>af_out := af_out f @ take n s, af_accepts := ns\<rparr>))"

function append_loop :: "string \<Rightarrow> AppendFile \<Rightarrow> AppendFile" where
  "append_loop rest f =
     (if rest = [] then f
      else (case AppendFile_write rest f of (x, f') \<Rightarrow> if x = 0 then f' else append_loop (drop x rest) f'))"
  by pat_completeness auto
termination
  by (relation "measure (\<lambda>(r, f). length r)") auto

declare append_loop.simps [simp del]

definition AppendFile_append :: "string \<Rightarrow> AppendFile \<Rightarrow> AppendFile" where
  "AppendFile_append logline f = (case AppendFile_write logline f of (n, f1) \<Rightarrow> append_loop (drop n logline) f1)"

definition AppendFile_flush :: "AppendFile \<Rightarrow> AppendFile" where
  "AppendFile_flush f = f\<lparr>af_flushed := af_out f\<rparr>"

text \<open>The destructor: \<^verbatim>\<open>fclose\<close> flushes.\<close>

definition AppendFile_dtor :: "AppendFile \<Rightarrow> AppendFile" where
  "AppendFile_dtor f = AppendFile_flush f"

record LogFile =
  lf_file :: AppendFile
  lf_flushEveryN :: int
  lf_count :: int

definition LogFile_make :: "int \<Rightarrow> LogFile" where
  "LogFile_make n = \<lparr>lf_file = \<lparr>af_out = [], af_flushed = [], af_accepts = []\<rparr>, lf_flushEveryN = n, lf_count = 0\<rparr>"

lemma LogFile_make_opens: "AppendFile_make True [] = Some (lf_file (LogFile_make n))"
  by (simp add: AppendFile_make_def LogFile_make_def)

definition append_unlocked :: "string \<Rightarrow> LogFile \<Rightarrow> LogFile" where
  "append_unlocked logline l =
     (let l1 = l\<lparr>lf_file := AppendFile_append logline (lf_file l), lf_count := lf_count l + 1\<rparr>
      in if lf_flushEveryN l1 \<le> lf_count l1
         then l1\<lparr>lf_count := 0, lf_file := AppendFile_flush (lf_file l1)\<rparr> else l1)"

definition LogFile_append :: "string \<Rightarrow> LogFile \<Rightarrow> LogFile" where
  "LogFile_append logline l = append_unlocked logline l"

definition LogFile_flush :: "LogFile \<Rightarrow> LogFile" where
  "LogFile_flush l = l\<lparr>lf_file := AppendFile_flush (lf_file l)\<rparr>"

section \<open>The front end\<close>

record AsyncLogging =
  al_running :: bool
  al_current :: FixedBuffer
  al_next :: "FixedBuffer option"
  al_buffers :: "FixedBuffer list"

definition AsyncLogging_make :: AsyncLogging where
  "AsyncLogging_make = \<lparr>al_running = False, al_current = FixedBuffer_make kLargeBuffer,
     al_next = Some (FixedBuffer_make kLargeBuffer), al_buffers = []\<rparr>"

definition al_append :: "string \<Rightarrow> AsyncLogging \<Rightarrow> AsyncLogging" where
  "al_append logline a =
     (if int (length logline) < fb_avail (al_current a)
      then a\<lparr>al_current := fb_append logline (al_current a)\<rparr>
      else
        (let a1 = a\<lparr>al_buffers := al_buffers a @ [al_current a]\<rparr>;
             a2 = (case al_next a1 of
                     Some b \<Rightarrow> a1\<lparr>al_current := b, al_next := None\<rparr>
                   | None \<Rightarrow> a1\<lparr>al_current := FixedBuffer_make kLargeBuffer\<rparr>)
         in a2\<lparr>al_current := fb_append logline (al_current a2)\<rparr>))"

text \<open>The logger behind \<^verbatim>\<open>LOG\<close>: the first record creates and starts it; \<open>None\<close> is the failing
  assertion of the constructor on the name of the file.\<close>

definition once_init :: "string \<Rightarrow> AsyncLogging option" where
  "once_init logFileName = (if length logFileName > 1 then Some (AsyncLogging_make\<lparr>al_running := True\<rparr>) else None)"

definition log_output :: "string \<Rightarrow> string \<Rightarrow> AsyncLogging option \<Rightarrow> AsyncLogging option" where
  "log_output logFileName msg logger =
     (case (case logger of None \<Rightarrow> once_init logFileName | Some a \<Rightarrow> Some a) of
        None \<Rightarrow> None
      | Some a \<Rightarrow> Some (al_append msg a))"

section \<open>The log thread\<close>

text \<open>At the test of its loop, waiting with the test passed, with collected buffers, or finished.\<close>

datatype lt_pc = LT_top | LT_wait | LT_write | LT_done

record LogThread =
  lt_pc :: lt_pc
  lt_new1 :: "FixedBuffer option"
  lt_new2 :: "FixedBuffer option"
  lt_towrite :: "FixedBuffer list"
  lt_output :: LogFile

definition LogThread_make :: LogThread where
  "LogThread_make = \<lparr>lt_pc = LT_top, lt_new1 = Some (FixedBuffer_make kLargeBuffer),
     lt_new2 = Some (FixedBuffer_make kLargeBuffer), lt_towrite = [], lt_output = LogFile_make 1024\<rparr>"

definition empty_buf :: "FixedBuffer option \<Rightarrow> bool" where
  "empty_buf b = (case b of None \<Rightarrow> False | Some x \<Rightarrow> fb_length x = 0)"

text \<open>The test of the loop.\<close>

definition lt_test :: "AsyncLogging \<Rightarrow> LogThread \<Rightarrow> LogThread" where
  "lt_test a t =
     (if al_running a then t\<lparr>lt_pc := LT_wait\<rparr>
      else t\<lparr>lt_pc := LT_done, lt_output := LogFile_flush (lt_output t)\<rparr>)"

text \<open>The assertions at the head of the loop and the critical section; \<open>None\<close> is an assertion
  that fails.\<close>

definition lt_collect :: "AsyncLogging \<Rightarrow> LogThread \<Rightarrow> (AsyncLogging \<times> LogThread) option" where
  "lt_collect a t =
     (if \<not> empty_buf (lt_new1 t) \<or> \<not> empty_buf (lt_new2 t) \<or> lt_towrite t \<noteq> [] then None
      else
        (let bs = al_buffers a @ [al_current a];
             a1 = a\<lparr>al_current := the (lt_new1 t), al_buffers := []\<rparr>;
             t1 = t\<lparr>lt_new1 := None, lt_towrite := bs, lt_pc := LT_write\<rparr>
         in Some (if al_next a1 = None then (a1\<lparr>al_next := lt_new2 t1\<rparr>, t1\<lparr>lt_new2 := None\<rparr>) else (a1, t1))))"

text \<open>A buffer taken back from those written, if one is missing; \<open>None\<close> is the failing
  assertion.\<close>

definition refill :: "FixedBuffer option \<Rightarrow> FixedBuffer list \<Rightarrow> (FixedBuffer option \<times> FixedBuffer list) option" where
  "refill nb bs =
     (case nb of
        Some b \<Rightarrow> Some (nb, bs)
      | None \<Rightarrow> if bs = [] then None else Some (Some (fb_reset (last bs)), butlast bs))"

definition lt_write_out :: "LogThread \<Rightarrow> LogThread option" where
  "lt_write_out t =
     (if lt_towrite t = [] then None
      else
        (let bs = (if 25 < length (lt_towrite t) then take 2 (lt_towrite t) else lt_towrite t);
             out = fold (\<lambda>b. LogFile_append (fb_data b)) bs (lt_output t);
             bs1 = (if 2 < length bs then take 2 bs else bs)
         in case refill (lt_new1 t) bs1 of
              None \<Rightarrow> None
            | Some (n1, bs2) \<Rightarrow>
                (case refill (lt_new2 t) bs2 of
                   None \<Rightarrow> None
                 | Some (n2, bs3) \<Rightarrow>
                     Some (t\<lparr>lt_new1 := n1, lt_new2 := n2, lt_towrite := [], lt_output := LogFile_flush out,
                             lt_pc := LT_top\<rparr>))))"

section \<open>Front end and thread together\<close>

text \<open>The lines appended so far, and whether buffers were dropped because there were too many.\<close>

record al_world =
  aw_log :: AsyncLogging
  aw_thread :: LogThread
  aw_lines :: "string list"
  aw_dropped :: bool

inductive al_step :: "al_world \<Rightarrow> al_world \<Rightarrow> bool" where
  append: "length line < kLargeBuffer \<Longrightarrow>
    al_step w (w\<lparr>aw_log := al_append line (aw_log w), aw_lines := aw_lines w @ [line]\<rparr>)"
| test: "lt_pc (aw_thread w) = LT_top \<Longrightarrow>
    al_step w (w\<lparr>aw_thread := lt_test (aw_log w) (aw_thread w)\<rparr>)"
| collect: "lt_pc (aw_thread w) = LT_wait \<Longrightarrow> lt_collect (aw_log w) (aw_thread w) = Some (a, t) \<Longrightarrow>
    al_step w (w\<lparr>aw_log := a, aw_thread := t\<rparr>)"
| put_out: "lt_pc (aw_thread w) = LT_write \<Longrightarrow> lt_write_out (aw_thread w) = Some t \<Longrightarrow>
    al_step w (w\<lparr>aw_thread := t, aw_dropped := (aw_dropped w \<or> 25 < length (lt_towrite (aw_thread w)))\<rparr>)"
| stop: "al_step w (w\<lparr>aw_log := (aw_log w)\<lparr>al_running := False\<rparr>\<rparr>)"

definition al_start :: al_world where
  "al_start = \<lparr>aw_log = AsyncLogging_make\<lparr>al_running := True\<rparr>, aw_thread = LogThread_make, aw_lines = [],
     aw_dropped = False\<rparr>"

definition written :: "al_world \<Rightarrow> string" where
  "written w = af_out (lf_file (lt_output (aw_thread w)))"

definition bufs :: "FixedBuffer list \<Rightarrow> string" where
  "bufs bs = concat (map fb_data bs)"

text \<open>The bytes on their way to the file: collected, queued and in the current buffer.\<close>

definition in_flight :: "al_world \<Rightarrow> string" where
  "in_flight w = bufs (lt_towrite (aw_thread w)) @ bufs (al_buffers (aw_log w)) @ fb_data (al_current (aw_log w))"

section \<open>Lemmas\<close>

lemma append_all: "af_accepts f = [] \<Longrightarrow> AppendFile_append s f = f\<lparr>af_out := af_out f @ s\<rparr>"
  by (simp add: AppendFile_append_def AppendFile_write_def append_loop.simps)

text \<open>Whatever \<^verbatim>\<open>fwrite\<close> accepts, a prefix of the line is written.\<close>

lemma append_loop_prefix: "\<exists>k. af_out (append_loop rest f) = af_out f @ take k rest"
proof (induction rest f rule: append_loop.induct)
  case (1 rest f)
  obtain x f' where w: "AppendFile_write rest f = (x, f')" by (metis surj_pair)
  have out: "af_out f' = af_out f @ take x rest"
    using w by (auto simp: AppendFile_write_def min_def split: list.splits)
  show ?case
  proof (cases "rest = [] \<or> x = 0")
    case True
    then show ?thesis using out by (subst append_loop.simps) (auto simp: w intro: exI [of _ 0])
  next
    case False
    then obtain k where "af_out (append_loop (drop x rest) f') = af_out f' @ take k (drop x rest)"
      using 1 [OF _ w [symmetric]] by blast
    then have "af_out (append_loop rest f) = af_out f @ take (x + k) rest"
      using False out by (subst append_loop.simps) (simp add: w take_add)
    then show ?thesis by blast
  qed
qed

lemma LogFile_append_all:
  assumes "af_accepts (lf_file l) = []"
  shows "af_out (lf_file (LogFile_append s l)) = af_out (lf_file l) @ s" "af_accepts (lf_file (LogFile_append s l)) = []"
  using append_all [OF assms] assms by (simp_all add: LogFile_append_def append_unlocked_def AppendFile_flush_def Let_def)

lemma LogFile_fold_all:
  assumes "af_accepts (lf_file l) = []"
  shows "af_out (lf_file (fold (\<lambda>b. LogFile_append (fb_data b)) bs l)) = af_out (lf_file l) @ bufs bs \<and>
    af_accepts (lf_file (fold (\<lambda>b. LogFile_append (fb_data b)) bs l)) = []"
  using assms by (induction bs arbitrary: l) (simp_all add: bufs_def LogFile_append_all)

lemma LogFile_flush_frame [simp]:
  "af_out (lf_file (LogFile_flush l)) = af_out (lf_file l)" "af_accepts (lf_file (LogFile_flush l)) = af_accepts (lf_file l)"
  by (simp_all add: LogFile_flush_def AppendFile_flush_def)

abbreviation fresh_buf :: FixedBuffer where
  "fresh_buf \<equiv> FixedBuffer_make kLargeBuffer"

definition large :: "FixedBuffer \<Rightarrow> bool" where
  "large b = (fb_size b = kLargeBuffer \<and> fb_ok b)"

lemma large_fresh [simp]: "large fresh_buf" "fb_data fresh_buf = []" "fb_reset b = fresh_buf \<longleftrightarrow> fb_size b = kLargeBuffer"
  by (simp_all add: large_def FixedBuffer_make_def fb_ok_def fb_reset_def) (cases b, simp)

definition front_ok :: "AsyncLogging \<Rightarrow> bool" where
  "front_ok a = (list_all large (al_current a # al_buffers a) \<and> al_next a \<in> {None, Some fresh_buf} \<and>
     (al_next a = None \<longrightarrow> al_buffers a \<noteq> []))"

definition thread_ok :: "LogThread \<Rightarrow> bool" where
  "thread_ok t = (af_accepts (lf_file (lt_output t)) = [] \<and> list_all large (lt_towrite t) \<and>
     (if lt_pc t = LT_write then lt_new1 t = None \<and> lt_new2 t \<in> {None, Some fresh_buf} \<and> lt_towrite t \<noteq> [] \<and>
        (lt_new2 t = None \<longrightarrow> 2 \<le> length (lt_towrite t))
      else lt_new1 t = Some fresh_buf \<and> lt_new2 t = Some fresh_buf \<and> lt_towrite t = []))"

definition al_inv :: "al_world \<Rightarrow> bool" where
  "al_inv w = (front_ok (aw_log w) \<and> thread_ok (aw_thread w) \<and>
     (\<not> aw_dropped w \<longrightarrow> written w @ in_flight w = concat (aw_lines w)))"

lemma large_append:
  assumes "large b" "length s < kLargeBuffer"
  shows "large (fb_append s b)"
    "int (length s) < fb_avail b \<Longrightarrow> fb_data (fb_append s b) = fb_data b @ s"
  using assms fb_append_cases [of s b]
  by (auto simp: large_def fb_ok_def kLargeBuffer_def fb_avail_def split: if_splits)

lemma al_append_ok:
  assumes "front_ok a" "length s < kLargeBuffer"
  shows "front_ok (al_append s a)"
    "bufs (al_buffers (al_append s a)) @ fb_data (al_current (al_append s a)) =
      bufs (al_buffers a) @ fb_data (al_current a) @ s"
    "al_running (al_append s a) = al_running a"
proof -
  have fresh: "fb_data (fb_append s fresh_buf) = s"
  proof -
    have "int (length s) < fb_avail fresh_buf" using assms(2) by (simp add: fb_avail_def FixedBuffer_make_def)
    from large_append(2) [OF _ assms(2) this] show ?thesis by simp
  qed
  note l = large_append [OF _ assms(2)]
  show "front_ok (al_append s a)" using assms(1) l(1) by (auto simp: front_ok_def al_append_def Let_def split: option.splits)
  show "bufs (al_buffers (al_append s a)) @ fb_data (al_current (al_append s a)) =
      bufs (al_buffers a) @ fb_data (al_current a) @ s"
    using assms(1) l(2) fresh by (auto simp: front_ok_def al_append_def Let_def bufs_def split: option.splits)
  show "al_running (al_append s a) = al_running a" by (simp add: al_append_def Let_def split: option.splits)
qed

text \<open>The assertions at the head of the loop hold and the section hands over every buffer.\<close>

lemma lt_collect_ok:
  assumes "front_ok a" "thread_ok t" "lt_pc t = LT_wait"
  obtains a' t' where "lt_collect a t = Some (a', t')" "front_ok a'" "thread_ok t'" "lt_pc t' = LT_write"
    "lt_towrite t' = al_buffers a @ [al_current a]" "al_buffers a' = []" "fb_data (al_current a') = []"
    "lt_output t' = lt_output t" "al_running a' = al_running a"
proof -
  have "empty_buf (Some fresh_buf)" by (simp add: empty_buf_def fb_length_def)
  with assms have "lt_collect a t \<noteq> None" by (auto simp: lt_collect_def thread_ok_def Let_def)
  then obtain a' t' where c: "lt_collect a t = Some (a', t')" by auto
  show ?thesis
    by (rule that [OF c]) (use c assms in \<open>auto simp: lt_collect_def thread_ok_def front_ok_def Let_def Suc_le_eq split: if_splits\<close>)
qed

lemma refill_large:
  assumes "nb = None \<longrightarrow> bs \<noteq> []" "nb \<in> {None, Some fresh_buf}" "list_all large bs"
  shows "\<exists>bs'. refill nb bs = Some (Some fresh_buf, bs') \<and> length bs' = length bs - (if nb = None then 1 else 0) \<and>
    list_all large bs'"
proof (cases "nb = None")
  case True
  then have "large (last bs)" using assms by (metis last_in_set list_all_iff)
  moreover have "list_all large (butlast bs)" using assms(3) by (auto simp: list_all_iff dest: in_set_butlastD)
  ultimately show ?thesis using True assms(1) by (simp add: refill_def large_def)
next
  case False
  then show ?thesis using assms by (auto simp: refill_def)
qed

lemma lt_write_out_ok:
  assumes "thread_ok t" "lt_pc t = LT_write"
  obtains t' where "lt_write_out t = Some t'" "thread_ok t'" "lt_pc t' = LT_top"
    "length (lt_towrite t) \<le> 25 \<Longrightarrow> af_out (lf_file (lt_output t')) = af_out (lf_file (lt_output t)) @ bufs (lt_towrite t)"
    "lt_towrite t' = []"
proof -
  define bs where "bs = (if 25 < length (lt_towrite t) then take 2 (lt_towrite t) else lt_towrite t)"
  define bs1 where "bs1 = (if 2 < length bs then take 2 bs else bs)"
  have t: "lt_new1 t = None" "lt_new2 t \<in> {None, Some fresh_buf}" "lt_towrite t \<noteq> []" "list_all large (lt_towrite t)"
    "af_accepts (lf_file (lt_output t)) = []" "lt_new2 t = None \<longrightarrow> 2 \<le> length (lt_towrite t)"
    using assms by (auto simp: thread_ok_def)
  have bs1: "bs1 \<noteq> []" "list_all large bs1" "lt_new2 t = None \<longrightarrow> length bs1 = 2"
    using t by (auto simp: bs1_def bs_def list_all_iff dest: in_set_takeD)
  obtain bs2 where r1: "refill (lt_new1 t) bs1 = Some (Some fresh_buf, bs2)" "length bs2 = length bs1 - 1" "list_all large bs2"
    using refill_large [of "lt_new1 t" bs1] bs1 t(1) by auto
  have "lt_new2 t = None \<longrightarrow> bs2 \<noteq> []" using r1(2) bs1(3) by auto
  then obtain bs3 where r2: "refill (lt_new2 t) bs2 = Some (Some fresh_buf, bs3)"
    using refill_large [OF _ t(2) r1(3)] by metis
  let ?out = "fold (\<lambda>b. LogFile_append (fb_data b)) bs (lt_output t)"
  have w: "lt_write_out t = Some (t\<lparr>lt_new1 := Some fresh_buf, lt_new2 := Some fresh_buf, lt_towrite := [],
      lt_output := LogFile_flush ?out, lt_pc := LT_top\<rparr>)"
    unfolding lt_write_out_def Let_def bs_def [symmetric] bs1_def [symmetric] r1(1) using t(3) r2 by simp
  show ?thesis
    by (rule that [OF w]) (use LogFile_fold_all [OF t(5), of bs] in \<open>auto simp: thread_ok_def bs_def split: if_splits\<close>)
qed

section \<open>Reachable states\<close>

lemma al_inv_step: "al_step w w' \<Longrightarrow> al_inv w \<Longrightarrow> al_inv w'"
proof (induction rule: al_step.induct)
  case (append line w)
  then have "front_ok (aw_log w)" by (simp add: al_inv_def)
  from al_append_ok [OF this append(1)] append.prems show ?case
    by (auto simp: al_inv_def written_def in_flight_def)
next
  case (test w)
  then show ?case by (auto simp: al_inv_def thread_ok_def lt_test_def written_def in_flight_def)
next
  case (collect w a t)
  then have ok: "front_ok (aw_log w)" "thread_ok (aw_thread w)" by (simp_all add: al_inv_def)
  obtain a' t' where c: "lt_collect (aw_log w) (aw_thread w) = Some (a', t')" "front_ok a'" "thread_ok t'"
    "lt_towrite t' = al_buffers (aw_log w) @ [al_current (aw_log w)]" "al_buffers a' = []" "fb_data (al_current a') = []"
    "lt_output t' = lt_output (aw_thread w)"
    using lt_collect_ok [OF ok collect(1)] by metis
  moreover have "lt_towrite (aw_thread w) = []" using ok(2) collect(1) by (simp add: thread_ok_def)
  ultimately show ?case using collect.prems collect(2) by (auto simp: al_inv_def written_def in_flight_def bufs_def)
next
  case (put_out w t)
  then have ok: "thread_ok (aw_thread w)" by (simp add: al_inv_def)
  obtain t' where c: "lt_write_out (aw_thread w) = Some t'" "thread_ok t'" "lt_towrite t' = []"
    "length (lt_towrite (aw_thread w)) \<le> 25 \<Longrightarrow>
      af_out (lf_file (lt_output t')) = af_out (lf_file (lt_output (aw_thread w))) @ bufs (lt_towrite (aw_thread w))"
    using lt_write_out_ok [OF ok put_out(1)] by metis
  then show ?case using put_out by (auto simp: al_inv_def written_def in_flight_def bufs_def)
next
  case (stop w)
  then show ?case by (auto simp: al_inv_def front_ok_def written_def in_flight_def)
qed

lemma al_inv_start: "al_inv al_start"
  by (simp add: al_inv_def al_start_def front_ok_def thread_ok_def AsyncLogging_make_def LogThread_make_def
      LogFile_make_def written_def in_flight_def bufs_def)

lemma al_reach: "al_step\<^sup>*\<^sup>* al_start w \<Longrightarrow> al_inv w"
  by (induction rule: rtranclp_induct) (auto intro: al_inv_start al_inv_step)

text \<open>C32. As long as the thread never had to drop buffers, the file followed by the bytes still in
  the buffers is exactly the lines appended so far, in their order.\<close>

theorem al_in_order:
  "al_step\<^sup>*\<^sup>* al_start w \<Longrightarrow> \<not> aw_dropped w \<Longrightarrow> written w @ in_flight w = concat (aw_lines w)"
  using al_reach by (simp add: al_inv_def)

text \<open>The assertions of the log thread hold: it never finds its spare buffers missing or in use,
  nor a round without a buffer to write or to take back, so every round completes.\<close>

theorem al_assertions:
  assumes "al_step\<^sup>*\<^sup>* al_start w"
  shows "(lt_pc (aw_thread w) = LT_wait \<longrightarrow> lt_collect (aw_log w) (aw_thread w) \<noteq> None) \<and>
    (lt_pc (aw_thread w) = LT_write \<longrightarrow> lt_write_out (aw_thread w) \<noteq> None)"
proof -
  have ok: "front_ok (aw_log w)" "thread_ok (aw_thread w)" using al_reach [OF assms] by (simp_all add: al_inv_def)
  show ?thesis using lt_collect_ok [OF ok] lt_write_out_ok [OF ok(2)] by (metis option.distinct(1))
qed

text \<open>After \<^verbatim>\<open>stop\<close> the flag stays off.\<close>

lemma al_stopped: "al_step w w' \<Longrightarrow> al_inv w \<Longrightarrow> \<not> al_running (aw_log w) \<Longrightarrow> \<not> al_running (aw_log w')"
  by (induction rule: al_step.induct)
    (auto simp: al_inv_def al_append_ok lt_collect_def Let_def split: if_splits)

text \<open>What the file still receives once \<^verbatim>\<open>stop\<close> has come while a round is being written.\<close>

definition closing :: "string \<Rightarrow> al_world \<Rightarrow> bool" where
  "closing s w = (\<not> al_running (aw_log w) \<and> (\<not> aw_dropped w \<longrightarrow>
     (case lt_pc (aw_thread w) of LT_write \<Rightarrow> written w @ bufs (lt_towrite (aw_thread w)) = s
      | LT_wait \<Rightarrow> False | LT_top \<Rightarrow> written w = s | LT_done \<Rightarrow> written w = s)))"

lemma closing_step: "al_step w w' \<Longrightarrow> al_inv w \<Longrightarrow> closing s w \<Longrightarrow> closing s w'"
proof (induction rule: al_step.induct)
  case (append line w)
  then show ?case by (auto simp: closing_def al_inv_def al_append_ok written_def split: lt_pc.splits)
next
  case (test w)
  then show ?case by (auto simp: closing_def lt_test_def written_def)
next
  case (collect w a t)
  then have "aw_dropped w" by (auto simp: closing_def)
  with collect al_stopped [OF al_step.collect [OF collect(1,2)]] show ?case by (simp add: closing_def)
next
  case (put_out w t)
  then have ok: "thread_ok (aw_thread w)" by (simp add: al_inv_def)
  obtain t' where c: "lt_write_out (aw_thread w) = Some t'" "lt_pc t' = LT_top"
    "length (lt_towrite (aw_thread w)) \<le> 25 \<Longrightarrow>
      af_out (lf_file (lt_output t')) = af_out (lf_file (lt_output (aw_thread w))) @ bufs (lt_towrite (aw_thread w))"
    using lt_write_out_ok [OF ok put_out(1)] by metis
  then show ?case using put_out by (auto simp: closing_def written_def)
next
  case (stop w)
  then show ?case by (auto simp: closing_def written_def split: lt_pc.splits)
qed

lemma closing_steps: "al_step\<^sup>*\<^sup>* w w' \<Longrightarrow> al_inv w \<Longrightarrow> closing s w \<Longrightarrow> al_inv w' \<and> closing s w'"
  by (induction rule: rtranclp_induct) (auto intro: al_inv_step closing_step)

text \<open>When \<^verbatim>\<open>stop\<close> comes while the thread writes a round, the lines that are still in the
  buffers at that moment are lost: the file ends with that round.\<close>

theorem al_stop_loses:
  assumes "al_step\<^sup>*\<^sup>* al_start w" "lt_pc (aw_thread w) = LT_write" "\<not> al_running (aw_log w)"
    "al_step\<^sup>*\<^sup>* w w'" "lt_pc (aw_thread w') = LT_done" "\<not> aw_dropped w'"
  shows "written w' = written w @ bufs (lt_towrite (aw_thread w))"
proof -
  have "closing (written w @ bufs (lt_towrite (aw_thread w))) w" using assms(2,3) by (simp add: closing_def)
  from closing_steps [OF assms(4) al_reach [OF assms(1)] this] assms(5,6) show ?thesis by (simp add: closing_def)
qed

text \<open>What is certain once \<^verbatim>\<open>stop\<close> has come while the thread waits.\<close>

definition saving :: "string \<Rightarrow> al_world \<Rightarrow> bool" where
  "saving s w = (\<not> al_running (aw_log w) \<and>
     (if lt_pc (aw_thread w) = LT_wait then \<not> aw_dropped w \<longrightarrow> prefix s (concat (aw_lines w))
      else \<exists>u. prefix s u \<and> closing u w))"

lemma saving_step:
  assumes "al_step w w'" "al_inv w" "saving s w"
  shows "saving s w'"
proof (cases "lt_pc (aw_thread w) = LT_wait")
  case False
  then obtain u where u: "prefix s u" "closing u w" using assms(3) by (auto simp: saving_def)
  from closing_step [OF assms(1,2) u(2)] have c: "closing u w'" .
  then have "lt_pc (aw_thread w') = LT_wait \<longrightarrow> aw_dropped w'" by (auto simp: closing_def)
  with u(1) c show ?thesis by (auto simp: saving_def closing_def)
next
  case True
  have inv': "al_inv w'" and off: "\<not> al_running (aw_log w')"
    using al_inv_step [OF assms(1,2)] al_stopped [OF assms(1,2)] assms(3) by (auto simp: saving_def)
  have p: "\<not> aw_dropped w \<longrightarrow> prefix s (concat (aw_lines w))" using assms(3) True by (simp add: saving_def)
  from assms(1) True off show ?thesis
  proof cases
    case (collect a t)
    have ok: "front_ok (aw_log w)" "thread_ok (aw_thread w)" using assms(2) by (simp_all add: al_inv_def)
    obtain a' t' where c: "lt_collect (aw_log w) (aw_thread w) = Some (a', t')" "lt_pc t' = LT_write"
      "al_buffers a' = []" "fb_data (al_current a') = []"
      using lt_collect_ok [OF ok True] by metis
    let ?u = "written w' @ bufs (lt_towrite (aw_thread w'))"
    have w': "aw_log w' = a'" "aw_thread w' = t'" "aw_lines w' = aw_lines w" "aw_dropped w' = aw_dropped w"
      using collect c(1) by simp_all
    have u: "\<not> aw_dropped w \<longrightarrow> ?u = concat (aw_lines w)"
      using inv' w' c(3,4) by (simp add: al_inv_def in_flight_def bufs_def)
    have "closing ?u w'" using off c(2) w'(2) by (simp add: closing_def)
    then show ?thesis
    proof (cases "aw_dropped w")
      case True
      then have "closing s w'" using off w'(4) by (simp add: closing_def)
      then show ?thesis using off c(2) w'(2) by (auto simp: saving_def)
    next
      case False
      then show ?thesis using u p off c(2) w'(2) \<open>closing ?u w'\<close> by (auto simp: saving_def)
    qed
  qed (use p in \<open>auto simp: saving_def\<close>)
qed

text \<open>When \<^verbatim>\<open>stop\<close> comes while the thread waits for its next round, every line appended before
  is in the file when the thread has finished.\<close>

theorem al_stop_saves:
  assumes "al_step\<^sup>*\<^sup>* al_start w" "lt_pc (aw_thread w) = LT_wait" "\<not> al_running (aw_log w)"
    "al_step\<^sup>*\<^sup>* w w'" "lt_pc (aw_thread w') = LT_done" "\<not> aw_dropped w'"
  shows "prefix (concat (aw_lines w)) (written w')"
proof -
  have "saving (concat (aw_lines w)) w" using assms(2,3) by (simp add: saving_def)
  with assms(4) have "al_inv w' \<and> saving (concat (aw_lines w)) w'"
    by (induction rule: rtranclp_induct) (auto intro: al_reach [OF assms(1)] al_inv_step saving_step)
  with assms(5,6) show ?thesis by (auto simp: saving_def closing_def)
qed

section \<open>Witnesses\<close>

text \<open>A line is appended, the thread passes its test, collects and writes.\<close>

definition ex_wait :: al_world where
  "ex_wait = al_start\<lparr>aw_log := (aw_log al_start)\<lparr>al_current := \<lparr>fb_size = kLargeBuffer, fb_data = ''hi''\<rparr>\<rparr>,
     aw_lines := [''hi''], aw_thread := LogThread_make\<lparr>lt_pc := LT_wait\<rparr>\<rparr>"

lemma ex_waits: "al_step\<^sup>*\<^sup>* al_start ex_wait"
proof -
  let ?w = "al_start\<lparr>aw_log := al_append ''hi'' (aw_log al_start), aw_lines := aw_lines al_start @ [''hi'']\<rparr>"
  have "al_step al_start ?w" by (rule al_step.append) (simp add: kLargeBuffer_def)
  moreover have "al_step ?w (?w\<lparr>aw_thread := lt_test (aw_log ?w) (aw_thread ?w)\<rparr>)"
    by (rule al_step.test) (simp add: al_start_def LogThread_make_def)
  moreover have "?w\<lparr>aw_thread := lt_test (aw_log ?w) (aw_thread ?w)\<rparr> = ex_wait"
    by (simp add: ex_wait_def al_start_def AsyncLogging_make_def al_append_def fb_append_cases fb_avail_def
        FixedBuffer_make_def kLargeBuffer_def lt_test_def LogThread_make_def)
  ultimately show ?thesis by (metis converse_rtranclp_into_rtranclp rtranclp.rtrancl_refl)
qed

theorem al_in_order_witness: "written ex_wait @ in_flight ex_wait = concat (aw_lines ex_wait)"
  by (rule al_in_order [OF ex_waits]) (simp add: ex_wait_def al_start_def)

theorem al_assertions_witness:
  "lt_pc (aw_thread ex_wait) = LT_wait \<and> lt_collect (aw_log ex_wait) (aw_thread ex_wait) \<noteq> None"
proof -
  have "lt_pc (aw_thread ex_wait) = LT_wait" by (simp add: ex_wait_def)
  with al_assertions [OF ex_waits] show ?thesis by blast
qed

definition ex_stop :: al_world where
  "ex_stop = ex_wait\<lparr>aw_log := (aw_log ex_wait)\<lparr>al_running := False\<rparr>\<rparr>"

text \<open>The end of a run in which the thread has written what it had collected.\<close>

definition ex_end :: "string list \<Rightarrow> AsyncLogging \<Rightarrow> al_world" where
  "ex_end ls a = \<lparr>aw_log = a, aw_thread = LogThread_make\<lparr>lt_pc := LT_done, lt_output :=
     \<lparr>lf_file = \<lparr>af_out = ''hi'', af_flushed = ''hi'', af_accepts = []\<rparr>, lf_flushEveryN = 1024, lf_count = 1\<rparr>\<rparr>,
     aw_lines = ls, aw_dropped = False\<rparr>"

definition ex_write :: "bool \<Rightarrow> FixedBuffer \<Rightarrow> string list \<Rightarrow> al_world" where
  "ex_write run cur ls = \<lparr>aw_log = AsyncLogging_make\<lparr>al_running := run, al_current := cur\<rparr>,
     aw_thread = LogThread_make\<lparr>lt_pc := LT_write, lt_new1 := None,
       lt_towrite := [\<lparr>fb_size = kLargeBuffer, fb_data = ''hi''\<rparr>]\<rparr>,
     aw_lines = ls, aw_dropped = False\<rparr>"

lemma ex_collects: "al_step ex_wait (ex_write True fresh_buf [''hi''])" "al_step ex_stop (ex_write False fresh_buf [''hi''])"
  using al_step.collect [of ex_wait "aw_log (ex_write True fresh_buf [''hi''])" "aw_thread (ex_write True fresh_buf [''hi''])"]
    al_step.collect [of ex_stop "aw_log (ex_write False fresh_buf [''hi''])" "aw_thread (ex_write False fresh_buf [''hi''])"]
  by (simp_all add: ex_stop_def ex_wait_def ex_write_def al_start_def AsyncLogging_make_def LogThread_make_def
      lt_collect_def empty_buf_def fb_length_def FixedBuffer_make_def)

lemma ex_finishes: "al_step\<^sup>*\<^sup>* (ex_write False cur ls) (ex_end ls (AsyncLogging_make\<lparr>al_running := False, al_current := cur\<rparr>))"
proof -
  let ?w = "ex_write False cur ls"
  define t where "t = LogThread_make\<lparr>lt_output :=
     \<lparr>lf_file = \<lparr>af_out = ''hi'', af_flushed = ''hi'', af_accepts = []\<rparr>, lf_flushEveryN = 1024, lf_count = 1\<rparr>\<rparr>"
  have "AppendFile_append ''hi'' \<lparr>af_out = [], af_flushed = [], af_accepts = []\<rparr> =
      \<lparr>af_out = ''hi'', af_flushed = [], af_accepts = []\<rparr>"
    using append_all [of "\<lparr>af_out = [], af_flushed = [], af_accepts = []\<rparr>" "''hi''"] by simp
  then have "lt_write_out (aw_thread ?w) = Some t"
    by (simp add: lt_write_out_def ex_write_def LogThread_make_def refill_def t_def LogFile_make_def LogFile_append_def
        append_unlocked_def LogFile_flush_def AppendFile_flush_def fb_reset_def FixedBuffer_make_def)
  from al_step.put_out [OF _ this] have "al_step ?w (?w\<lparr>aw_thread := t\<rparr>)"
    by (simp add: ex_write_def LogThread_make_def)
  moreover have "al_step (?w\<lparr>aw_thread := t\<rparr>) (?w\<lparr>aw_thread := lt_test (aw_log ?w) t\<rparr>)"
    using al_step.test [of "?w\<lparr>aw_thread := t\<rparr>"] by (simp add: t_def LogThread_make_def ex_write_def)
  moreover have "?w\<lparr>aw_thread := lt_test (aw_log ?w) t\<rparr> =
      ex_end ls (AsyncLogging_make\<lparr>al_running := False, al_current := cur\<rparr>)"
    by (simp add: ex_end_def ex_write_def lt_test_def t_def LogFile_flush_def AppendFile_flush_def)
  ultimately show ?thesis by (metis converse_rtranclp_into_rtranclp rtranclp.rtrancl_refl)
qed

theorem al_stop_saves_witness:
  "prefix (concat (aw_lines ex_stop)) (written (ex_end [''hi''] (AsyncLogging_make\<lparr>al_running := False, al_current := fresh_buf\<rparr>)))"
proof -
  have "al_step ex_wait ex_stop" unfolding ex_stop_def by (rule al_step.stop)
  with ex_waits have r: "al_step\<^sup>*\<^sup>* al_start ex_stop" by (rule rtranclp.rtrancl_into_rtrancl)
  have e: "al_step\<^sup>*\<^sup>* ex_stop (ex_end [''hi''] (AsyncLogging_make\<lparr>al_running := False, al_current := fresh_buf\<rparr>))"
    using ex_collects(2) ex_finishes by (rule converse_rtranclp_into_rtranclp)
  show ?thesis
    by (rule al_stop_saves [OF r _ _ e]) (simp_all add: ex_stop_def ex_wait_def ex_end_def)
qed

theorem al_stop_loses_witness:
  "written (ex_end [''hi'', ''lost''] (AsyncLogging_make\<lparr>al_running := False,
      al_current := \<lparr>fb_size = kLargeBuffer, fb_data = ''lost''\<rparr>\<rparr>)) = [] @ bufs [\<lparr>fb_size = kLargeBuffer, fb_data = ''hi''\<rparr>]"
proof -
  let ?b = "\<lparr>fb_size = kLargeBuffer, fb_data = ''lost''\<rparr>"
  let ?w = "ex_write False ?b [''hi'', ''lost'']"
  have "al_step (ex_write True fresh_buf [''hi'']) (ex_write True ?b [''hi'', ''lost''])"
    using al_step.append [of "''lost''" "ex_write True fresh_buf [''hi'']"]
    by (simp add: ex_write_def AsyncLogging_make_def al_append_def fb_append_cases fb_avail_def FixedBuffer_make_def
        kLargeBuffer_def)
  moreover have "al_step (ex_write True ?b [''hi'', ''lost'']) ?w"
    using al_step.stop [of "ex_write True ?b [''hi'', ''lost'']"] by (simp add: ex_write_def AsyncLogging_make_def)
  ultimately have r: "al_step\<^sup>*\<^sup>* al_start ?w"
    using ex_waits ex_collects(1) by (meson rtranclp.rtrancl_into_rtrancl)
  have p: "lt_pc (aw_thread ?w) = LT_write" "\<not> al_running (aw_log ?w)" by (simp_all add: ex_write_def)
  let ?e = "ex_end [''hi'', ''lost''] (AsyncLogging_make\<lparr>al_running := False, al_current := ?b\<rparr>)"
  have d: "lt_pc (aw_thread ?e) = LT_done" "\<not> aw_dropped ?e" by (simp_all add: ex_end_def)
  show ?thesis
    using al_stop_loses [OF r p ex_finishes d]
    by (simp add: ex_write_def written_def LogThread_make_def LogFile_make_def)
qed

end
