(* ===== verification/EventLoop.thy ===== *)
theory EventLoop
  imports Prelude
begin

text \<open>
  \<^verbatim>\<open>WebServer/EventLoop\<close>, \<^verbatim>\<open>EventLoopThread\<close> and \<^verbatim>\<open>EventLoopThreadPool\<close>: the queue of
  functors of a loop, its wake-up descriptor and its life, with the loop thread and the other
  threads as a labelled step relation; the thread that owns a loop; and the pool that hands out
  loops in turn. What the poller reports and what handlers do to connections is modelled in the
  theory of the poller; here a functor is a value of the type variable.
\<close>

section \<open>The loop object\<close>

text \<open>\<open>el_wakeups\<close> is the counter of the event descriptor.\<close>

record 'f EventLoop =
  el_looping :: bool
  el_quit :: bool
  el_pending :: "'f list"
  el_calling :: bool
  el_wakeups :: nat

definition EventLoop_make :: "'f EventLoop" where
  "EventLoop_make = \<lparr>el_looping = False, el_quit = False, el_pending = [], el_calling = False, el_wakeups = 0\<rparr>"

definition wakeup :: "'f EventLoop \<Rightarrow> 'f EventLoop" where
  "wakeup e = e\<lparr>el_wakeups := el_wakeups e + 1\<rparr>"

text \<open>\<^verbatim>\<open>EventLoop::handleRead\<close>: reading the descriptor sets its counter to 0.\<close>

definition el_handleRead :: "'f EventLoop \<Rightarrow> 'f EventLoop" where
  "el_handleRead e = e\<lparr>el_wakeups := 0\<rparr>"

text \<open>The two halves of \<^verbatim>\<open>queueInLoop\<close>: the critical section, and the test for the wake-up.\<close>

definition queue_push :: "'f \<Rightarrow> 'f EventLoop \<Rightarrow> 'f EventLoop" where
  "queue_push cb e = e\<lparr>el_pending := el_pending e @ [cb]\<rparr>"

definition queueInLoop :: "bool \<Rightarrow> 'f \<Rightarrow> 'f EventLoop \<Rightarrow> 'f EventLoop" where
  "queueInLoop isInLoopThread cb e =
     (let e1 = queue_push cb e in if \<not> isInLoopThread \<or> el_calling e1 then wakeup e1 else e1)"

text \<open>\<^verbatim>\<open>runInLoop\<close>: the functor to call at once, if any.\<close>

definition runInLoop :: "bool \<Rightarrow> 'f \<Rightarrow> 'f EventLoop \<Rightarrow> 'f option \<times> 'f EventLoop" where
  "runInLoop isInLoopThread cb e = (if isInLoopThread then (Some cb, e) else (None, queueInLoop False cb e))"

definition el_set_quit :: "'f EventLoop \<Rightarrow> 'f EventLoop" where
  "el_set_quit e = e\<lparr>el_quit := True\<rparr>"

definition quit :: "bool \<Rightarrow> 'f EventLoop \<Rightarrow> 'f EventLoop" where
  "quit isInLoopThread e = (let e1 = el_set_quit e in if \<not> isInLoopThread then wakeup e1 else e1)"

text \<open>\<^verbatim>\<open>doPendingFunctors\<close>: the functors taken under the lock, and the end of the call.\<close>

definition take_pending :: "'f EventLoop \<Rightarrow> 'f list \<times> 'f EventLoop" where
  "take_pending e = (el_pending e, e\<lparr>el_calling := True, el_pending := []\<rparr>)"

definition end_pending :: "'f EventLoop \<Rightarrow> 'f EventLoop" where
  "end_pending e = e\<lparr>el_calling := False\<rparr>"

text \<open>The head of \<^verbatim>\<open>loop\<close> and the test of its loop: \<open>True\<close> to go on.\<close>

definition loop_enter :: "'f EventLoop \<Rightarrow> 'f EventLoop" where
  "loop_enter e = e\<lparr>el_looping := True, el_quit := False\<rparr>"

definition loop_test :: "'f EventLoop \<Rightarrow> bool \<times> 'f EventLoop" where
  "loop_test e = (if el_quit e then (False, e\<lparr>el_looping := False\<rparr>) else (True, e))"

section \<open>The loop thread and the others\<close>

text \<open>Where the loop thread is: before \<^verbatim>\<open>loop\<close>, at the test, in \<^verbatim>\<open>poll\<close>, in the handlers, with
  functors to call, or after \<^verbatim>\<open>loop\<close>.\<close>

datatype 'f el_pc = EL_start | EL_test | EL_poll | EL_events | EL_functors "'f list" | EL_stopped

text \<open>\<open>ew_owed\<close> counts the threads that have left the first half of \<^verbatim>\<open>queueInLoop\<close> or
  \<^verbatim>\<open>quit\<close> and have still to write the wake-up; \<open>ew_queued\<close> and \<open>ew_ran\<close> record the functors.\<close>

record 'f el_world =
  ew_loop :: "'f EventLoop"
  ew_pc :: "'f el_pc"
  ew_owed :: nat
  ew_queued :: "'f list"
  ew_ran :: "'f list"

datatype el_label = By_loop | By_other | Quit_call

inductive el_step :: "el_label \<Rightarrow> 'f el_world \<Rightarrow> 'f el_world \<Rightarrow> bool" where
  enter: "ew_pc w = EL_start \<Longrightarrow>
    el_step By_loop w (w\<lparr>ew_loop := loop_enter (ew_loop w), ew_pc := EL_test\<rparr>)"
| test_on: "ew_pc w = EL_test \<Longrightarrow> loop_test (ew_loop w) = (True, e) \<Longrightarrow>
    el_step By_loop w (w\<lparr>ew_loop := e, ew_pc := EL_poll\<rparr>)"
| test_off: "ew_pc w = EL_test \<Longrightarrow> loop_test (ew_loop w) = (False, e) \<Longrightarrow>
    el_step By_loop w (w\<lparr>ew_loop := e, ew_pc := EL_stopped\<rparr>)"
| poll_io: "ew_pc w = EL_poll \<Longrightarrow> el_step By_loop w (w\<lparr>ew_pc := EL_events\<rparr>)"
| poll_wake: "ew_pc w = EL_poll \<Longrightarrow> 0 < el_wakeups (ew_loop w) \<Longrightarrow>
    el_step By_loop w (w\<lparr>ew_loop := el_handleRead (ew_loop w), ew_pc := EL_events\<rparr>)"
| loop_queue: "ew_pc w = EL_events \<or> (\<exists>fs. ew_pc w = EL_functors fs) \<Longrightarrow>
    el_step By_loop w (w\<lparr>ew_loop := queueInLoop True cb (ew_loop w), ew_queued := ew_queued w @ [cb]\<rparr>)"
| take_functors: "ew_pc w = EL_events \<Longrightarrow> take_pending (ew_loop w) = (fs, e) \<Longrightarrow>
    el_step By_loop w (w\<lparr>ew_loop := e, ew_pc := EL_functors fs\<rparr>)"
| call_functor: "ew_pc w = EL_functors (cb # fs) \<Longrightarrow>
    el_step By_loop w (w\<lparr>ew_pc := EL_functors fs, ew_ran := ew_ran w @ [cb]\<rparr>)"
| functors_done: "ew_pc w = EL_functors [] \<Longrightarrow>
    el_step By_loop w (w\<lparr>ew_loop := end_pending (ew_loop w), ew_pc := EL_test\<rparr>)"
| other_push: "el_step By_other w (w\<lparr>ew_loop := queue_push cb (ew_loop w), ew_owed := ew_owed w + 1,
    ew_queued := ew_queued w @ [cb]\<rparr>)"
| other_wake: "0 < ew_owed w \<Longrightarrow>
    el_step By_other w (w\<lparr>ew_loop := wakeup (ew_loop w), ew_owed := ew_owed w - 1\<rparr>)"
| other_quit: "el_step Quit_call w (w\<lparr>ew_loop := el_set_quit (ew_loop w), ew_owed := ew_owed w + 1\<rparr>)"

abbreviation el_any :: "'f el_world \<Rightarrow> 'f el_world \<Rightarrow> bool" where
  "el_any w w' \<equiv> \<exists>l. el_step l w w'"

abbreviation el_no_quit :: "'f el_world \<Rightarrow> 'f el_world \<Rightarrow> bool" where
  "el_no_quit w w' \<equiv> \<exists>l. l \<noteq> Quit_call \<and> el_step l w w'"

definition el_init :: "'f el_world" where
  "el_init = \<lparr>ew_loop = EventLoop_make, ew_pc = EL_start, ew_owed = 0, ew_queued = [], ew_ran = []\<rparr>"

lemmas el_defs = wakeup_def el_handleRead_def queue_push_def queueInLoop_def take_pending_def end_pending_def
  loop_enter_def loop_test_def el_set_quit_def

text \<open>The functors taken and not called yet.\<close>

fun in_hand :: "'f el_pc \<Rightarrow> 'f list" where
  "in_hand (EL_functors fs) = fs"
| "in_hand pc = []"

text \<open>
  The invariant: \<^verbatim>\<open>callingPendingFunctors_\<close> is set exactly while functors are called; every
  queued functor was called, is in hand or pending, in the order of queueing; outside the
  handlers, a pending functor or a request to quit comes with a wake-up that has been or will
  be written.
\<close>

definition el_inv :: "'f el_world \<Rightarrow> bool" where
  "el_inv w = ((el_calling (ew_loop w) \<longleftrightarrow> (\<exists>fs. ew_pc w = EL_functors fs)) \<and>
     ew_queued w = ew_ran w @ in_hand (ew_pc w) @ el_pending (ew_loop w) \<and>
     (ew_pc w \<noteq> EL_events \<and> el_pending (ew_loop w) \<noteq> [] \<longrightarrow> 0 < el_wakeups (ew_loop w) + ew_owed w) \<and>
     (ew_pc w = EL_poll \<and> el_quit (ew_loop w) \<longrightarrow> 0 < el_wakeups (ew_loop w) + ew_owed w))"

lemma el_inv_step: "el_step l w w' \<Longrightarrow> el_inv w \<Longrightarrow> el_inv w'"
  by (induction rule: el_step.induct) (auto simp: el_inv_def el_defs Let_def split: if_splits)

lemma el_reach: "el_any\<^sup>*\<^sup>* el_init w \<Longrightarrow> el_inv w"
proof (induction rule: rtranclp_induct)
  case base
  show ?case by (simp add: el_inv_def el_init_def EventLoop_make_def)
next
  case (step w w')
  then show ?case using el_inv_step by blast
qed

text \<open>C22. The functors queued in a loop, by its own thread or by others, are called in the order in
  which they were queued, each once: at any moment the queued ones are those called, those in
  hand and those pending.\<close>

theorem functors_in_order:
  assumes "el_any\<^sup>*\<^sup>* el_init w"
  shows "ew_queued w = ew_ran w @ in_hand (ew_pc w) @ el_pending (ew_loop w)"
  using el_reach [OF assms] by (simp add: el_inv_def)

text \<open>C30. No wake-up is lost: when the loop thread is about to block in \<^verbatim>\<open>poll\<close> while functors are
  pending or it was asked to quit, its wake-up descriptor is readable or a thread is about to
  write to it.\<close>

theorem no_lost_wakeup:
  assumes "el_any\<^sup>*\<^sup>* el_init w" "ew_pc w = EL_poll" "el_pending (ew_loop w) \<noteq> [] \<or> el_quit (ew_loop w)"
  shows "0 < el_wakeups (ew_loop w) \<or> 0 < ew_owed w"
  using el_reach [OF assms(1)] assms(2,3) by (auto simp: el_inv_def)

lemma unquit_step:
  assumes "el_step l w w'" "l \<noteq> Quit_call"
    "ew_pc w \<noteq> EL_stopped \<and> (ew_pc w = EL_start \<or> \<not> el_quit (ew_loop w))"
  shows "ew_pc w' \<noteq> EL_stopped \<and> (ew_pc w' = EL_start \<or> \<not> el_quit (ew_loop w'))"
  using assms by (induction rule: el_step.induct) (auto simp: el_defs Let_def split: if_splits)

lemma quit_lost:
  assumes "ew_pc w = EL_start" "el_no_quit\<^sup>*\<^sup>* w w'"
  shows "ew_pc w' \<noteq> EL_stopped"
proof -
  from assms(2) have "ew_pc w' \<noteq> EL_stopped \<and> (ew_pc w' = EL_start \<or> \<not> el_quit (ew_loop w'))"
  proof (induction rule: rtranclp_induct)
    case base
    show ?case using assms(1) by simp
  next
    case (step w1 w2)
    then show ?case using unquit_step by blast
  qed
  then show ?thesis by simp
qed

section \<open>The thread of a loop\<close>

text \<open>\<open>et_loop\<close> tells that \<^verbatim>\<open>loop_\<close> is not null.\<close>

record 'f EventLoopThread =
  et_loop :: bool
  et_exiting :: bool
  et_started :: bool
  et_world :: "'f el_world"

definition EventLoopThread_make :: "'f EventLoopThread" where
  "EventLoopThread_make = \<lparr>et_loop = False, et_exiting = False, et_started = False, et_world = el_init\<rparr>"

text \<open>\<^verbatim>\<open>startLoop\<close> up to its wait, and its return, which waits for the pointer.\<close>

definition startLoop_begin :: "'f EventLoopThread \<Rightarrow> 'f EventLoopThread option" where
  "startLoop_begin t = (if et_started t then None else Some (t\<lparr>et_started := True\<rparr>))"

definition startLoop_return :: "'f EventLoopThread \<Rightarrow> bool option" where
  "startLoop_return t = (if et_loop t then Some (et_loop t) else None)"

text \<open>\<^verbatim>\<open>threadFunc\<close>: it makes the loop and publishes its address, runs it, and takes the address
  back.\<close>

definition threadFunc_publish :: "'f EventLoopThread \<Rightarrow> 'f EventLoopThread" where
  "threadFunc_publish t = t\<lparr>et_world := el_init, et_loop := True\<rparr>"

definition threadFunc_end :: "'f EventLoopThread \<Rightarrow> 'f EventLoopThread" where
  "threadFunc_end t = t\<lparr>et_loop := False\<rparr>"

text \<open>The destructor up to its join, which is reached when the loop exists, and what the join waits
  for.\<close>

definition EventLoopThread_dtor :: "'f EventLoopThread \<Rightarrow> bool \<times> 'f EventLoopThread" where
  "EventLoopThread_dtor t =
     (let t1 = t\<lparr>et_exiting := True\<rparr>
      in if et_loop t1 then (True, t1\<lparr>et_world := (et_world t1)\<lparr>ew_loop := quit False (ew_loop (et_world t1))\<rparr>\<rparr>)
         else (False, t1))"

definition join_returns :: "'f el_world \<Rightarrow> bool" where
  "join_returns w = (ew_pc w = EL_stopped)"

text \<open>A loop thread that is destroyed after \<^verbatim>\<open>startLoop\<close> has returned but before the thread has
  entered \<^verbatim>\<open>loop\<close> is never joined: \<^verbatim>\<open>loop\<close> resets the flag that the destructor has set, and
  whatever the threads do, short of another call of \<^verbatim>\<open>quit\<close>, the loop does not end.\<close>

theorem loop_thread_dtor_hangs:
  assumes "EventLoopThread_dtor (threadFunc_publish t) = (True, t')" "el_no_quit\<^sup>*\<^sup>* (et_world t') w"
  shows "\<not> join_returns w"
proof -
  have "ew_pc (et_world t') = EL_start"
    using assms(1) by (auto simp: EventLoopThread_dtor_def threadFunc_publish_def el_init_def Let_def)
  from quit_lost [OF this assms(2)] show ?thesis by (simp add: join_returns_def)
qed

section \<open>The pool of loops\<close>

text \<open>The loops of the pool's threads are numbered; the base loop is \<open>None\<close>.\<close>

record EventLoopThreadPool =
  pool_started :: bool
  numThreads :: int
  pool_next :: nat
  pool_loops :: "nat list"

definition EventLoopThreadPool_make :: "int \<Rightarrow> EventLoopThreadPool option" where
  "EventLoopThreadPool_make n =
     (if n \<le> 0 then None else Some \<lparr>pool_started = False, numThreads = n, pool_next = 0, pool_loops = []\<rparr>)"

text \<open>\<^verbatim>\<open>start\<close> with the addresses that \<^verbatim>\<open>startLoop\<close> returns.\<close>

definition pool_start :: "(nat \<Rightarrow> nat) \<Rightarrow> EventLoopThreadPool \<Rightarrow> EventLoopThreadPool" where
  "pool_start addr p = p\<lparr>pool_started := True, pool_loops := pool_loops p @ map addr [0..<nat (numThreads p)]\<rparr>"

text \<open>\<^verbatim>\<open>getNextLoop\<close>; \<open>None\<close> on the outside is the failing assertion.\<close>

definition getNextLoop :: "EventLoopThreadPool \<Rightarrow> (nat option \<times> EventLoopThreadPool) option" where
  "getNextLoop p =
     (if \<not> pool_started p then None
      else if pool_loops p \<noteq> []
      then Some (Some (pool_loops p ! pool_next p), p\<lparr>pool_next := (pool_next p + 1) mod nat (numThreads p)\<rparr>)
      else Some (None, p))"

fun next_loops :: "nat \<Rightarrow> EventLoopThreadPool \<Rightarrow> nat option list" where
  "next_loops 0 p = []"
| "next_loops (Suc k) p = (case getNextLoop p of None \<Rightarrow> [] | Some (l, p') \<Rightarrow> l # next_loops k p')"

lemma next_loops_eq:
  assumes "pool_started p" "length (pool_loops p) = nat (numThreads p)" "0 < numThreads p" "pool_next p < nat (numThreads p)"
  shows "next_loops k p = map (\<lambda>i. Some (pool_loops p ! ((pool_next p + i) mod nat (numThreads p)))) [0..<k]"
  using assms
proof (induction k arbitrary: p)
  case (Suc k)
  define p' where "p' = p\<lparr>pool_next := (pool_next p + 1) mod nat (numThreads p)\<rparr>"
  have g: "getNextLoop p = Some (Some (pool_loops p ! pool_next p), p')"
    using Suc.prems by (auto simp: getNextLoop_def p'_def)
  have "next_loops k p' = map (\<lambda>i. Some (pool_loops p' ! ((pool_next p' + i) mod nat (numThreads p')))) [0..<k]"
    by (rule Suc.IH) (use Suc.prems in \<open>simp_all add: p'_def\<close>)
  also have "\<dots> = map (\<lambda>i. Some (pool_loops p ! ((pool_next p + Suc i) mod nat (numThreads p)))) [0..<k]"
    by (simp add: p'_def mod_simps)
  finally show ?case
    using g Suc.prems(4) by (simp add: upt_conv_Cons map_Suc_upt [symmetric] del: upt_Suc)
qed simp

text \<open>A started pool hands out its loops in turn: the \<open>k\<close> calls after the start return loop
  number \<open>i mod n\<close> at call \<open>i\<close>, so the connections are spread evenly over the threads.\<close>

theorem pool_round_robin:
  assumes "EventLoopThreadPool_make n = Some p"
  shows "next_loops k (pool_start addr p) = map (\<lambda>i. Some (addr (i mod nat n))) [0..<k]"
proof -
  have p: "0 < n" "p = \<lparr>pool_started = False, numThreads = n, pool_next = 0, pool_loops = []\<rparr>"
    using assms by (auto simp: EventLoopThreadPool_make_def split: if_splits)
  show ?thesis
    by (subst next_loops_eq) (use p in \<open>simp_all add: pool_start_def\<close>)
qed

section \<open>Witnesses\<close>

text \<open>A functor is queued by another thread while the loop is about to poll.\<close>

definition ex_polling :: "nat el_world" where
  "ex_polling = \<lparr>ew_loop = EventLoop_make\<lparr>el_looping := True, el_pending := [5]\<rparr>, ew_pc = EL_poll, ew_owed = 1,
     ew_queued = [5], ew_ran = []\<rparr>"

lemma ex_polls: "el_any\<^sup>*\<^sup>* el_init ex_polling"
proof -
  let ?w1 = "el_init\<lparr>ew_loop := loop_enter (ew_loop el_init), ew_pc := EL_test\<rparr> :: nat el_world"
  let ?w2 = "?w1\<lparr>ew_pc := EL_poll\<rparr>"
  have 1: "el_any el_init ?w1" using el_step.enter [of "el_init :: nat el_world"] by (auto simp: el_init_def)
  have 2: "el_any ?w1 ?w2"
    using el_step.test_on [of ?w1 "ew_loop ?w1"] by (auto simp: el_defs el_init_def EventLoop_make_def)
  have 3: "el_any ?w2 ex_polling"
    using el_step.other_push [of ?w2 5] by (auto simp: ex_polling_def el_defs el_init_def EventLoop_make_def)
  show ?thesis
    by (rule converse_rtranclp_into_rtranclp, rule 1, rule converse_rtranclp_into_rtranclp, rule 2, rule r_into_rtranclp, rule 3)
qed

theorem functors_in_order_witness:
  "ew_queued ex_polling = ew_ran ex_polling @ in_hand (ew_pc ex_polling) @ el_pending (ew_loop ex_polling)"
  by (rule functors_in_order [OF ex_polls])

theorem no_lost_wakeup_witness: "0 < el_wakeups (ew_loop ex_polling) \<or> 0 < ew_owed ex_polling"
  by (rule no_lost_wakeup [OF ex_polls]) (simp_all add: ex_polling_def)

theorem loop_thread_dtor_hangs_witness:
  "\<not> join_returns (et_world (snd (EventLoopThread_dtor (threadFunc_publish (EventLoopThread_make :: nat EventLoopThread)))))"
proof (rule loop_thread_dtor_hangs)
  show "EventLoopThread_dtor (threadFunc_publish (EventLoopThread_make :: nat EventLoopThread)) =
      (True, snd (EventLoopThread_dtor (threadFunc_publish (EventLoopThread_make :: nat EventLoopThread))))"
    by (simp add: EventLoopThread_dtor_def threadFunc_publish_def Let_def)
qed simp

theorem pool_round_robin_witness:
  "next_loops 3 (pool_start id \<lparr>pool_started = False, numThreads = 2, pool_next = 0, pool_loops = []\<rparr>) =
    map (\<lambda>i. Some (id (i mod nat 2))) [0..<3]"
  by (rule pool_round_robin) (simp add: EventLoopThreadPool_make_def)

end
