(* ===== verification/Timer.thy ===== *)
theory Timer
  imports Prelude "HOL-Library.Multiset"
begin

text \<open>
  \<^verbatim>\<open>WebServer/Timer.{h,cpp}\<close>: timer nodes and their manager. The nodes live in a store because
  a connection and the queue share them; the queue holds the expiry time and the address of a
  node. The contract of \<^verbatim>\<open>std::priority_queue\<close> is a locale, interpreted on a sorted list. The
  connection objects are values of the type variable.
\<close>

section \<open>The contract of the priority queue\<close>

locale min_queue =
  fixes key :: "'a \<Rightarrow> nat"
    and push :: "'a \<Rightarrow> 'q \<Rightarrow> 'q"
    and top :: "'q \<Rightarrow> 'a"
    and pop :: "'q \<Rightarrow> 'q"
    and content :: "'q \<Rightarrow> 'a multiset"
    and invar :: "'q \<Rightarrow> bool"
  assumes push_content: "invar q \<Longrightarrow> content (push x q) = add_mset x (content q)"
    and push_invar: "invar q \<Longrightarrow> invar (push x q)"
    and top_in: "invar q \<Longrightarrow> content q \<noteq> {#} \<Longrightarrow> top q \<in># content q"
    and top_least: "invar q \<Longrightarrow> x \<in># content q \<Longrightarrow> key (top q) \<le> key x"
    and pop_content: "invar q \<Longrightarrow> content q \<noteq> {#} \<Longrightarrow> content (pop q) = content q - {#top q#}"
    and pop_invar: "invar q \<Longrightarrow> content q \<noteq> {#} \<Longrightarrow> invar (pop q)"
begin

lemma above_top: "invar q \<Longrightarrow> b < key (top q) \<Longrightarrow> x \<in># content q \<Longrightarrow> b < key x"
  using top_least by (meson order_less_le_trans)

lemma pop_split: "invar q \<Longrightarrow> content q \<noteq> {#} \<Longrightarrow> content q = add_mset (top q) (content (pop q))"
  using pop_content top_in by simp

end

definition tq_push :: "nat \<times> nat \<Rightarrow> (nat \<times> nat) list \<Rightarrow> (nat \<times> nat) list" where
  "tq_push x q = insort_key fst x q"

definition tq_top :: "(nat \<times> nat) list \<Rightarrow> nat \<times> nat" where
  "tq_top q = hd q"

definition tq_pop :: "(nat \<times> nat) list \<Rightarrow> (nat \<times> nat) list" where
  "tq_pop q = tl q"

definition tq_sorted :: "(nat \<times> nat) list \<Rightarrow> bool" where
  "tq_sorted q = sorted (map fst q)"

lemmas tq_defs = tq_push_def tq_top_def tq_pop_def tq_sorted_def

interpretation tq: min_queue fst tq_push tq_top tq_pop mset tq_sorted
proof (unfold_locales, goal_cases)
  case (1 q x)
  then show ?case by (simp add: tq_defs)
next
  case (2 q x)
  then show ?case by (simp add: tq_defs sorted_insort_key)
next
  case (3 q)
  then show ?case by (cases q) (simp_all add: tq_defs)
next
  case (4 q x)
  then show ?case by (cases q) (auto simp: tq_defs)
next
  case (5 q)
  then show ?case by (cases q) (simp_all add: tq_defs)
next
  case (6 q)
  then show ?case by (cases q) (simp_all add: tq_defs)
qed

section \<open>Timer nodes\<close>

record timeval =
  tv_sec :: int
  tv_usec :: int

text \<open>Milliseconds since the last multiple of 10000 seconds.\<close>

definition now_ms :: "timeval \<Rightarrow> int" where
  "now_ms tv = (tv_sec tv mod 10000) * 1000 + tv_usec tv div 1000"

definition to_size :: "int \<Rightarrow> nat" where
  "to_size x = nat (x mod 2 ^ 64)"

record 'h TimerNode =
  tn_deleted :: bool
  tn_exp :: nat
  tn_http :: "'h option"

definition TimerNode_make :: "timeval \<Rightarrow> 'h \<Rightarrow> int \<Rightarrow> 'h TimerNode" where
  "TimerNode_make tv requestData timeout =
     \<lparr>tn_deleted = False, tn_exp = to_size (now_ms tv + timeout), tn_http = Some requestData\<rparr>"

text \<open>The copy constructor leaves \<^verbatim>\<open>deleted_\<close> as the memory has it.\<close>

definition TimerNode_copy :: "bool \<Rightarrow> 'h TimerNode \<Rightarrow> 'h TimerNode" where
  "TimerNode_copy garbage n = \<lparr>tn_deleted = garbage, tn_exp = 0, tn_http = tn_http n\<rparr>"

definition TimerNode_update :: "timeval \<Rightarrow> int \<Rightarrow> 'h TimerNode \<Rightarrow> 'h TimerNode" where
  "TimerNode_update tv timeout n = n\<lparr>tn_exp := to_size (now_ms tv + timeout)\<rparr>"

definition isValid :: "timeval \<Rightarrow> 'h TimerNode \<Rightarrow> bool \<times> 'h TimerNode" where
  "isValid tv n =
     (let temp = to_size (now_ms tv)
      in if temp < tn_exp n then (True, n) else (False, n\<lparr>tn_deleted := True\<rparr>))"

definition clearReq :: "'h TimerNode \<Rightarrow> 'h TimerNode" where
  "clearReq n = n\<lparr>tn_http := None, tn_deleted := True\<rparr>"

section \<open>The manager\<close>

record 'h TimerManager =
  tm_nodes :: "nat \<rightharpoonup> 'h TimerNode"
  tm_queue :: "(nat \<times> nat) list"
  tm_fresh :: nat

definition TimerManager_make :: "'h TimerManager" where
  "TimerManager_make = \<lparr>tm_nodes = Map.empty, tm_queue = [], tm_fresh = 0\<rparr>"

text \<open>\<^verbatim>\<open>addTimer\<close>: also the address that \<^verbatim>\<open>linkTimer\<close> stores in the connection.\<close>

definition addTimer :: "timeval \<Rightarrow> 'h \<Rightarrow> int \<Rightarrow> 'h TimerManager \<Rightarrow> nat \<times> 'h TimerManager" where
  "addTimer tv h timeout tm =
     (let node = TimerNode_make tv h timeout; a = tm_fresh tm
      in (a, tm\<lparr>tm_nodes := (tm_nodes tm)(a \<mapsto> node), tm_queue := tq_push (tn_exp node, a) (tm_queue tm),
               tm_fresh := a + 1\<rparr>))"

text \<open>A connection drops its timer: the node stays in the queue.\<close>

definition clear_node :: "nat \<Rightarrow> 'h TimerManager \<Rightarrow> 'h TimerManager" where
  "clear_node a tm =
     (case tm_nodes tm a of None \<Rightarrow> tm | Some n \<Rightarrow> tm\<lparr>tm_nodes := (tm_nodes tm)(a \<mapsto> clearReq n)\<rparr>)"

text \<open>The connections whose \<^verbatim>\<open>handleClose\<close> the destructor of a node calls.\<close>

definition node_dtor :: "'h TimerNode \<Rightarrow> 'h list" where
  "node_dtor n = (case tn_http n of None \<Rightarrow> [] | Some h \<Rightarrow> [h])"

text \<open>The loop of \<^verbatim>\<open>handleExpiredEvent\<close>. Every test reads the clock again; the result lists the
  connections that the destroyed nodes close.\<close>

function expire_loop :: "(nat \<Rightarrow> timeval) \<Rightarrow> 'h TimerManager \<Rightarrow> 'h list \<times> 'h TimerManager" where
  "expire_loop clk tm =
     (if tm_queue tm = [] then ([], tm)
      else
        (let a = snd (tq_top (tm_queue tm));
             n = the (tm_nodes tm a);
             tm' = tm\<lparr>tm_nodes := (tm_nodes tm)(a := None), tm_queue := tq_pop (tm_queue tm)\<rparr>
         in if tn_deleted n
            then (let (hs, tm'') = expire_loop clk tm' in (node_dtor n @ hs, tm''))
            else if \<not> fst (isValid (clk 0) n)
            then (let (hs, tm'') = expire_loop (\<lambda>k. clk (Suc k)) tm' in (node_dtor (snd (isValid (clk 0) n)) @ hs, tm''))
            else ([], tm)))"
  by pat_completeness auto
termination
  by (relation "measure (\<lambda>(c, tm). length (tm_queue tm))") (auto simp: tq_pop_def)

declare expire_loop.simps [simp del]

definition handleExpiredEvent :: "(nat \<Rightarrow> timeval) \<Rightarrow> 'h TimerManager \<Rightarrow> 'h list \<times> 'h TimerManager" where
  "handleExpiredEvent clk tm = expire_loop clk tm"

section \<open>When a node expires\<close>

text \<open>Real time in milliseconds.\<close>

definition wall_ms :: "timeval \<Rightarrow> int" where
  "wall_ms tv = tv_sec tv * 1000 + tv_usec tv div 1000"

definition tv_ok :: "timeval \<Rightarrow> bool" where
  "tv_ok tv = (0 \<le> tv_sec tv \<and> 0 \<le> tv_usec tv \<and> tv_usec tv < 1000000)"

lemma now_ms_bounds:
  assumes "tv_ok tv"
  shows "0 \<le> now_ms tv" "now_ms tv < 10 ^ 7" "now_ms tv = wall_ms tv mod 10 ^ 7"
proof -
  have u: "0 \<le> tv_usec tv div 1000" "tv_usec tv div 1000 < 1000" using assms by (auto simp: tv_ok_def)
  have s: "0 \<le> tv_sec tv mod 10000" "tv_sec tv mod 10000 < 10000" by simp_all
  show b: "0 \<le> now_ms tv" "now_ms tv < 10 ^ 7" using u s by (simp_all add: now_ms_def)
  have "wall_ms tv = now_ms tv + (tv_sec tv div 10000) * 10 ^ 7"
    unfolding wall_ms_def now_ms_def minus_div_mult_eq_mod [symmetric] by simp
  then have "wall_ms tv mod 10 ^ 7 = now_ms tv mod 10 ^ 7" by simp
  also have "\<dots> = now_ms tv" using b by (intro mod_pos_pos_trivial)
  finally show "now_ms tv = wall_ms tv mod 10 ^ 7" by simp
qed

lemma to_size_small: "0 \<le> x \<Longrightarrow> x < 2 ^ 64 \<Longrightarrow> int (to_size x) = x"
  by (simp add: to_size_def)

lemma TimerNode_exp:
  assumes "tv_ok tv" "0 \<le> timeout" "timeout < 2 ^ 31"
  shows "int (tn_exp (TimerNode_make tv h timeout)) = now_ms tv + timeout"
  using to_size_small [of "now_ms tv + timeout"] now_ms_bounds [OF assms(1)] assms(2,3)
  by (simp add: TimerNode_make_def)

lemma isValid_iff:
  assumes "tv_ok tv"
  shows "fst (isValid tv n) \<longleftrightarrow> now_ms tv < int (tn_exp n)"
proof -
  have "int (to_size (now_ms tv)) = now_ms tv"
    using now_ms_bounds(1,2) [OF assms] by (intro to_size_small) auto
  then have "to_size (now_ms tv) < tn_exp n \<longleftrightarrow> now_ms tv < int (tn_exp n)" by linarith
  then show ?thesis by (simp add: isValid_def Let_def)
qed

text \<open>A timer behaves as its timeout says if it expires before the next multiple of 10000
  seconds: at any later moment of that period it is valid exactly while the timeout has not
  passed.\<close>

theorem timer_expires:
  assumes "tv_ok t0" "tv_ok t1" "0 \<le> timeout" "timeout < 2 ^ 31" "wall_ms t1 div 10 ^ 7 = wall_ms t0 div 10 ^ 7"
  shows "fst (isValid t1 (TimerNode_make t0 h timeout)) \<longleftrightarrow> wall_ms t1 < wall_ms t0 + timeout"
proof -
  have "now_ms t1 - now_ms t0 = wall_ms t1 - wall_ms t0"
    unfolding now_ms_bounds(3) [OF assms(1)] now_ms_bounds(3) [OF assms(2)] minus_div_mult_eq_mod [symmetric]
      assms(5) by simp
  then show ?thesis
    unfolding isValid_iff [OF assms(2)] TimerNode_exp [OF assms(1,3,4)] by linarith
qed

text \<open>A timer set so late before a multiple of 10000 seconds that its expiry time reaches beyond
  it stays valid at every moment, for ever.\<close>

theorem timer_immortal:
  assumes "tv_ok t0" "0 \<le> timeout" "timeout < 2 ^ 31" "10 ^ 7 \<le> now_ms t0 + timeout" "tv_ok t1"
  shows "fst (isValid t1 (TimerNode_make t0 h timeout))"
  unfolding isValid_iff [OF assms(5)] TimerNode_exp [OF assms(1-3)] using now_ms_bounds(2) [OF assms(5)] assms(4)
  by linarith

section \<open>What the manager keeps\<close>

text \<open>The queue is sorted, its nodes exist with the times it has for them, and a deleted node
  has given up its connection.\<close>

definition tm_ok :: "'h TimerManager \<Rightarrow> bool" where
  "tm_ok tm = (tq_sorted (tm_queue tm) \<and> distinct (tm_queue tm) \<and>
     (\<forall>e a. (e, a) \<in> set (tm_queue tm) \<longleftrightarrow> (\<exists>n. tm_nodes tm a = Some n \<and> tn_exp n = e)) \<and>
     (\<forall>a n. tm_nodes tm a = Some n \<longrightarrow> a < tm_fresh tm \<and> (tn_deleted n \<longrightarrow> tn_http n = None)))"

lemma tm_okD:
  assumes "tm_ok tm"
  shows "tq_sorted (tm_queue tm)" "distinct (tm_queue tm)"
    "(e, a) \<in> set (tm_queue tm) \<longleftrightarrow> (\<exists>n. tm_nodes tm a = Some n \<and> tn_exp n = e)"
    "tm_nodes tm a = Some n \<Longrightarrow> a < tm_fresh tm" "tm_nodes tm a = Some n \<Longrightarrow> tn_deleted n \<Longrightarrow> tn_http n = None"
  using assms by (auto simp: tm_ok_def)

lemma tm_ok_make: "tm_ok TimerManager_make"
  by (simp add: tm_ok_def TimerManager_make_def tq_defs)

lemma addTimer_ok:
  assumes ok: "tm_ok tm"
  shows "tm_ok (snd (addTimer tv h timeout tm))"
proof -
  note d = tm_okD [OF ok]
  have fresh: "tm_nodes tm (tm_fresh tm) = None" using d(4) by (cases "tm_nodes tm (tm_fresh tm)") auto
  then have new: "(e, tm_fresh tm) \<notin> set (tm_queue tm)" for e using d(3) by auto
  have s: "tq_sorted (tq_push x (tm_queue tm))" for x using tq.push_invar d(1) .
  show ?thesis
    unfolding tm_ok_def
    using d(2-5) s new fresh
    by (auto simp: addTimer_def Let_def tq_push_def set_insort_key distinct_insort TimerNode_make_def less_Suc_eq
        split: if_splits)
qed

lemma clear_node_ok: "tm_ok tm \<Longrightarrow> tm_ok (clear_node a tm)"
  by (auto simp: tm_ok_def clear_node_def clearReq_def split: option.split)

section \<open>What an expiry round does\<close>

text \<open>The node at the top of the queue, and the manager without it.\<close>

definition top_node :: "'h TimerManager \<Rightarrow> 'h TimerNode" where
  "top_node tm = the (tm_nodes tm (snd (tq_top (tm_queue tm))))"

definition drop_top :: "'h TimerManager \<Rightarrow> 'h TimerManager" where
  "drop_top tm = tm\<lparr>tm_nodes := (tm_nodes tm)(snd (tq_top (tm_queue tm)) := None), tm_queue := tq_pop (tm_queue tm)\<rparr>"

lemma node_dtor_isValid [simp]: "node_dtor (snd (isValid tv n)) = node_dtor n"
  by (simp add: node_dtor_def isValid_def Let_def)

lemma expire_loop_cases:
  "expire_loop clk tm =
     (if tm_queue tm = [] then ([], tm)
      else if tn_deleted (top_node tm)
      then (node_dtor (top_node tm) @ fst (expire_loop clk (drop_top tm)), snd (expire_loop clk (drop_top tm)))
      else if \<not> fst (isValid (clk 0) (top_node tm))
      then (node_dtor (top_node tm) @ fst (expire_loop (\<lambda>k. clk (Suc k)) (drop_top tm)),
            snd (expire_loop (\<lambda>k. clk (Suc k)) (drop_top tm)))
      else ([], tm))"
  by (subst expire_loop.simps) (simp add: Let_def top_node_def drop_top_def split: prod.split)

lemma tm_ok_Cons:
  assumes "tm_ok tm" "tm_queue tm = (e, a) # q"
  shows "tm_ok (drop_top tm)" "tm_nodes tm a = Some (top_node tm)" "tn_exp (top_node tm) = e"
    "tm_queue (drop_top tm) = q" "tm_nodes (drop_top tm) = (tm_nodes tm)(a := None)" "tm_fresh (drop_top tm) = tm_fresh tm"
    "a \<notin> snd ` set q"
proof -
  note d = tm_okD [OF assms(1)]
  obtain n where n: "tm_nodes tm a = Some n" "tn_exp n = e" using d(3) [of e a] assms(2) by auto
  then show t: "tm_nodes tm a = Some (top_node tm)" "tn_exp (top_node tm) = e"
    using assms(2) by (simp_all add: top_node_def tq_defs)
  show q: "tm_queue (drop_top tm) = q" and nn: "tm_nodes (drop_top tm) = (tm_nodes tm)(a := None)"
    and fr: "tm_fresh (drop_top tm) = tm_fresh tm"
    using assms(2) by (simp_all add: drop_top_def tq_defs)
  have only: "(e', a) \<notin> set q" for e'
  proof
    assume "(e', a) \<in> set q"
    moreover from this have "e' = e" using d(3) [of e' a] assms(2) n by auto
    ultimately show False using d(2) assms(2) by simp
  qed
  then show "a \<notin> snd ` set q" by auto
  have "tq_sorted q" "distinct q" using d(1,2) assms(2) by (simp_all add: tq_defs)
  moreover have "(e', a') \<in> set q \<longleftrightarrow> (\<exists>n. ((tm_nodes tm)(a := None)) a' = Some n \<and> tn_exp n = e')" for e' a'
    using d(3) [of e' a'] only assms(2) by (cases "a' = a") auto
  ultimately show "tm_ok (drop_top tm)"
    unfolding tm_ok_def q nn fr using d(4,5) by (auto split: if_splits)
qed

text \<open>A round removes a first part of the queue and closes the connections of its nodes.\<close>

definition node_conns :: "'h TimerManager \<Rightarrow> (nat \<times> nat) list \<Rightarrow> 'h list" where
  "node_conns tm es = concat (map (\<lambda>(e, a). node_dtor (the (tm_nodes tm a))) es)"

lemma node_conns_upd: "a \<notin> snd ` set es \<Longrightarrow> tm_nodes tm' = (tm_nodes tm)(a := None) \<Longrightarrow> node_conns tm' es = node_conns tm es"
  unfolding node_conns_def by (intro arg_cong [where f = concat] map_cong) force+

definition removed :: "nat \<Rightarrow> 'h TimerManager \<Rightarrow> 'h TimerManager \<Rightarrow> bool" where
  "removed k tm tm' = (tm_ok tm' \<and> tm_queue tm' = drop k (tm_queue tm) \<and> tm_fresh tm' = tm_fresh tm \<and>
     tm_nodes tm' = tm_nodes tm |` (- snd ` set (take k (tm_queue tm))))"

lemma removed_Cons:
  assumes "tm_ok tm" "tm_queue tm = (e, a) # q" "removed k (drop_top tm) tm'"
  shows "removed (Suc k) tm tm'"
    "node_conns tm (take (Suc k) (tm_queue tm)) = node_dtor (top_node tm) @ node_conns (drop_top tm) (take k q)"
proof -
  note c = tm_ok_Cons [OF assms(1,2)]
  have "a \<notin> snd ` set (take k q)" using c(7) set_take_subset [of k q] by auto
  from node_conns_upd [OF this c(5)]
  show "node_conns tm (take (Suc k) (tm_queue tm)) = node_dtor (top_node tm) @ node_conns (drop_top tm) (take k q)"
    using assms(2) c(2) by (simp add: node_conns_def)
  show "removed (Suc k) tm tm'"
    using assms(2,3) c by (auto simp: removed_def restrict_map_def fun_eq_iff)
qed

text \<open>A node leaves the queue because it was deleted or not valid at some reading of the clock.\<close>

definition due :: "(nat \<Rightarrow> timeval) \<Rightarrow> 'h TimerNode \<Rightarrow> bool" where
  "due clk n \<longleftrightarrow> tn_deleted n \<or> (\<exists>k. \<not> fst (isValid (clk k) n))"

definition all_due :: "(nat \<Rightarrow> timeval) \<Rightarrow> 'h TimerManager \<Rightarrow> (nat \<times> nat) list \<Rightarrow> bool" where
  "all_due clk tm es \<longleftrightarrow> (\<forall>(e, a) \<in> set es. due clk (the (tm_nodes tm a)))"

lemma all_due_Cons:
  fixes tm :: "'h TimerManager"
  assumes "tm_ok tm" "tm_queue tm = (e, a) # q" "all_due clk' (drop_top tm) (take k q)"
    "\<And>n :: 'h TimerNode. due clk' n \<Longrightarrow> due clk n" "due clk (top_node tm)"
  shows "all_due clk tm (take (Suc k) (tm_queue tm))"
proof -
  note c = tm_ok_Cons [OF assms(1,2)]
  have "due clk (the (tm_nodes tm a'))" if m: "(e', a') \<in> set (take k q)" for e' a'
  proof -
    have "a' \<noteq> a" using c(7) m set_take_subset [of k q] by force
    moreover have "due clk' (the (tm_nodes (drop_top tm) a'))" using m assms(3) by (auto simp: all_due_def)
    ultimately show ?thesis using assms(4) c(5) by simp
  qed
  with assms(2,5) c(2) show ?thesis by (auto simp: all_due_def)
qed

lemma expire_loop_spec:
  "tm_ok tm \<Longrightarrow> \<exists>k. removed k tm (snd (expire_loop clk tm)) \<and>
    fst (expire_loop clk tm) = node_conns tm (take k (tm_queue tm)) \<and> all_due clk tm (take k (tm_queue tm))"
proof (induction "length (tm_queue tm)" arbitrary: tm clk rule: less_induct)
  case less
  have same: "removed 0 tm tm \<and> [] = node_conns tm (take 0 (tm_queue tm)) \<and> all_due clk tm (take 0 (tm_queue tm))"
    using less.prems by (simp add: removed_def node_conns_def restrict_map_def all_due_def)
  show ?case
  proof (cases "tm_queue tm")
    case Nil
    then show ?thesis using same by (subst (1 2) expire_loop_cases) (auto intro: exI [of _ 0])
  next
    case (Cons x q)
    then obtain e a where q: "tm_queue tm = (e, a) # q" by (cases x) auto
    note c = tm_ok_Cons [OF less.prems q]
    have step: "\<exists>k. removed k tm (snd (expire_loop clk' (drop_top tm))) \<and>
        node_dtor (top_node tm) @ fst (expire_loop clk' (drop_top tm)) = node_conns tm (take k (tm_queue tm)) \<and>
        all_due clk tm (take k (tm_queue tm))"
      if "due clk (top_node tm)" "\<And>n :: 'a TimerNode. due clk' n \<Longrightarrow> due clk n" for clk' :: "nat \<Rightarrow> timeval"
    proof -
      obtain k where k: "removed k (drop_top tm) (snd (expire_loop clk' (drop_top tm)))"
        "fst (expire_loop clk' (drop_top tm)) = node_conns (drop_top tm) (take k q)"
        "all_due clk' (drop_top tm) (take k q)"
        using less.hyps [of "drop_top tm" clk'] c(1,4) q by auto
      with removed_Cons [OF less.prems q k(1)] all_due_Cons [OF less.prems q k(3) that(2,1)] show ?thesis
        by (intro exI [of _ "Suc k"]) simp
    qed
    have later: "due (\<lambda>k. clk (Suc k)) n \<Longrightarrow> due clk n" for n :: "'a TimerNode" by (auto simp: due_def)
    show ?thesis
    proof (cases "tn_deleted (top_node tm) \<or> \<not> fst (isValid (clk 0) (top_node tm))")
      case True
      then have "due clk (top_node tm)" by (auto simp: due_def)
      with step [of clk] step [OF _ later] True show ?thesis
        by (subst (1 2) expire_loop_cases) (auto simp: q)
    next
      case False
      then show ?thesis using same by (subst (1 2) expire_loop_cases) (auto simp: q intro: exI [of _ 0])
    qed
  qed
qed

text \<open>With a clock that stands still for the round, what is left is later than it.\<close>

lemma expire_loop_rest:
  "tm_ok tm \<Longrightarrow> (\<And>k. tv_ok (clk k) \<and> now_ms (clk k) = t) \<Longrightarrow>
    (e, a) \<in> set (tm_queue (snd (expire_loop clk tm))) \<Longrightarrow> t < int e"
proof (induction "length (tm_queue tm)" arbitrary: tm clk rule: less_induct)
  case less
  show ?case
  proof (cases "tm_queue tm")
    case Nil
    then show ?thesis using less.prems(3) by (subst (asm) expire_loop_cases) simp
  next
    case (Cons x q)
    then obtain e' a' where q: "tm_queue tm = (e', a') # q" by (cases x) auto
    note c = tm_ok_Cons [OF less.prems(1) q]
    have IH: "(e, a) \<in> set (tm_queue (snd (expire_loop clk' (drop_top tm)))) \<Longrightarrow> t < int e"
      if "\<And>k. tv_ok (clk' k) \<and> now_ms (clk' k) = t" for clk'
      using less.hyps [of "drop_top tm" clk'] c(1,4) q that by simp
    have stop: "t < int e" if "fst (isValid (clk 0) (top_node tm))" "(e, a) \<in> set (tm_queue tm)"
    proof -
      have "t < int e'" using that(1) isValid_iff [of "clk 0" "top_node tm"] less.prems(2) [of 0] c(3) by simp
      moreover have "e' \<le> e"
        using tq.top_least [OF tm_okD(1) [OF less.prems(1)], of "(e, a)"] that(2) q by (auto simp: tq_defs)
      ultimately show ?thesis by simp
    qed
    show ?thesis
      using less.prems(3) IH [of clk] IH [of "\<lambda>k. clk (Suc k)"] less.prems(2) stop
      by (subst (asm) expire_loop_cases) (auto simp: q split: if_splits)
  qed
qed

lemma node_conns_filter:
  assumes "\<And>e a. (e, a) \<in> set es \<Longrightarrow> \<not> P (e, a) \<Longrightarrow> tn_http (the (tm_nodes tm a)) = None"
  shows "node_conns tm es = node_conns tm (filter P es)"
  using assms
proof (induction es)
  case (Cons x es)
  obtain e a where x: "x = (e, a)" by (cases x)
  have "tn_http (the (tm_nodes tm a)) = None" if "\<not> P (e, a)" using Cons.prems [of e a] that x by simp
  then have "\<not> P (e, a) \<Longrightarrow> node_dtor (the (tm_nodes tm a)) = []" by (simp add: node_dtor_def)
  with Cons x show ?case by (auto simp: node_conns_def)
qed (simp add: node_conns_def)

text \<open>An expiry round closes exactly the connections of the live timers whose time has come, in
  the order of their times; every timer left in the queue is later, and no live timer that is
  later is touched.\<close>

theorem expiry_round:
  assumes ok: "tm_ok tm" and clk: "\<And>k. tv_ok (clk k) \<and> now_ms (clk k) = t"
    and r: "handleExpiredEvent clk tm = (hs, tm')"
  shows "hs = node_conns tm (filter (\<lambda>(e, a). int e \<le> t) (tm_queue tm)) \<and>
    (\<forall>(e, a) \<in> set (tm_queue tm'). t < int e) \<and>
    (\<forall>a n. tm_nodes tm a = Some n \<longrightarrow> \<not> tn_deleted n \<longrightarrow> t < int (tn_exp n) \<longrightarrow> tm_nodes tm' a = Some n)"
proof -
  note d = tm_okD [OF ok]
  obtain k where k: "removed k tm tm'" "hs = node_conns tm (take k (tm_queue tm))" "all_due clk tm (take k (tm_queue tm))"
    using expire_loop_spec [OF ok, of clk] r by (auto simp: handleExpiredEvent_def)
  have rest: "t < int e" if "(e, a) \<in> set (tm_queue tm')" for e a
    using expire_loop_rest [of tm clk t e a] ok clk that r by (simp add: handleExpiredEvent_def)
  have due: "int e \<le> t \<or> tn_deleted (the (tm_nodes tm a))" if m: "(e, a) \<in> set (take k (tm_queue tm))" for e a
  proof -
    obtain n where n: "tm_nodes tm a = Some n" "tn_exp n = e" using d(3) [of e a] in_set_takeD [OF m] by auto
    with m k(3) have "due clk n" by (auto simp: all_due_def)
    moreover have "fst (isValid (clk j) n) \<longleftrightarrow> t < int e" for j
      using isValid_iff [of "clk j" n] clk [of j] n(2) by simp
    ultimately show ?thesis using n(1) by (auto simp: due_def)
  qed
  have live: "tn_http (the (tm_nodes tm a)) = None" if m: "(e, a) \<in> set (take k (tm_queue tm))" "\<not> int e \<le> t" for e a
  proof -
    obtain n where "tm_nodes tm a = Some n" using d(3) [of e a] in_set_takeD [OF m(1)] by auto
    with due [OF m(1)] m(2) d(5) show ?thesis by auto
  qed
  have "tm_queue tm' = drop k (tm_queue tm)" using k(1) by (simp add: removed_def)
  then have "filter (\<lambda>(e, a). int e \<le> t) (drop k (tm_queue tm)) = []"
    using rest by (fastforce simp: filter_empty_conv)
  then have "filter (\<lambda>(e, a). int e \<le> t) (tm_queue tm) = filter (\<lambda>(e, a). int e \<le> t) (take k (tm_queue tm))"
    by (metis append.right_neutral append_take_drop_id filter_append)
  moreover have "hs = node_conns tm (filter (\<lambda>(e, a). int e \<le> t) (take k (tm_queue tm)))"
    unfolding k(2) by (rule node_conns_filter) (use live in auto)
  moreover have "tm_nodes tm' a = Some n"
    if n: "tm_nodes tm a = Some n" "\<not> tn_deleted n" "t < int (tn_exp n)" for a n
  proof -
    have "a \<notin> snd ` set (take k (tm_queue tm))"
    proof
      assume "a \<in> snd ` set (take k (tm_queue tm))"
      then obtain e where e: "(e, a) \<in> set (take k (tm_queue tm))" by auto
      moreover have "e = tn_exp n" using d(3) [of e a] in_set_takeD [OF e] n(1) by auto
      ultimately show False using due [OF e] n by auto
    qed
    with k(1) n(1) show ?thesis by (simp add: removed_def restrict_map_def)
  qed
  ultimately show ?thesis using rest by auto
qed

section \<open>Witnesses\<close>

definition tv_at :: "int \<Rightarrow> timeval" where
  "tv_at s = \<lparr>tv_sec = s, tv_usec = 0\<rparr>"

theorem timer_expires_witness:
  "fst (isValid (tv_at 101) (TimerNode_make (tv_at 100) () 2000)) \<longleftrightarrow> wall_ms (tv_at 101) < wall_ms (tv_at 100) + 2000"
  by (rule timer_expires) (simp_all add: tv_at_def tv_ok_def wall_ms_def)

theorem timer_immortal_witness: "fst (isValid (tv_at 15000) (TimerNode_make (tv_at 9999) () 2000))"
  by (rule timer_immortal) (simp_all add: tv_at_def tv_ok_def now_ms_def)

text \<open>Two connections with timers of 2 and 5 seconds, looked at after 3 seconds.\<close>

definition ex_tm :: "nat TimerManager" where
  "ex_tm = snd (addTimer (tv_at 100) 8 2000 (snd (addTimer (tv_at 100) 7 5000 TimerManager_make)))"

theorem expiry_round_witness:
  "fst (handleExpiredEvent (\<lambda>k. tv_at 103) ex_tm) = node_conns ex_tm (filter (\<lambda>(e, a). int e \<le> 103000) (tm_queue ex_tm))"
proof -
  have ok: "tm_ok ex_tm" unfolding ex_tm_def by (intro addTimer_ok tm_ok_make)
  have clk: "tv_ok (tv_at 103) \<and> now_ms (tv_at 103) = 103000" by (simp add: tv_ok_def tv_at_def now_ms_def)
  show ?thesis
    using expiry_round [OF ok, of "\<lambda>k. tv_at 103" 103000] clk
    by (metis (no_types, lifting) prod.collapse)
qed

end
