(* ===== verification/Poller.thy ===== *)
theory Poller
  imports HttpData Timer
begin

text \<open>
  \<^verbatim>\<open>WebServer/Channel\<close> and \<^verbatim>\<open>WebServer/Epoll\<close> with the connections of one loop: the dispatch
  of events, the poller's tables, the timers of the connections and the shared ownership of the
  connection objects, as a step relation. A connection object is a number; its channel has the
  same number. The result of \<^verbatim>\<open>epoll_ctl\<close>, the clock and what happens on the sockets are
  arguments of the steps.
\<close>

section \<open>Channels\<close>

definition EPOLLPRI :: "32 word" where "EPOLLPRI = 0x002"
definition EPOLLERR :: "32 word" where "EPOLLERR = 0x008"
definition EPOLLHUP :: "32 word" where "EPOLLHUP = 0x010"
definition EPOLLRDHUP :: "32 word" where "EPOLLRDHUP = 0x2000"

definition call_handler :: "('s \<Rightarrow> 's) option \<Rightarrow> 's \<Rightarrow> 's" where
  "call_handler h s = (case h of None \<Rightarrow> s | Some f \<Rightarrow> f s)"

text \<open>\<^verbatim>\<open>Channel::handleEvents\<close>, over whatever state the handlers work on; \<open>zero_events\<close> sets the
  channel's \<^verbatim>\<open>events_\<close> to 0.\<close>

definition handleEvents ::
  "('s \<Rightarrow> 's) \<Rightarrow> ('s \<Rightarrow> 's) option \<Rightarrow> ('s \<Rightarrow> 's) option \<Rightarrow> ('s \<Rightarrow> 's) option \<Rightarrow> ('s \<Rightarrow> 's) option \<Rightarrow>
    32 word \<Rightarrow> 's \<Rightarrow> 's" where
  "handleEvents zero_events readHandler writeHandler errorHandler connHandler revents s =
     (let s0 = zero_events s
      in if and revents EPOLLHUP \<noteq> 0 \<and> and revents EPOLLIN = 0 then zero_events s0
         else if and revents EPOLLERR \<noteq> 0 then zero_events (call_handler errorHandler s0)
         else
           (let s1 = (if and revents (or (or EPOLLIN EPOLLPRI) EPOLLRDHUP) \<noteq> 0 then call_handler readHandler s0 else s0);
                s2 = (if and revents EPOLLOUT \<noteq> 0 then call_handler writeHandler s1 else s1)
            in call_handler connHandler s2))"

text \<open>\<^verbatim>\<open>EqualAndUpdateLastEvents\<close>.\<close>

definition EqualAndUpdateLastEvents :: "32 word \<Rightarrow> 32 word \<Rightarrow> bool \<times> 32 word" where
  "EqualAndUpdateLastEvents last_events events = (last_events = events, events)"

text \<open>A channel without a holder, as those of the listening and of the wake-up descriptor: its events
  and last events, whether it is in the poller's table and what the kernel watches for; \<^verbatim>\<open>epoll_add\<close>
  and \<^verbatim>\<open>epoll_mod\<close> of it without a timeout.\<close>

record Channel =
  ch_events :: "32 word"
  ch_last :: "32 word"
  ch_in_table :: bool
  ch_interest :: "32 word option"

definition Channel_make :: Channel where
  "Channel_make = \<lparr>ch_events = 0, ch_last = 0, ch_in_table = False, ch_interest = None\<rparr>"

definition addToPoller :: "bool \<Rightarrow> Channel \<Rightarrow> Channel" where
  "addToPoller ctl_ok c =
     (let c1 = c\<lparr>ch_last := snd (EqualAndUpdateLastEvents (ch_last c) (ch_events c)), ch_in_table := True\<rparr>
      in if ctl_ok then c1\<lparr>ch_interest := Some (ch_events c1)\<rparr> else c1\<lparr>ch_in_table := False\<rparr>)"

definition updatePoller :: "bool \<Rightarrow> Channel \<Rightarrow> Channel" where
  "updatePoller ctl_ok c =
     (let (same, lst) = EqualAndUpdateLastEvents (ch_last c) (ch_events c);
          c1 = c\<lparr>ch_last := lst\<rparr>
      in if same then c1
         else if ctl_ok then c1\<lparr>ch_interest := Some (ch_events c1)\<rparr>
         else c1\<lparr>ch_in_table := False\<rparr>)"

text \<open>In the table, and watched for the events \<open>ev\<close> it last asked for.\<close>

definition watched :: "32 word \<Rightarrow> Channel \<Rightarrow> bool" where
  "watched ev c \<longleftrightarrow> ch_in_table c \<and> ch_last c = ev \<and> ch_interest c = Some ev"

lemma addToPoller_watched: "ch_events c = ev \<Longrightarrow> watched ev (addToPoller True c)"
  by (simp add: addToPoller_def watched_def EqualAndUpdateLastEvents_def Let_def)

lemma updatePoller_watched: "watched ev c \<Longrightarrow> ch_events c = ev \<Longrightarrow> watched ev (updatePoller ok c)"
  by (auto simp: updatePoller_def watched_def EqualAndUpdateLastEvents_def)

lemma updatePoller_off: "watched ev c \<Longrightarrow> ch_events c \<noteq> ev \<Longrightarrow> ch_interest (updatePoller True c) = Some (ch_events c)"
  by (auto simp: updatePoller_def watched_def EqualAndUpdateLastEvents_def)

lemma watched_events [simp]: "watched ev (c\<lparr>ch_events := e\<rparr>) = watched ev c"
  by (simp add: watched_def)

text \<open>A readable channel has its read handler called, then its connection handler.\<close>

lemma handleEvents_read:
  "handleEvents zero (Some rd) wr er (Some cn) EPOLLIN s = cn (rd (zero s))"
proof -
  have "and EPOLLIN EPOLLHUP = 0" "and EPOLLIN EPOLLERR = 0" "and EPOLLIN EPOLLOUT = 0"
    "and EPOLLIN (or (or EPOLLIN EPOLLPRI) EPOLLRDHUP) \<noteq> 0"
    by (simp_all add: EPOLLIN_def EPOLLHUP_def EPOLLERR_def EPOLLOUT_def EPOLLPRI_def EPOLLRDHUP_def)
  then show ?thesis by (simp add: handleEvents_def Let_def call_handler_def)
qed

text \<open>The events of a connection: the object, its socket and the calls of the poller, with no error
  handler installed.\<close>

type_synonym conn_state = "HttpData \<times> lworld \<times> poller_call list"

definition conn_zero :: "conn_state \<Rightarrow> conn_state" where
  "conn_zero s = (case s of (d, w, cs) \<Rightarrow> (d\<lparr>hd_events := 0\<rparr>, w, cs))"

definition conn_read :: "legacy_fs \<Rightarrow> conn_state \<Rightarrow> conn_state" where
  "conn_read fs s = (case s of (d, w, cs) \<Rightarrow> (case handleRead fs (d, w) of (d', w') \<Rightarrow> (d', w', cs)))"

definition conn_write :: "conn_state \<Rightarrow> conn_state" where
  "conn_write s = (case s of (d, w, cs) \<Rightarrow> (case handleWrite d w of (d', w') \<Rightarrow> (d', w', cs)))"

definition conn_conn :: "conn_state \<Rightarrow> conn_state" where
  "conn_conn s = (case s of (d, w, cs) \<Rightarrow> (case handleConn d of (d', calls) \<Rightarrow> (d', w, cs @ calls)))"

definition conn_events :: "legacy_fs \<Rightarrow> 32 word \<Rightarrow> HttpData \<Rightarrow> lworld \<Rightarrow> conn_state" where
  "conn_events fs revents d w =
     handleEvents conn_zero (Some (conn_read fs)) (Some conn_write) None (Some conn_conn) revents (d, w, [])"

section \<open>The poller\<close>

definition MAXFDS :: int where "MAXFDS = 100000"

text \<open>The live connection objects, the last events of their channels, the timer each is linked to, the
  two tables, the timers, the interest list of the kernel, the queued \<^verbatim>\<open>newEvent\<close> functors and the
  connections destroyed so far.\<close>

record Epoll =
  ep_conns :: "nat \<rightharpoonup> HttpData"
  ep_last :: "nat \<Rightarrow> 32 word"
  ep_timer :: "nat \<rightharpoonup> nat"
  fd2chan :: "fd \<rightharpoonup> nat"
  fd2http :: "fd \<rightharpoonup> nat"
  ep_tm :: "nat TimerManager"
  ep_reg :: "fd \<rightharpoonup> 32 word"
  ep_pend :: "nat list"
  ep_closed :: "nat list"

definition Epoll_make :: Epoll where
  "Epoll_make = \<lparr>ep_conns = Map.empty, ep_last = (\<lambda>c. 0), ep_timer = Map.empty, fd2chan = Map.empty,
     fd2http = Map.empty, ep_tm = TimerManager_make, ep_reg = Map.empty, ep_pend = [], ep_closed = []\<rparr>"

definition conn_fd :: "nat \<Rightarrow> Epoll \<Rightarrow> fd" where
  "conn_fd c s = hd_fd (the (ep_conns s c))"

definition set_conn :: "nat \<Rightarrow> HttpData \<Rightarrow> Epoll \<Rightarrow> Epoll" where
  "set_conn c d s = s\<lparr>ep_conns := (ep_conns s)(c \<mapsto> d)\<rparr>"

text \<open>\<^verbatim>\<open>Epoll::add_timer\<close>; the holder of the channel is the connection while it lives.\<close>

definition add_timer :: "timeval \<Rightarrow> nat \<Rightarrow> int \<Rightarrow> Epoll \<Rightarrow> Epoll" where
  "add_timer tv c timeout s =
     (case ep_conns s c of
        None \<Rightarrow> s
      | Some d \<Rightarrow>
          (case addTimer tv c timeout (ep_tm s) of
             (a, tm') \<Rightarrow> s\<lparr>ep_tm := tm', ep_timer := (ep_timer s)(c \<mapsto> a),
                          ep_conns := (ep_conns s)(c \<mapsto> linkTimer d)\<rparr>))"

definition epoll_add :: "timeval \<Rightarrow> bool \<Rightarrow> nat \<Rightarrow> int \<Rightarrow> Epoll \<Rightarrow> Epoll" where
  "epoll_add tv ctl_ok c timeout s =
     (let fd = conn_fd c s;
          s1 = (if 0 < timeout then (let s' = add_timer tv c timeout s in s'\<lparr>fd2http := (fd2http s')(fd \<mapsto> c)\<rparr>) else s);
          ev = hd_events (the (ep_conns s c));
          s2 = s1\<lparr>ep_last := (ep_last s1)(c := snd (EqualAndUpdateLastEvents (ep_last s1 c) ev)),
                  fd2chan := (fd2chan s1)(fd \<mapsto> c)\<rparr>
      in if ctl_ok then s2\<lparr>ep_reg := (ep_reg s2)(fd \<mapsto> ev)\<rparr> else s2\<lparr>fd2chan := (fd2chan s2)(fd := None)\<rparr>)"

definition epoll_mod :: "timeval \<Rightarrow> bool \<Rightarrow> nat \<Rightarrow> int \<Rightarrow> Epoll \<Rightarrow> Epoll" where
  "epoll_mod tv ctl_ok c timeout s =
     (let s1 = (if 0 < timeout then add_timer tv c timeout s else s);
          fd = conn_fd c s;
          ev = hd_events (the (ep_conns s c));
          (same, lst) = EqualAndUpdateLastEvents (ep_last s1 c) ev;
          s2 = s1\<lparr>ep_last := (ep_last s1)(c := lst)\<rparr>
      in if same then s2
         else if ctl_ok then s2\<lparr>ep_reg := (ep_reg s2)(fd \<mapsto> ev)\<rparr>
         else s2\<lparr>fd2chan := (fd2chan s2)(fd := None)\<rparr>)"

definition epoll_del :: "bool \<Rightarrow> nat \<Rightarrow> Epoll \<Rightarrow> Epoll" where
  "epoll_del ctl_ok c s =
     (let fd = conn_fd c s;
          s1 = (if ctl_ok then s\<lparr>ep_reg := (ep_reg s)(fd := None)\<rparr> else s)
      in s1\<lparr>fd2chan := (fd2chan s1)(fd := None), fd2http := (fd2http s1)(fd := None)\<rparr>)"

text \<open>\<^verbatim>\<open>getEventsRequest\<close>: the channels of the reported descriptors with their events; descriptors
  without a channel are skipped.\<close>

fun getEventsRequest :: "(fd \<times> 32 word) list \<Rightarrow> Epoll \<Rightarrow> (nat \<times> 32 word) list" where
  "getEventsRequest [] s = []"
| "getEventsRequest ((fd, ev) # evs) s =
     (case fd2chan s fd of
        Some c \<Rightarrow> (c, ev) # getEventsRequest evs s
      | None \<Rightarrow> getEventsRequest evs s)"

text \<open>\<^verbatim>\<open>poll\<close> over what the calls of \<^verbatim>\<open>epoll_wait\<close> report; \<open>None\<close> while it has not returned.\<close>

fun poll :: "(fd \<times> 32 word) list list \<Rightarrow> Epoll \<Rightarrow> (nat \<times> 32 word) list option" where
  "poll [] s = None"
| "poll (evs # waits) s =
     (let req_data = getEventsRequest evs s in if length req_data > 0 then Some req_data else poll waits s)"

section \<open>Ownership of a connection\<close>

text \<open>The timer is unlinked and its node gives up the connection.\<close>

definition drop_timer :: "nat \<Rightarrow> Epoll \<Rightarrow> Epoll" where
  "drop_timer c s =
     (case ep_timer s c of
        None \<Rightarrow> s
      | Some a \<Rightarrow> s\<lparr>ep_tm := clear_node a (ep_tm s), ep_timer := (ep_timer s)(c := None)\<rparr>)"

text \<open>The shared pointers to a connection: a queued functor, the table, a timer node.\<close>

definition owned :: "nat \<Rightarrow> Epoll \<Rightarrow> bool" where
  "owned c s \<longleftrightarrow> c \<in> set (ep_pend s) \<or> fd2http s (conn_fd c s) = Some c \<or>
     list_ex (\<lambda>(e, a). tn_http (the (tm_nodes (ep_tm s) a)) = Some c) (tm_queue (ep_tm s))"

text \<open>The last owner has gone: the destructor closes the descriptor, which also ends its registration.\<close>

definition reap :: "nat \<Rightarrow> Epoll \<Rightarrow> Epoll" where
  "reap c s = (if ep_conns s c \<noteq> None \<and> \<not> owned c s
     then s\<lparr>ep_conns := (ep_conns s)(c := None), ep_closed := ep_closed s @ [c],
            ep_reg := (ep_reg s)(conn_fd c s := None)\<rparr>
     else s)"

fun poller_call :: "timeval \<Rightarrow> bool \<Rightarrow> nat \<Rightarrow> poller_call \<Rightarrow> Epoll \<Rightarrow> Epoll" where
  "poller_call tv ctl_ok c (Update_poller ev timeout) s = epoll_mod tv ctl_ok c timeout s"
| "poller_call tv ctl_ok c Remove_from_poller s = epoll_del ctl_ok c s"

section \<open>Steps of the loop\<close>

definition accept_conn :: "nat \<Rightarrow> fd \<Rightarrow> Epoll \<Rightarrow> Epoll" where
  "accept_conn c fd s = s\<lparr>ep_conns := (ep_conns s)(c \<mapsto> HttpData_make fd), ep_pend := ep_pend s @ [c]\<rparr>"

text \<open>The functor \<^verbatim>\<open>HttpData::newEvent\<close>.\<close>

definition run_newEvent :: "timeval \<Rightarrow> bool \<Rightarrow> nat \<Rightarrow> Epoll \<Rightarrow> Epoll" where
  "run_newEvent tv ctl_ok c s =
     (case ep_conns s c of
        None \<Rightarrow> s
      | Some d \<Rightarrow>
          (case newEvent d of
             (d', ev, timeout) \<Rightarrow>
               (let s1 = epoll_add tv ctl_ok c timeout (set_conn c d' s)
                in reap c (s1\<lparr>ep_pend := remove1 c (ep_pend s1)\<rparr>))))"

text \<open>The handlers of a channel with a reported event.\<close>

definition run_event :: "legacy_fs \<Rightarrow> timeval \<Rightarrow> bool \<Rightarrow> 32 word \<Rightarrow> lworld \<Rightarrow> nat \<Rightarrow> Epoll \<Rightarrow> Epoll" where
  "run_event fs tv ctl_ok revents w c s =
     (case ep_conns s c of
        None \<Rightarrow> s
      | Some d \<Rightarrow>
          (case conn_events fs revents d w of
             (d', w', calls) \<Rightarrow>
               (let s1 = set_conn c d' s;
                    s2 = (if hd_timer d' then s1 else drop_timer c s1)
                in reap c (fold (poller_call tv ctl_ok c) calls s2))))"

text \<open>A timer node is destroyed with its connection.\<close>

definition close_expired :: "bool \<Rightarrow> nat \<Rightarrow> Epoll \<Rightarrow> Epoll" where
  "close_expired ctl_ok c s =
     (case ep_conns s c of
        None \<Rightarrow> s
      | Some d \<Rightarrow> reap c (epoll_del ctl_ok c (set_conn c (fst (handleClose d)) s)))"

text \<open>The weak pointers to destroyed nodes have expired.\<close>

definition expire_weak :: "nat TimerManager \<Rightarrow> Epoll \<Rightarrow> Epoll" where
  "expire_weak tm' s = s\<lparr>ep_tm := tm', ep_timer := (\<lambda>c. case ep_timer s c of
     None \<Rightarrow> None | Some a \<Rightarrow> if tm_nodes tm' a = None then None else Some a)\<rparr>"

definition handleExpired :: "(nat \<Rightarrow> timeval) \<Rightarrow> bool \<Rightarrow> Epoll \<Rightarrow> Epoll" where
  "handleExpired clk ctl_ok s =
     (case handleExpiredEvent clk (ep_tm s) of (hs, tm') \<Rightarrow> fold (close_expired ctl_ok) hs (expire_weak tm' s))"

datatype ep_label = L_accept | L_new | L_event nat | L_expire

text \<open>An accepted descriptor is one that no live connection has.\<close>

inductive ep_step :: "ep_label \<Rightarrow> Epoll \<Rightarrow> Epoll \<Rightarrow> bool" where
  accept: "ep_conns s c = None \<Longrightarrow> c \<notin> set (ep_closed s) \<Longrightarrow> 0 < fd \<Longrightarrow> fd < MAXFDS \<Longrightarrow>
    (\<forall>c' d'. ep_conns s c' = Some d' \<longrightarrow> hd_fd d' \<noteq> fd) \<Longrightarrow> ep_step L_accept s (accept_conn c fd s)"
| new_event: "c \<in> set (ep_pend s) \<Longrightarrow> ep_step L_new s (run_newEvent tv ctl_ok c s)"
| event: "fd2chan s fd = Some c \<Longrightarrow> ep_step (L_event c) s (run_event fs tv ctl_ok revents w c s)"
| expire: "ep_step L_expire s (handleExpired clk ctl_ok s)"

end
