(* ===== verification/Server.thy ===== *)
theory Server
  imports EventLoop Util Poller
begin

text \<open>
  \<^verbatim>\<open>WebServer/Server\<close> and \<^verbatim>\<open>WebServer/Main.cpp\<close>: the listening channel, the handlers of its
  events and the options of the program. What \<^verbatim>\<open>accept\<close> and \<^verbatim>\<open>fcntl\<close> return is a script of
  the run; when it is used up, \<^verbatim>\<open>accept\<close> finds no connection.
\<close>

section \<open>The listening channel\<close>

definition Server_MAXFDS :: int where "Server_MAXFDS = 100000"

text \<open>The server with the channel of its listening descriptor: its events and last events, whether it
  is in the poller's table and what the kernel watches for. The last two fields are the
  \<^verbatim>\<open>newEvent\<close> functors queued in the loops (\<open>None\<close> is the base loop) and the descriptors that were
  closed.\<close>

record Server =
  sv_pool :: EventLoopThreadPool
  sv_started :: bool
  sv_port :: int
  sv_listenFd :: fd
  sv_chan :: Channel
  sv_queued :: "(nat option \<times> fd) list"
  sv_closed :: "fd list"

text \<open>The constructor; \<open>None\<close> when it aborts. \<open>fl fd\<close> is what the two \<^verbatim>\<open>fcntl\<close> calls return.\<close>

definition Server_make :: "bind_env \<Rightarrow> (fd \<Rightarrow> int \<times> int) \<Rightarrow> int \<Rightarrow> int \<Rightarrow> Server option" where
  "Server_make be fl threadNum port =
     (case EventLoopThreadPool_make threadNum of
        None \<Rightarrow> None
      | Some p \<Rightarrow>
          (let listenFd = fst (socket_bind_listen be port)
           in if setSocketNonBlocking (fst (fl listenFd)) (snd (fl listenFd)) < 0 then None
              else Some \<lparr>sv_pool = p, sv_started = False, sv_port = port, sv_listenFd = listenFd,
                         sv_chan = Channel_make, sv_queued = [], sv_closed = []\<rparr>))"

definition on_chan :: "(Channel \<Rightarrow> Channel) \<Rightarrow> Server \<Rightarrow> Server" where
  "on_chan f s = s\<lparr>sv_chan := f (sv_chan s)\<rparr>"

definition set_events :: "32 word \<Rightarrow> Server \<Rightarrow> Server" where
  "set_events ev s = on_chan (\<lambda>c. c\<lparr>ch_events := ev\<rparr>) s"

definition server_start :: "(nat \<Rightarrow> nat) \<Rightarrow> bool \<Rightarrow> Server \<Rightarrow> Server" where
  "server_start addr ctl_ok s =
     (on_chan (addToPoller ctl_ok) (set_events (or EPOLLIN EPOLLET) (s\<lparr>sv_pool := pool_start addr (sv_pool s)\<rparr>)))
       \<lparr>sv_started := True\<rparr>"

section \<open>Accepting\<close>

text \<open>An outcome of \<^verbatim>\<open>accept\<close>: the descriptor with what \<^verbatim>\<open>fcntl\<close> then returns for it, or a failure.\<close>

datatype accept_result = Acc fd int int | Acc_err errno

text \<open>The loop of \<^verbatim>\<open>handNewConn\<close>: whether it ran to its end, the state and the rest of the script.
  \<open>None\<close> is a failing assertion of the pool.\<close>

fun accept_conns :: "accept_result list \<Rightarrow> Server \<Rightarrow> (bool \<times> Server \<times> accept_result list) option" where
  "accept_conns [] s = Some (True, s, [])"
| "accept_conns (Acc_err e # rs) s = Some (True, s, rs)"
| "accept_conns (Acc accept_fd getfl setfl # rs) s =
     (if \<not> 0 < accept_fd then Some (True, s, rs)
      else
        (case getNextLoop (sv_pool s) of
           None \<Rightarrow> None
         | Some (l, p') \<Rightarrow>
             (let s1 = s\<lparr>sv_pool := p'\<rparr>
              in if Server_MAXFDS \<le> accept_fd then accept_conns rs (s1\<lparr>sv_closed := sv_closed s1 @ [accept_fd]\<rparr>)
                 else if setSocketNonBlocking getfl setfl < 0 then Some (False, s1, rs)
                 else accept_conns rs (s1\<lparr>sv_queued := sv_queued s1 @ [(l, accept_fd)]\<rparr>))))"

definition handNewConn :: "accept_result list \<Rightarrow> Server \<Rightarrow> (Server \<times> accept_result list) option" where
  "handNewConn rs s =
     (case accept_conns rs s of
        None \<Rightarrow> None
      | Some (to_end, s1, rs') \<Rightarrow>
          Some (if to_end then set_events (or EPOLLIN EPOLLET) s1 else s1, rs'))"

definition handThisConn :: "bool \<Rightarrow> Server \<Rightarrow> Server" where
  "handThisConn ctl_ok s = on_chan (updatePoller ctl_ok) s"

text \<open>The events of the listening channel; \<open>None\<close> once an assertion has failed.\<close>

type_synonym server_state = "(Server \<times> accept_result list) option"

definition server_zero :: "server_state \<Rightarrow> server_state" where
  "server_zero st = map_option (\<lambda>(s, rs). (set_events 0 s, rs)) st"

definition server_read :: "server_state \<Rightarrow> server_state" where
  "server_read st = (case st of None \<Rightarrow> None | Some (s, rs) \<Rightarrow> handNewConn rs s)"

definition server_conn :: "bool \<Rightarrow> server_state \<Rightarrow> server_state" where
  "server_conn ctl_ok st = map_option (\<lambda>(s, rs). (handThisConn ctl_ok s, rs)) st"

definition server_events :: "32 word \<Rightarrow> bool \<Rightarrow> accept_result list \<Rightarrow> Server \<Rightarrow> server_state" where
  "server_events revents ctl_ok rs s =
     handleEvents server_zero (Some server_read) None None (Some (server_conn ctl_ok)) revents (Some (s, rs))"

section \<open>The program\<close>

record main_options =
  mo_threads :: int
  mo_port :: int
  mo_log :: string

definition main_defaults :: main_options where
  "main_defaults = \<lparr>mo_threads = 4, mo_port = 80, mo_log = ''./WebServer.log''\<rparr>"

text \<open>The \<^verbatim>\<open>switch\<close> over what \<^verbatim>\<open>getopt\<close> returns, an option and its argument; \<open>None\<close> when the
  program aborts.\<close>

fun main_opts :: "(char \<times> string) list \<Rightarrow> main_options \<Rightarrow> main_options option" where
  "main_opts [] o' = Some o'"
| "main_opts ((opt, arg) # opts) o' =
     (if opt = CHR ''t'' then main_opts opts (o'\<lparr>mo_threads := atoi arg\<rparr>)
      else if opt = CHR ''l'' then
        (if length arg < 2 \<or> hd arg \<noteq> CHR ''/'' then None else main_opts opts (o'\<lparr>mo_log := arg\<rparr>))
      else if opt = CHR ''p'' then main_opts opts (o'\<lparr>mo_port := atoi arg\<rparr>)
      else main_opts opts o')"

definition main_setup :: "bind_env \<Rightarrow> (fd \<Rightarrow> int \<times> int) \<Rightarrow> (nat \<Rightarrow> nat) \<Rightarrow> bool \<Rightarrow> (char \<times> string) list \<Rightarrow>
    (main_options \<times> Server) option" where
  "main_setup be fl addr ctl_ok opts =
     (case main_opts opts main_defaults of
        None \<Rightarrow> None
      | Some o' \<Rightarrow>
          (case Server_make be fl (mo_threads o') (mo_port o') of
             None \<Rightarrow> None
           | Some s \<Rightarrow> Some (o', server_start addr ctl_ok s)))"

section \<open>A server that is accepting\<close>

text \<open>The state in which the main loop waits: the pool is started, the listening channel is in the
  table and its events are the ones the kernel watches for.\<close>

definition armed :: "Server \<Rightarrow> bool" where
  "armed s \<longleftrightarrow> pool_started (sv_pool s) \<and> 0 < numThreads (sv_pool s) \<and>
     length (pool_loops (sv_pool s)) = nat (numThreads (sv_pool s)) \<and> pool_next (sv_pool s) < nat (numThreads (sv_pool s)) \<and>
     watched (or EPOLLIN EPOLLET) (sv_chan s)"

text \<open>Whatever the options and the outcomes of the system calls, a set-up that does not abort and
  whose registration succeeds leaves a server that is accepting, on a valid port, if
  \<^verbatim>\<open>fcntl\<close> fails on the invalid descriptor: every failure of \<^verbatim>\<open>socket_bind_listen\<close> ends the program.\<close>

theorem main_setup_armed:
  assumes "main_setup be fl addr True opts = Some (o', s)" "fst (fl (-1)) = -1"
  shows "armed s \<and> 0 \<le> mo_port o' \<and> mo_port o' \<le> 65535 \<and> sv_listenFd s = be_socket be \<and> sv_listenFd s \<noteq> -1"
proof -
  obtain s0 where s0: "Server_make be fl (mo_threads o') (mo_port o') = Some s0" and s: "s = server_start addr True s0"
    using assms(1) by (auto simp: main_setup_def split: option.splits)
  obtain p where p: "EventLoopThreadPool_make (mo_threads o') = Some p"
    using s0 by (auto simp: Server_make_def split: option.splits)
  have ok: "fst (socket_bind_listen be (mo_port o')) \<noteq> -1"
    using s0 assms(2) p by (auto simp: Server_make_def Let_def setSocketNonBlocking_def split: if_splits)
  then have "0 \<le> mo_port o'" "mo_port o' \<le> 65535" "fst (socket_bind_listen be (mo_port o')) = be_socket be"
    by (auto simp: socket_bind_listen_def split: if_splits)
  moreover have "sv_listenFd s0 = fst (socket_bind_listen be (mo_port o'))" "sv_pool s0 = p"
    using s0 p by (auto simp: Server_make_def Let_def split: if_splits)
  moreover have "0 < mo_threads o'" "p = \<lparr>pool_started = False, numThreads = mo_threads o', pool_next = 0, pool_loops = []\<rparr>"
    using p by (auto simp: EventLoopThreadPool_make_def split: if_splits)
  ultimately show ?thesis
    using ok s by (simp add: armed_def server_start_def pool_start_def on_chan_def set_events_def addToPoller_watched)
qed

text \<open>Outcomes that \<^verbatim>\<open>handNewConn\<close> goes on after.\<close>

definition fine :: "accept_result \<Rightarrow> bool" where
  "fine r \<longleftrightarrow> (case r of Acc fd g f \<Rightarrow> 0 < fd \<and> (Server_MAXFDS \<le> fd \<or> setSocketNonBlocking g f = 0) | Acc_err e \<Rightarrow> False)"

definition acc_fd :: "accept_result \<Rightarrow> fd" where
  "acc_fd r = (case r of Acc fd g f \<Rightarrow> fd | Acc_err e \<Rightarrow> -1)"

text \<open>The loop that the \<open>i\<close>-th connection from here goes to.\<close>

definition turn :: "EventLoopThreadPool \<Rightarrow> nat \<Rightarrow> nat" where
  "turn p i = pool_loops p ! ((pool_next p + i) mod nat (numThreads p))"

definition advance :: "nat \<Rightarrow> EventLoopThreadPool \<Rightarrow> EventLoopThreadPool" where
  "advance k p = p\<lparr>pool_next := (pool_next p + k) mod nat (numThreads p)\<rparr>"

lemma turn_advance: "turn (advance (Suc 0) p) i = turn p (Suc i)" "advance k (advance (Suc 0) p) = advance (Suc k) p"
  by (simp_all add: turn_def advance_def mod_simps)

lemma armed_next:
  assumes "armed s"
  shows "getNextLoop (sv_pool s) = Some (Some (turn (sv_pool s) 0), advance (Suc 0) (sv_pool s))"
    "armed (s\<lparr>sv_pool := advance (Suc 0) (sv_pool s)\<rparr>)" "advance 0 (sv_pool s) = sv_pool s"
  using assms by (auto simp: armed_def getNextLoop_def turn_def advance_def)

lemma armed_frame [simp]:
  "armed (s\<lparr>sv_queued := q\<rparr>) = armed s" "armed (s\<lparr>sv_closed := c\<rparr>) = armed s" "armed (set_events e s) = armed s"
  by (simp_all add: armed_def set_events_def on_chan_def)

lemma set_events_sel [simp]:
  "sv_pool (set_events e s) = sv_pool s" "sv_queued (set_events e s) = sv_queued s" "sv_closed (set_events e s) = sv_closed s"
  "ch_events (sv_chan (set_events e s)) = e"
  by (simp_all add: set_events_def on_chan_def)

text \<open>The connections of a script with their loops.\<close>

definition placed :: "EventLoopThreadPool \<Rightarrow> accept_result list \<Rightarrow> (nat option \<times> fd) list" where
  "placed p rs = filter (\<lambda>(l, fd). fd < Server_MAXFDS) (map (\<lambda>i. (Some (turn p i), acc_fd (rs ! i))) [0..<length rs])"

lemma placed_Cons:
  "placed p (r # rs) = (if acc_fd r < Server_MAXFDS then [(Some (turn p 0), acc_fd r)] else []) @ placed (advance (Suc 0) p) rs"
proof -
  have "map (\<lambda>i. (Some (turn p i), acc_fd ((r # rs) ! i))) [0..<length (r # rs)] =
      (Some (turn p 0), acc_fd r) # map (\<lambda>i. (Some (turn (advance (Suc 0) p) i), acc_fd (rs ! i))) [0..<length rs]"
    by (simp only: length_Cons upt_conv_Cons [OF zero_less_Suc] map_Suc_upt [symmetric] list.map nth_Cons_0 map_map o_def
        nth_Cons_Suc turn_advance)
  then show ?thesis by (simp add: placed_def del: upt_Suc)
qed

lemma accept_conns_fine:
  assumes "armed s" "list_all fine rs"
  shows "accept_conns (rs @ rest) s = accept_conns rest (s\<lparr>sv_pool := advance (length rs) (sv_pool s),
      sv_queued := sv_queued s @ placed (sv_pool s) rs,
      sv_closed := sv_closed s @ filter (\<lambda>fd. Server_MAXFDS \<le> fd) (map acc_fd rs)\<rparr>)"
  using assms
proof (induction rs arbitrary: s)
  case Nil
  then show ?case by (simp add: placed_def armed_next(3))
next
  case (Cons r rs)
  obtain fd g f where r: "r = Acc fd g f" "0 < fd" "Server_MAXFDS \<le> fd \<or> setSocketNonBlocking g f = 0"
    using Cons.prems(2) by (cases r) (auto simp: fine_def)
  note n = armed_next [OF Cons.prems(1)]
  have a: "acc_fd r = fd" using r(1) by (simp add: acc_fd_def)
  have rs: "list_all fine rs" using Cons.prems(2) by simp
  let ?s = "s\<lparr>sv_pool := advance (Suc 0) (sv_pool s)\<rparr>"
  show ?case
  proof (cases "Server_MAXFDS \<le> fd")
    case True
    then have "accept_conns ((r # rs) @ rest) s = accept_conns (rs @ rest) (?s\<lparr>sv_closed := sv_closed s @ [fd]\<rparr>)"
      using r n(1) by (simp add: Let_def)
    also have "\<dots> = accept_conns rest ((?s\<lparr>sv_closed := sv_closed s @ [fd]\<rparr>)
        \<lparr>sv_pool := advance (length rs) (advance (Suc 0) (sv_pool s)), sv_queued := sv_queued s @ placed (advance (Suc 0) (sv_pool s)) rs,
         sv_closed := (sv_closed s @ [fd]) @ filter (\<lambda>fd. Server_MAXFDS \<le> fd) (map acc_fd rs)\<rparr>)"
      using Cons.IH [of "?s\<lparr>sv_closed := sv_closed s @ [fd]\<rparr>"] n(2) rs by simp
    finally show ?thesis using True a by (simp add: placed_Cons turn_advance)
  next
    case False
    then have "accept_conns ((r # rs) @ rest) s =
        accept_conns (rs @ rest) (?s\<lparr>sv_queued := sv_queued s @ [(Some (turn (sv_pool s) 0), fd)]\<rparr>)"
      using r n(1) by (simp add: Let_def)
    also have "\<dots> = accept_conns rest ((?s\<lparr>sv_queued := sv_queued s @ [(Some (turn (sv_pool s) 0), fd)]\<rparr>)
        \<lparr>sv_pool := advance (length rs) (advance (Suc 0) (sv_pool s)),
         sv_queued := (sv_queued s @ [(Some (turn (sv_pool s) 0), fd)]) @ placed (advance (Suc 0) (sv_pool s)) rs,
         sv_closed := sv_closed s @ filter (\<lambda>fd. Server_MAXFDS \<le> fd) (map acc_fd rs)\<rparr>)"
      using Cons.IH [of "?s\<lparr>sv_queued := sv_queued s @ [(Some (turn (sv_pool s) 0), fd)]\<rparr>"] n(2) rs by simp
    finally show ?thesis using False a by (simp add: placed_Cons turn_advance)
  qed
qed

lemma server_events_read:
  "server_events EPOLLIN ok rs s = server_conn ok (server_read (Some (set_events 0 s, rs)))"
  by (simp add: server_events_def handleEvents_read server_zero_def)

lemma server_events_fine:
  assumes "armed s" "list_all fine rs"
  shows "\<exists>s'. server_events EPOLLIN ok rs s = Some (s', []) \<and> armed s' \<and>
    sv_queued s' = sv_queued s @ placed (sv_pool s) rs \<and>
    sv_closed s' = sv_closed s @ filter (\<lambda>fd. Server_MAXFDS \<le> fd) (map acc_fd rs)"
proof -
  let ?p = "advance (length rs) (sv_pool s)"
  have p: "pool_started ?p" "numThreads ?p = numThreads (sv_pool s)" "pool_loops ?p = pool_loops (sv_pool s)"
    "pool_next ?p < nat (numThreads (sv_pool s))"
    using assms(1) by (simp_all add: advance_def armed_def)
  define s1 where "s1 = (set_events 0 s)\<lparr>sv_pool := ?p, sv_queued := sv_queued s @ placed (sv_pool s) rs,
      sv_closed := sv_closed s @ filter (\<lambda>fd. Server_MAXFDS \<le> fd) (map acc_fd rs)\<rparr>"
  have "armed s1" using assms(1) p by (simp add: armed_def s1_def set_events_def on_chan_def)
  have "accept_conns rs (set_events 0 s) = Some (True, s1, [])"
    using accept_conns_fine [of "set_events 0 s" rs "[]"] assms by (simp add: s1_def)
  then have "server_events EPOLLIN ok rs s = Some (on_chan (updatePoller ok) (set_events (or EPOLLIN EPOLLET) s1), [])"
    by (simp add: server_events_read server_read_def handNewConn_def server_conn_def handThisConn_def)
  moreover have "armed (on_chan (updatePoller ok) (set_events (or EPOLLIN EPOLLET) s1))"
    using \<open>armed s1\<close> by (simp add: armed_def set_events_def on_chan_def updatePoller_watched)
  ultimately show ?thesis by (simp add: s1_def set_events_def on_chan_def)
qed

text \<open>An event of the listening channel accepts every waiting connection: each descriptor below the
  limit is queued in the loop whose turn it is, the others are closed, nothing else is, and the
  listening channel stays armed.\<close>

theorem handNewConn_accepts_all:
  assumes "armed s" "list_all fine rs"
  shows "\<exists>s'. server_events EPOLLIN ok rs s = Some (s', []) \<and> armed s' \<and>
    sv_queued s' = sv_queued s @ placed (sv_pool s) rs \<and>
    sv_closed s' = sv_closed s @ filter (\<lambda>fd. Server_MAXFDS \<le> fd) (map acc_fd rs)"
  by (rule server_events_fine [OF assms])

lemma placed_fd:
  assumes "list_all fine rs" "(l, fd) \<in> set (placed p rs)"
  shows "0 < fd" "fd < Server_MAXFDS"
proof -
  obtain i where i: "i < length rs" "fd = acc_fd (rs ! i)" "fd < Server_MAXFDS"
    using assms(2) by (auto simp: placed_def)
  then have "fine (rs ! i)" using assms(1) by (simp add: list_all_length)
  then show "0 < fd" "fd < Server_MAXFDS" using i by (auto simp: fine_def acc_fd_def split: accept_result.splits)
qed

text \<open>A connection that cannot be made non-blocking takes the server down with it: its descriptor is
  neither queued nor closed, the connections behind it stay unaccepted, and the channel is
  registered with no events at all, so that the kernel never reports another connection.\<close>

theorem listener_disabled:
  assumes s: "armed s" and rs: "list_all fine rs" and bad: "0 < fd" "fd < Server_MAXFDS" "setSocketNonBlocking g f < 0"
  shows "\<exists>s'. server_events EPOLLIN True (rs @ Acc fd g f # rest) s = Some (s', rest) \<and> ch_interest (sv_chan s') = Some 0 \<and>
    sv_queued s' = sv_queued s @ placed (sv_pool s) rs \<and>
    sv_closed s' = sv_closed s @ filter (\<lambda>fd. Server_MAXFDS \<le> fd) (map acc_fd rs)"
proof -
  let ?q = "sv_queued s @ placed (sv_pool s) rs" and ?c = "sv_closed s @ filter (\<lambda>fd. Server_MAXFDS \<le> fd) (map acc_fd rs)"
  define s1 where "s1 = (set_events 0 s)\<lparr>sv_pool := advance (length rs) (sv_pool s), sv_queued := ?q, sv_closed := ?c\<rparr>"
  have a: "armed s1" using s by (simp add: armed_def s1_def advance_def set_events_def on_chan_def)
  have "accept_conns (rs @ Acc fd g f # rest) (set_events 0 s) = accept_conns (Acc fd g f # rest) s1"
    using accept_conns_fine [of "set_events 0 s" rs "Acc fd g f # rest"] s rs by (simp add: s1_def)
  also have "\<dots> = Some (False, s1\<lparr>sv_pool := advance (Suc 0) (sv_pool s1)\<rparr>, rest)"
    using bad armed_next(1) [OF a] by (simp add: Let_def)
  finally have "server_read (Some (set_events 0 s, rs @ Acc fd g f # rest)) =
      Some (s1\<lparr>sv_pool := advance (Suc 0) (sv_pool s1)\<rparr>, rest)"
    by (simp add: server_read_def handNewConn_def)
  then have "server_events EPOLLIN True (rs @ Acc fd g f # rest) s =
      Some (on_chan (updatePoller True) (s1\<lparr>sv_pool := advance (Suc 0) (sv_pool s1)\<rparr>), rest)"
    by (simp add: server_events_read server_conn_def handThisConn_def)
  moreover have "ch_interest (updatePoller True (sv_chan s1)) = Some 0"
    using updatePoller_off [of "or EPOLLIN EPOLLET" "sv_chan s1"] a
    by (simp add: armed_def s1_def EPOLLIN_def EPOLLET_def)
  ultimately show ?thesis by (simp add: on_chan_def) (simp add: s1_def)
qed

section \<open>Witnesses\<close>

definition ex_env :: bind_env where
  "ex_env = \<lparr>be_socket = 3, be_setsockopt = 0, be_bind = 0, be_listen = 0\<rparr>"

definition ex_server :: Server where
  "ex_server = \<lparr>sv_pool = \<lparr>pool_started = True, numThreads = 2, pool_next = 0, pool_loops = [10, 11]\<rparr>, sv_started = True,
     sv_port = 80, sv_listenFd = 3,
     sv_chan = \<lparr>ch_events = or EPOLLIN EPOLLET, ch_last = or EPOLLIN EPOLLET, ch_in_table = True,
                 ch_interest = Some (or EPOLLIN EPOLLET)\<rparr>, sv_queued = [], sv_closed = []\<rparr>"

lemma ex_server_armed: "armed ex_server"
  by (simp add: armed_def watched_def ex_server_def)

theorem main_setup_armed_witness: "armed ex_server"
proof -
  have "strto_scan ''2'' = Some (False, 2)"
    by (simp add: strto_scan_def isspace_def isdigit_def digits_val_def digit_val_def Let_def)
  then have "atoi ''2'' = 2" by (simp add: atoi_def)
  moreover have "map (\<lambda>i. i + 10) [0..<2] = [10, 11 :: nat]" by (simp add: upt_rec)
  ultimately have "main_setup ex_env (\<lambda>fd. if fd = -1 then (-1, -1) else (0, 0)) (\<lambda>i. i + 10) True [(CHR ''t'', ''2'')] =
      Some (main_defaults\<lparr>mo_threads := 2\<rparr>, ex_server)"
    by (simp add: main_setup_def main_defaults_def Server_make_def EventLoopThreadPool_make_def socket_bind_listen_def
        ex_env_def setSocketNonBlocking_def server_start_def addToPoller_def pool_start_def EqualAndUpdateLastEvents_def
        ex_server_def on_chan_def set_events_def Channel_make_def Let_def)
  from main_setup_armed [OF this] show ?thesis by simp
qed

theorem handNewConn_accepts_all_witness:
  "\<exists>s'. server_events EPOLLIN True [Acc 5 0 0, Acc 100000 0 0, Acc 6 0 0] ex_server = Some (s', []) \<and>
    sv_queued s' = [(Some 10, 5), (Some 10, 6)] \<and> sv_closed s' = [100000]"
proof -
  have "placed (sv_pool ex_server) [Acc 5 0 0, Acc 100000 0 0, Acc 6 0 0] = [(Some 10, 5), (Some 10, 6)]"
    by (simp add: placed_def turn_def ex_server_def acc_fd_def Server_MAXFDS_def upt_rec)
  moreover have "list_all fine [Acc 5 0 0, Acc 100000 0 0, Acc 6 0 0]"
    by (simp add: fine_def Server_MAXFDS_def setSocketNonBlocking_def)
  ultimately show ?thesis
    using handNewConn_accepts_all [OF ex_server_armed, of "[Acc 5 0 0, Acc 100000 0 0, Acc 6 0 0]" True]
    by (auto simp: ex_server_def acc_fd_def Server_MAXFDS_def)
qed

theorem listener_disabled_witness:
  "\<exists>s'. server_events EPOLLIN True [Acc 5 (-1) 0, Acc 6 0 0] ex_server = Some (s', [Acc 6 0 0]) \<and>
    ch_interest (sv_chan s') = Some 0 \<and> sv_queued s' = [] \<and> sv_closed s' = []"
  using listener_disabled [OF ex_server_armed, of "[]" 5 "-1" 0 "[Acc 6 0 0]"]
  by (auto simp: Server_MAXFDS_def setSocketNonBlocking_def placed_def ex_server_def)

end
