(* ===== verification/PollerSpec.thy ===== *)
theory PollerSpec
  imports Poller
begin

text \<open>
  What the poller keeps of the connections of its loop: a channel in its table belongs to a live
  connection, every live connection has an owner and at most one live timer, a connection is
  destroyed once; and the half-closed connection that nothing ever closes.
\<close>

section \<open>The handlers of a connection\<close>

text \<open>What a handler may change of the object: never its descriptor, and its timer only by unlinking
  it.\<close>

definition same_conn :: "HttpData \<Rightarrow> HttpData \<Rightarrow> bool" where
  "same_conn d d' = (hd_fd d' = hd_fd d \<and> (hd_timer d' = hd_timer d \<or> \<not> hd_timer d'))"

lemma same_conn_refl [simp]: "same_conn d d"
  by (simp add: same_conn_def)

lemma same_conn_trans: "same_conn d d' \<Longrightarrow> same_conn d' d'' \<Longrightarrow> same_conn d d''"
  by (auto simp: same_conn_def)

lemma parseVersion_same: "parseVersion l p d = (r, d') \<Longrightarrow> same_conn d d'"
  by (auto simp: parseVersion_def Let_def same_conn_def split: if_splits)

lemma parseURI_same: "parseURI d = (r, d') \<Longrightarrow> same_conn d d'"
  by (auto simp: parseURI_def Let_def same_conn_def split: if_splits option.splits prod.splits
      dest!: parseVersion_frame)

lemma parseHeaders_same: "parseHeaders d = (r, d') \<Longrightarrow> same_conn d d'"
  by (auto simp: parseHeaders_def same_conn_def split: prod.splits option.splits if_splits)

lemma analysisRequest_same: "analysisRequest fs d w = (r, d', w') \<Longrightarrow> same_conn d d'"
  by (auto simp: analysisRequest_def Let_def same_conn_def split: if_splits option.splits)

lemma handleWrite_same: "handleWrite d w = (d', w') \<Longrightarrow> same_conn d d'"
  by (auto simp: handleWrite_def Let_def same_conn_def split: if_splits prod.splits)

definition keeps_conn :: "(hr_state \<Rightarrow> bool \<times> hr_state) \<Rightarrow> bool" where
  "keeps_conn f \<longleftrightarrow> (\<forall>d w b d' w'. f (d, w) = (b, d', w') \<longrightarrow> same_conn d d')"

lemma keeps_then: "keeps_conn f \<Longrightarrow> keeps_conn g \<Longrightarrow> keeps_conn (hr_then f g)"
  unfolding keeps_conn_def hr_then_def
  by (auto split: prod.splits bool.splits) (metis same_conn_trans)+

lemma keeps_parts: "keeps_conn hr_read" "keeps_conn hr_uri" "keeps_conn hr_headers" "keeps_conn hr_body"
  "keeps_conn (hr_analysis fs)"
proof -
  show "keeps_conn hr_read" by (auto simp: keeps_conn_def same_conn_def Let_def split: prod.splits if_splits)
  show "keeps_conn hr_uri"
    using parseURI_same
    by (fastforce simp: keeps_conn_def same_conn_def split: prod.splits if_splits URIState.splits)
  show "keeps_conn hr_headers"
    using parseHeaders_same
    by (fastforce simp: keeps_conn_def same_conn_def split: prod.splits if_splits HeaderState.splits)
  show "keeps_conn hr_body"
    by (auto simp: keeps_conn_def same_conn_def split: if_splits option.splits sum.splits)
  show "keeps_conn (hr_analysis fs)"
    using analysisRequest_same
    by (fastforce simp: keeps_conn_def same_conn_def split: prod.splits if_splits AnalysisState.splits)
qed

lemma hr_block_same: "hr_block fs (d, w) = (d', w') \<Longrightarrow> same_conn d d'"
proof -
  assume a: "hr_block fs (d, w) = (d', w')"
  have "keeps_conn (hr_then hr_read (hr_then hr_uri (hr_then hr_headers (hr_then hr_body (hr_analysis fs)))))"
    by (intro keeps_then keeps_parts)
  moreover obtain b where
    "hr_then hr_read (hr_then hr_uri (hr_then hr_headers (hr_then hr_body (hr_analysis fs)))) (d, w) = (b, d', w')"
    using a unfolding hr_block_def by (metis prod.collapse)
  ultimately show ?thesis unfolding keeps_conn_def by blast
qed

lemma hr_flush_same: "hr_flush (d, w) = (d', w') \<Longrightarrow> same_conn d d'"
  by (auto simp: hr_flush_def split: if_splits dest: handleWrite_same)

lemma handleRead_same: "handleRead fs (d, w) = (d', w') \<Longrightarrow> same_conn d d'"
proof (induction fs "(d, w)" arbitrary: d w rule: handleRead.induct)
  case (1 fs d w)
  obtain d1 w1 where b: "hr_block fs (d, w) = (d1, w1)" by (metis surj_pair)
  obtain d2 w2 where f: "hr_flush (d1, w1) = (d2, w2)" by (metis surj_pair)
  have s2: "same_conn d d1" "same_conn d d2"
    using hr_block_same [OF b] hr_flush_same [OF f] same_conn_trans by blast+
  then have s3: "same_conn d (hd_reset d2)" by (auto simp: same_conn_def hd_reset_def)
  show ?case
  proof (cases "hd_error d1")
    case True
    then show ?thesis using "1.prems" b s2(1) by (subst (asm) handleRead.simps) simp
  next
    case e1: False
    show ?thesis
    proof (cases "\<not> hd_error d2 \<and> hd_state d2 = STATE_FINISH \<and> hd_in (hd_reset d2) \<noteq> [] \<and>
        hd_conn (hd_reset d2) \<noteq> H_DISCONNECTING")
      case True
      then have "handleRead fs (hd_reset d2, w2) = (d', w')"
        using "1.prems" e1 b f by (subst (asm) handleRead.simps) (simp add: Let_def)
      moreover have "same_conn (hd_reset d2) d'"
        using "1.hyps" [OF b [symmetric] e1 f [symmetric] _ refl] True calculation by auto
      ultimately show ?thesis using s3 same_conn_trans by blast
    next
      case False
      then show ?thesis
        using "1.prems" e1 b f s2(2) s3
        by (subst (asm) handleRead.simps) (auto simp: Let_def same_conn_def split: if_splits)
    qed
  qed
qed

text \<open>\<^verbatim>\<open>handleConn\<close> unlinks the timer and makes at most one call of the poller.\<close>

lemma handleConn_calls:
  assumes "handleConn d = (d', calls)"
  shows "hd_fd d' = hd_fd d" "\<not> hd_timer d'"
    "calls = [] \<or> (\<exists>ev t. calls = [Update_poller ev t] \<and> 0 < t \<and> ev = hd_events d') \<or> calls = [Remove_from_poller]"
  using assms
  by (auto simp: handleConn_def handleClose_def seperateTimer_def Let_def DEFAULT_KEEP_ALIVE_TIME_def
      DEFAULT_EXPIRED_TIME_def split: if_splits)

lemma conn_events_spec:
  assumes "conn_events fs rv d w = (d', w', calls)"
  shows "same_conn d d'"
    "calls = [] \<or> \<not> hd_timer d' \<and> ((\<exists>ev t. calls = [Update_poller ev t] \<and> 0 < t) \<or> calls = [Remove_from_poller])"
proof -
  define s0 where "s0 = (d\<lparr>hd_events := 0\<rparr>, w, [] :: poller_call list)"
  define s1 where "s1 = (if and rv (or (or EPOLLIN EPOLLPRI) EPOLLRDHUP) \<noteq> 0 then conn_read fs s0 else s0)"
  define s2 where "s2 = (if and rv EPOLLOUT \<noteq> 0 then conn_write s1 else s1)"
  have s1: "same_conn d (fst s1)" "snd (snd s1) = []"
  proof -
    have "same_conn d (d\<lparr>hd_events := 0\<rparr>)" by (simp add: same_conn_def)
    then show "same_conn d (fst s1)" "snd (snd s1) = []"
      using handleRead_same [of fs "d\<lparr>hd_events := 0\<rparr>" w] same_conn_trans
      by (auto simp: s1_def s0_def conn_read_def split: prod.split)
  qed
  have s2: "same_conn d (fst s2)" "snd (snd s2) = []"
    using s1 handleWrite_same [of "fst s1"] same_conn_trans
    by (auto simp: s2_def conn_write_def split: prod.split)
  have "conn_events fs rv d w = (d\<lparr>hd_events := 0\<rparr>, w, []) \<or> conn_events fs rv d w = conn_conn s2"
    by (simp add: conn_events_def handleEvents_def Let_def conn_zero_def call_handler_def s2_def s1_def s0_def)
  then show "same_conn d d'"
    "calls = [] \<or> \<not> hd_timer d' \<and> ((\<exists>ev t. calls = [Update_poller ev t] \<and> 0 < t) \<or> calls = [Remove_from_poller])"
    using assms s2 handleConn_calls [of "fst s2"]
    by (auto simp: conn_conn_def same_conn_def split: prod.splits)
qed

section \<open>The invariant\<close>

definition alive :: "Epoll \<Rightarrow> nat \<Rightarrow> bool" where
  "alive s c \<longleftrightarrow> ep_conns s c \<noteq> None"

definition timed :: "Epoll \<Rightarrow> nat \<Rightarrow> nat \<Rightarrow> bool" where
  "timed s c a \<longleftrightarrow> (\<exists>n. tm_nodes (ep_tm s) a = Some n \<and> tn_http n = Some c)"

definition owned_by :: "Epoll \<Rightarrow> nat \<Rightarrow> bool" where
  "owned_by s c \<longleftrightarrow> c \<in> set (ep_pend s) \<or> fd2http s (conn_fd c s) = Some c \<or> ep_timer s c \<noteq> None"

text \<open>Everything but that live connections have an owner: the tables refer to live connections under
  their descriptors; a channel is in its table only with its connection; a connection is linked
  exactly to the timer node that holds it; a queued connection is not registered yet; live
  connections have different descriptors, in the range of the tables; a destroyed connection was
  destroyed once.\<close>

definition ep_core :: "Epoll \<Rightarrow> bool" where
  "ep_core s \<longleftrightarrow> tm_ok (ep_tm s) \<and>
     (\<forall>fd c. fd2chan s fd = Some c \<longrightarrow> fd2http s fd = Some c) \<and>
     (\<forall>fd c. fd2http s fd = Some c \<longrightarrow> alive s c \<and> conn_fd c s = fd) \<and>
     (\<forall>c a. ep_timer s c = Some a \<longleftrightarrow> timed s c a) \<and>
     (\<forall>c. ep_timer s c \<noteq> None \<longrightarrow> alive s c) \<and>
     (\<forall>c \<in> set (ep_pend s). alive s c \<and> ep_timer s c = None \<and> fd2http s (conn_fd c s) \<noteq> Some c) \<and>
     distinct (ep_pend s) \<and>
     (\<forall>c c'. alive s c \<longrightarrow> alive s c' \<longrightarrow> conn_fd c s = conn_fd c' s \<longrightarrow> c = c') \<and>
     (\<forall>c. alive s c \<longrightarrow> 0 < conn_fd c s \<and> conn_fd c s < MAXFDS) \<and>
     distinct (ep_closed s) \<and> (\<forall>c \<in> set (ep_closed s). \<not> alive s c)"

definition ep_but :: "nat set \<Rightarrow> Epoll \<Rightarrow> bool" where
  "ep_but X s \<longleftrightarrow> ep_core s \<and> (\<forall>c. alive s c \<longrightarrow> c \<notin> X \<longrightarrow> owned_by s c)"

abbreviation ep_inv :: "Epoll \<Rightarrow> bool" where
  "ep_inv s \<equiv> ep_but {} s"

lemma ep_coreD:
  assumes "ep_core s"
  shows "tm_ok (ep_tm s)" "fd2chan s fd = Some c \<Longrightarrow> fd2http s fd = Some c"
    "fd2http s fd = Some c \<Longrightarrow> alive s c \<and> conn_fd c s = fd" "ep_timer s c = Some a \<longleftrightarrow> timed s c a"
    "ep_timer s c \<noteq> None \<Longrightarrow> alive s c"
    "c \<in> set (ep_pend s) \<Longrightarrow> alive s c \<and> ep_timer s c = None \<and> fd2http s (conn_fd c s) \<noteq> Some c"
    "alive s c \<Longrightarrow> alive s c' \<Longrightarrow> conn_fd c s = conn_fd c' s \<Longrightarrow> c = c'"
    "alive s c \<Longrightarrow> 0 < conn_fd c s \<and> conn_fd c s < MAXFDS"
    "c \<in> set (ep_closed s) \<Longrightarrow> \<not> alive s c" "distinct (ep_pend s)" "distinct (ep_closed s)"
proof -
  show "alive s c \<Longrightarrow> alive s c' \<Longrightarrow> conn_fd c s = conn_fd c' s \<Longrightarrow> c = c'"
    using assms unfolding ep_core_def by (elim conjE) blast
qed (use assms in \<open>simp_all add: ep_core_def\<close>)

lemma ep_coreI:
  assumes "tm_ok (ep_tm s)" "\<And>fd c. fd2chan s fd = Some c \<Longrightarrow> fd2http s fd = Some c"
    "\<And>fd c. fd2http s fd = Some c \<Longrightarrow> alive s c \<and> conn_fd c s = fd" "\<And>c a. ep_timer s c = Some a \<longleftrightarrow> timed s c a"
    "\<And>c. ep_timer s c \<noteq> None \<Longrightarrow> alive s c"
    "\<And>c. c \<in> set (ep_pend s) \<Longrightarrow> alive s c \<and> ep_timer s c = None \<and> fd2http s (conn_fd c s) \<noteq> Some c"
    "\<And>c c'. alive s c \<Longrightarrow> alive s c' \<Longrightarrow> conn_fd c s = conn_fd c' s \<Longrightarrow> c = c'"
    "\<And>c. alive s c \<Longrightarrow> 0 < conn_fd c s \<and> conn_fd c s < MAXFDS"
    "\<And>c. c \<in> set (ep_closed s) \<Longrightarrow> \<not> alive s c" "distinct (ep_pend s)" "distinct (ep_closed s)"
  shows "ep_core s"
  unfolding ep_core_def by (intro conjI allI ballI impI) (use assms in \<open>simp_all\<close>)

lemma ep_butD: "ep_but X s \<Longrightarrow> ep_core s" "ep_but X s \<Longrightarrow> alive s c \<Longrightarrow> c \<notin> X \<Longrightarrow> owned_by s c"
  unfolding ep_but_def by blast+

text \<open>The owners the destructor counts are those of the invariant.\<close>

lemma owned_iff:
  assumes "ep_core s"
  shows "owned c s \<longleftrightarrow> owned_by s c"
proof -
  have "list_ex (\<lambda>(e, a). tn_http (the (tm_nodes (ep_tm s) a)) = Some c) (tm_queue (ep_tm s)) \<longleftrightarrow> (\<exists>a. timed s c a)"
  proof
    assume "list_ex (\<lambda>(e, a). tn_http (the (tm_nodes (ep_tm s) a)) = Some c) (tm_queue (ep_tm s))"
    then obtain e a where "(e, a) \<in> set (tm_queue (ep_tm s))" "tn_http (the (tm_nodes (ep_tm s) a)) = Some c"
      by (auto simp: list_ex_iff)
    moreover from this obtain n where "tm_nodes (ep_tm s) a = Some n"
      using tm_okD(3) [OF ep_coreD(1) [OF assms], of e a] by auto
    ultimately show "\<exists>a. timed s c a" unfolding timed_def by (intro exI [of _ a] exI [of _ n]) simp
  next
    assume "\<exists>a. timed s c a"
    then obtain a n where n: "tm_nodes (ep_tm s) a = Some n" "tn_http n = Some c" by (auto simp: timed_def)
    then have "(tn_exp n, a) \<in> set (tm_queue (ep_tm s))" using tm_okD(3) [OF ep_coreD(1) [OF assms]] by blast
    with n show "list_ex (\<lambda>(e, a). tn_http (the (tm_nodes (ep_tm s) a)) = Some c) (tm_queue (ep_tm s))"
      by (force simp: list_ex_iff)
  qed
  moreover have "(\<exists>a. timed s c a) \<longleftrightarrow> ep_timer s c \<noteq> None" using ep_coreD(4) [OF assms, of c] by auto
  ultimately show ?thesis by (auto simp: owned_def owned_by_def)
qed

lemma set_conn_simps [simp]:
  "alive (set_conn c d s) x \<longleftrightarrow> x = c \<or> alive s x" "conn_fd x (set_conn c d s) = (if x = c then hd_fd d else conn_fd x s)"
  "timed (set_conn c d s) = timed s" "ep_timer (set_conn c d s) = ep_timer s" "fd2http (set_conn c d s) = fd2http s"
  "fd2chan (set_conn c d s) = fd2chan s" "ep_pend (set_conn c d s) = ep_pend s" "ep_closed (set_conn c d s) = ep_closed s"
  "ep_tm (set_conn c d s) = ep_tm s"
  by (auto simp: set_conn_def alive_def conn_fd_def timed_def fun_eq_iff)

lemma set_conn_inv:
  assumes "ep_but X s" "alive s c" "hd_fd d = conn_fd c s"
  shows "ep_but X (set_conn c d s)"
proof -
  have eq: "alive (set_conn c d s) = alive s" "conn_fd x (set_conn c d s) = conn_fd x s" for x
    using assms(2,3) by (auto simp: fun_eq_iff)
  show ?thesis
    using assms(1) unfolding ep_but_def ep_core_def owned_by_def set_conn_simps(3-9) eq .
qed

lemma drop_timer_simps [simp]:
  "alive (drop_timer c s) = alive s" "conn_fd x (drop_timer c s) = conn_fd x s" "fd2http (drop_timer c s) = fd2http s"
  "fd2chan (drop_timer c s) = fd2chan s" "ep_pend (drop_timer c s) = ep_pend s" "ep_closed (drop_timer c s) = ep_closed s"
  "ep_timer (drop_timer c s) = (ep_timer s)(c := None)" "ep_conns (drop_timer c s) = ep_conns s"
  "ep_reg (drop_timer c s) = ep_reg s"
  by (auto simp: drop_timer_def alive_def conn_fd_def fun_eq_iff split: option.split)

lemma drop_timer_timed:
  assumes "ep_core s"
  shows "timed (drop_timer c s) x b \<longleftrightarrow> timed s x b \<and> x \<noteq> c"
proof (cases "ep_timer s c")
  case None
  then show ?thesis using ep_coreD(4) [OF assms, of c b] by (auto simp: drop_timer_def)
next
  case (Some a)
  then obtain n where n: "tm_nodes (ep_tm s) a = Some n" "tn_http n = Some c"
    using ep_coreD(4) [OF assms, of c a] by (auto simp: timed_def)
  have "tm_nodes (ep_tm (drop_timer c s)) = (tm_nodes (ep_tm s))(a \<mapsto> clearReq n)"
    using Some n by (simp add: drop_timer_def clear_node_def)
  then have "timed (drop_timer c s) x b \<longleftrightarrow> b \<noteq> a \<and> timed s x b" by (simp add: timed_def clearReq_def)
  moreover have "timed s x a \<longleftrightarrow> x = c" using n by (auto simp: timed_def)
  moreover have "timed s c b \<longrightarrow> b = a" using ep_coreD(4) [OF assms, of c b] Some by auto
  ultimately show ?thesis by blast
qed

lemma drop_timer_inv:
  assumes "ep_but X s" "c \<in> X"
  shows "ep_but X (drop_timer c s)"
proof -
  note core = ep_butD(1) [OF assms(1)]
  note d = ep_coreD [OF core]
  have tm: "tm_ok (ep_tm (drop_timer c s))"
    using clear_node_ok d(1) by (auto simp: drop_timer_def split: option.split)
  have "ep_core (drop_timer c s)"
  proof (rule ep_coreI)
    show "(ep_timer (drop_timer c s) x = Some a) = timed (drop_timer c s) x a" for x a
      using d(4) by (simp add: drop_timer_timed [OF core])
  qed (use tm d in \<open>auto split: if_splits\<close>)
  then show ?thesis using assms unfolding ep_but_def owned_by_def by auto
qed

lemma add_timer_simps [simp]:
  "alive (add_timer tv c t s) = alive s" "conn_fd x (add_timer tv c t s) = conn_fd x s"
  "fd2http (add_timer tv c t s) = fd2http s" "fd2chan (add_timer tv c t s) = fd2chan s"
  "ep_pend (add_timer tv c t s) = ep_pend s" "ep_closed (add_timer tv c t s) = ep_closed s"
  "ep_last (add_timer tv c t s) = ep_last s" "ep_reg (add_timer tv c t s) = ep_reg s"
  by (auto simp: add_timer_def alive_def conn_fd_def fun_eq_iff split: option.split prod.split)

lemma add_timer_timer:
  assumes "alive s c"
  shows "ep_timer (add_timer tv c t s) = (ep_timer s)(c \<mapsto> tm_fresh (ep_tm s))"
    "ep_tm (add_timer tv c t s) = snd (addTimer tv c t (ep_tm s))"
  using assms by (auto simp: add_timer_def alive_def addTimer_def Let_def)

lemma add_timer_timed:
  assumes "ep_core s" "alive s c"
  shows "timed (add_timer tv c t s) x b \<longleftrightarrow> (if b = tm_fresh (ep_tm s) then x = c else timed s x b)"
  using assms(2) by (auto simp: timed_def add_timer_timer addTimer_def Let_def TimerNode_make_def)

lemma fresh_not_timed: "ep_core s \<Longrightarrow> \<not> timed s x (tm_fresh (ep_tm s))"
  using tm_okD(4) [OF ep_coreD(1)] by (fastforce simp: timed_def)

lemma add_timer_inv:
  assumes "ep_but X s" "alive s c" "ep_timer s c = None" "c \<notin> set (ep_pend s)"
  shows "ep_but (X - {c}) (add_timer tv c t s)"
proof -
  note core = ep_butD(1) [OF assms(1)]
  note d = ep_coreD [OF core]
  note t = add_timer_timer [OF assms(2)] add_timer_timed [OF core assms(2)]
  have tm: "tm_ok (ep_tm (add_timer tv c t s))" unfolding t by (rule addTimer_ok [OF d(1)])
  have "ep_core (add_timer tv c t s)"
  proof (rule ep_coreI)
    fix x a
    have "\<not> timed s c a" using d(4) assms(3) by (metis option.distinct(1))
    then show "(ep_timer (add_timer tv c t s) x = Some a) = timed (add_timer tv c t s) x a"
      using d(4) [of x a] fresh_not_timed [OF core, of x] by (auto simp: t)
  qed (use tm d assms(2,4) in \<open>auto simp: t(1) split: if_splits\<close>)
  moreover have "owned_by (add_timer tv c t s) x" if "alive s x" "x \<notin> X - {c}" for x
    using ep_butD(2) [OF assms(1), of x] that by (cases "x = c") (auto simp: owned_by_def t(1))
  ultimately show ?thesis unfolding ep_but_def by simp
qed

text \<open>Changes to the tables at the descriptor of a live connection.\<close>

lemma fd_other: "ep_core s \<Longrightarrow> alive s c \<Longrightarrow> alive s x \<Longrightarrow> x \<noteq> c \<Longrightarrow> conn_fd x s \<noteq> conn_fd c s"
  using ep_coreD(7) by metis

lemma frame_simps [simp]:
  "alive (s\<lparr>fd2chan := f\<rparr>) = alive s" "conn_fd x (s\<lparr>fd2chan := f\<rparr>) = conn_fd x s" "timed (s\<lparr>fd2chan := f\<rparr>) = timed s"
  "alive (s\<lparr>fd2http := f\<rparr>) = alive s" "conn_fd x (s\<lparr>fd2http := f\<rparr>) = conn_fd x s" "timed (s\<lparr>fd2http := f\<rparr>) = timed s"
  "alive (s\<lparr>ep_last := l\<rparr>) = alive s" "conn_fd x (s\<lparr>ep_last := l\<rparr>) = conn_fd x s" "timed (s\<lparr>ep_last := l\<rparr>) = timed s"
  "alive (s\<lparr>ep_reg := r\<rparr>) = alive s" "conn_fd x (s\<lparr>ep_reg := r\<rparr>) = conn_fd x s" "timed (s\<lparr>ep_reg := r\<rparr>) = timed s"
  "alive (s\<lparr>ep_pend := p\<rparr>) = alive s" "conn_fd x (s\<lparr>ep_pend := p\<rparr>) = conn_fd x s" "timed (s\<lparr>ep_pend := p\<rparr>) = timed s"
  by (simp_all add: alive_def conn_fd_def timed_def fun_eq_iff)

lemma ep_butI: "ep_core s \<Longrightarrow> (\<And>c. alive s c \<Longrightarrow> c \<notin> X \<Longrightarrow> owned_by s c) \<Longrightarrow> ep_but X s"
  by (simp add: ep_but_def)

lemma chan_drop_inv:
  assumes "ep_but X s"
  shows "ep_but X (s\<lparr>fd2chan := (fd2chan s)(fd := None)\<rparr>)"
proof (rule ep_butI)
  note d = ep_coreD [OF ep_butD(1) [OF assms]]
  show "ep_core (s\<lparr>fd2chan := (fd2chan s)(fd := None)\<rparr>)"
    by (rule ep_coreI) (use d in \<open>auto split: if_splits\<close>)
  show "owned_by (s\<lparr>fd2chan := (fd2chan s)(fd := None)\<rparr>) c"
    if "alive (s\<lparr>fd2chan := (fd2chan s)(fd := None)\<rparr>) c" "c \<notin> X" for c
    using ep_butD(2) [OF assms, of c] that by (simp add: owned_by_def)
qed

lemma last_reg_inv:
  assumes "ep_but X s"
  shows "ep_but X (s\<lparr>ep_last := l\<rparr>)" "ep_but X (s\<lparr>ep_reg := r\<rparr>)"
proof -
  note d = ep_coreD [OF ep_butD(1) [OF assms]]
  have "ep_core (s\<lparr>ep_last := l\<rparr>)" "ep_core (s\<lparr>ep_reg := r\<rparr>)" by (rule ep_coreI; use d in \<open>auto\<close>)+
  then show "ep_but X (s\<lparr>ep_last := l\<rparr>)" "ep_but X (s\<lparr>ep_reg := r\<rparr>)"
    using ep_butD(2) [OF assms] by (auto intro!: ep_butI simp: owned_by_def)
qed

lemma tables_drop_inv:
  assumes i: "ep_but X s" and c: "alive s c"
  shows "ep_but (insert c X) (s\<lparr>fd2chan := (fd2chan s)(conn_fd c s := None), fd2http := (fd2http s)(conn_fd c s := None)\<rparr>)"
    (is "ep_but _ ?s")
proof (rule ep_butI)
  note core = ep_butD(1) [OF i]
  note d = ep_coreD [OF core]
  show "ep_core ?s" by (rule ep_coreI) (use d in \<open>auto split: if_splits\<close>)
  show "owned_by ?s x" if "alive ?s x" "x \<notin> insert c X" for x
    using ep_butD(2) [OF i, of x] that fd_other [OF core c, of x] by (auto simp: owned_by_def)
qed

lemma epoll_del_inv:
  assumes "ep_but X s" "alive s c"
  shows "ep_but (insert c X) (epoll_del ok c s)"
proof -
  define s1 where "s1 = (if ok then s\<lparr>ep_reg := (ep_reg s)(conn_fd c s := None)\<rparr> else s)"
  have "ep_but X s1" "alive s1 c" "conn_fd c s1 = conn_fd c s"
    using last_reg_inv(2) [OF assms(1)] assms by (simp_all add: s1_def)
  from tables_drop_inv [OF this(1,2)] this(3) show ?thesis by (simp add: epoll_del_def Let_def s1_def)
qed

lemma reap_inv:
  assumes "ep_but X s"
  shows "ep_but (X - {c}) (reap c s)"
proof (cases "alive s c \<and> \<not> owned_by s c")
  case True
  note core = ep_butD(1) [OF assms]
  note d = ep_coreD [OF core]
  let ?s = "s\<lparr>ep_conns := (ep_conns s)(c := None), ep_closed := ep_closed s @ [c]\<rparr>"
  have r: "reap c s = ?s\<lparr>ep_reg := (ep_reg s)(conn_fd c s := None)\<rparr>" using True by (simp add: reap_def owned_iff [OF core] alive_def)
  have eq: "alive ?s x \<longleftrightarrow> x \<noteq> c \<and> alive s x" "x \<noteq> c \<Longrightarrow> conn_fd x ?s = conn_fd x s" "timed ?s = timed s" for x
    by (auto simp: alive_def conn_fd_def timed_def fun_eq_iff)
  have no: "c \<notin> set (ep_pend s)" "ep_timer s c = None" "fd2http s fd \<noteq> Some c" for fd
    using True d(3) [of fd c] by (auto simp: owned_by_def)
  have "c \<notin> set (ep_closed s)" using True d(9) by blast
  with no have "ep_core ?s"
  proof (intro ep_coreI)
    show "fd2http ?s fd = Some x \<Longrightarrow> alive ?s x \<and> conn_fd x ?s = fd" for fd x
      using d(3) [of fd x] no(3) [of fd] by (cases "x = c") (simp_all add: eq)
    show "x \<in> set (ep_pend ?s) \<Longrightarrow> alive ?s x \<and> ep_timer ?s x = None \<and> fd2http ?s (conn_fd x ?s) \<noteq> Some x" for x
      using d(6) [of x] no(1) by (cases "x = c") (simp_all add: eq)
    show "alive ?s x \<Longrightarrow> alive ?s y \<Longrightarrow> conn_fd x ?s = conn_fd y ?s \<Longrightarrow> x = y" for x y
      using d(7) [of x y] by (simp add: eq)
    show "alive ?s x \<Longrightarrow> 0 < conn_fd x ?s \<and> conn_fd x ?s < MAXFDS" for x using d(8) [of x] by (simp add: eq)
    show "x \<in> set (ep_closed ?s) \<Longrightarrow> \<not> alive ?s x" for x using d(9) [of x] by (auto simp: eq)
    show "ep_timer ?s x \<noteq> None \<Longrightarrow> alive ?s x" for x using d(5) [of x] no(2) by (cases "x = c") (auto simp: eq)
  qed (use d(1,2,4,10,11) in \<open>simp_all add: eq(3)\<close>)
  moreover have "owned_by ?s x" if "alive ?s x" "x \<notin> X - {c}" for x
    using ep_butD(2) [OF assms, of x] that eq by (auto simp: owned_by_def)
  ultimately have "ep_but (X - {c}) ?s" unfolding ep_but_def by blast
  then show ?thesis unfolding r by (rule last_reg_inv(2))
next
  case False
  note core = ep_butD(1) [OF assms]
  have "reap c s = s" using False by (auto simp: reap_def owned_iff [OF core] alive_def)
  with assms False show ?thesis unfolding ep_but_def by auto
qed

section \<open>The steps keep the invariant\<close>

lemma epoll_mod_inv:
  assumes "ep_but X s" "alive s c" "ep_timer s c = None" "c \<notin> set (ep_pend s)"
  shows "ep_but X (epoll_mod tv ok c t s)"
proof -
  define s1 where "s1 = (if 0 < t then add_timer tv c t s else s)"
  have "ep_but X s1"
    using add_timer_inv [OF assms, of tv t] assms(1) by (auto simp: s1_def ep_but_def)
  define s2 where "s2 = s1\<lparr>ep_last := (ep_last s1)(c := hd_events (the (ep_conns s c)))\<rparr>"
  have i2: "ep_but X s2" unfolding s2_def by (rule last_reg_inv(1)) fact
  have "epoll_mod tv ok c t s =
      (if ep_last s1 c = hd_events (the (ep_conns s c)) then s2
       else if ok then s2\<lparr>ep_reg := (ep_reg s2)(conn_fd c s \<mapsto> hd_events (the (ep_conns s c)))\<rparr>
       else s2\<lparr>fd2chan := (fd2chan s2)(conn_fd c s := None)\<rparr>)"
    unfolding epoll_mod_def Let_def s1_def [symmetric] EqualAndUpdateLastEvents_def s2_def by simp
  then show ?thesis using i2 last_reg_inv(2) [OF i2] chan_drop_inv [OF i2]
    by (cases ok; cases "ep_last s1 c = hd_events (the (ep_conns s c))") simp_all
qed

lemma tables_set_inv:
  assumes i: "ep_but X s" and c: "alive s c" "c \<notin> set (ep_pend s)" and k: "k = None \<or> k = Some c"
  shows "ep_but (X - {c}) (s\<lparr>fd2http := (fd2http s)(conn_fd c s \<mapsto> c), fd2chan := (fd2chan s)(conn_fd c s := k)\<rparr>)"
    (is "ep_but _ ?s")
proof (rule ep_butI)
  note core = ep_butD(1) [OF i]
  note d = ep_coreD [OF core]
  show "ep_core ?s"
  proof (rule ep_coreI)
    show "x \<in> set (ep_pend ?s) \<Longrightarrow> alive ?s x \<and> ep_timer ?s x = None \<and> fd2http ?s (conn_fd x ?s) \<noteq> Some x" for x
      using d(6) [of x] c by auto
  qed (use d c(1) k in \<open>auto split: if_splits\<close>)
  show "owned_by ?s x" if "alive ?s x" "x \<notin> X - {c}" for x
    using ep_butD(2) [OF i, of x] that fd_other [OF core c(1), of x] by (cases "x = c") (auto simp: owned_by_def)
qed

lemma epoll_add_inv:
  assumes "ep_but X s" "alive s c" "ep_timer s c = None" "c \<notin> set (ep_pend s)" "0 < t"
  shows "ep_but (X - {c}) (epoll_add tv ok c t s)"
proof -
  define s1 where "s1 = add_timer tv c t s"
  define l where "l = (ep_last s1)(c := snd (EqualAndUpdateLastEvents (ep_last s1 c) (hd_events (the (ep_conns s c)))))"
  have s1: "ep_but (X - {c}) s1" "alive s1 c" "c \<notin> set (ep_pend s1)" "conn_fd c s1 = conn_fd c s"
    using add_timer_inv [OF assms(1-4), of tv t] assms(2,4) by (simp_all add: s1_def)
  have "ep_but (X - {c} - {c}) (s1\<lparr>fd2http := (fd2http s1)(conn_fd c s1 \<mapsto> c),
      fd2chan := (fd2chan s1)(conn_fd c s1 := (if ok then Some c else None))\<rparr>)" (is "ep_but _ ?s2")
    by (rule tables_set_inv [OF s1(1-3)]) simp
  then have i: "ep_but (X - {c}) (?s2\<lparr>ep_last := l\<rparr>)" by (simp add: last_reg_inv(1))
  let ?ev = "hd_events (the (ep_conns s c))"
  have "epoll_add tv ok c t s =
      (if ok then (?s2\<lparr>ep_last := l\<rparr>)\<lparr>ep_reg := (ep_reg s1)(conn_fd c s \<mapsto> ?ev)\<rparr> else ?s2\<lparr>ep_last := l\<rparr>)"
    using assms(5) s1(4) by (cases ok) (simp_all add: epoll_add_def Let_def s1_def l_def)
  then show ?thesis using i last_reg_inv(2) [OF i] by (cases ok) simp_all
qed

lemma pend_drop_inv:
  assumes "ep_inv s" "c \<in> set (ep_pend s)"
  shows "ep_but {c} (s\<lparr>ep_pend := remove1 c (ep_pend s)\<rparr>)" "c \<notin> set (remove1 c (ep_pend s))"
proof -
  note d = ep_coreD [OF ep_butD(1) [OF assms(1)]]
  show nc: "c \<notin> set (remove1 c (ep_pend s))" using d(10) by simp
  show "ep_but {c} (s\<lparr>ep_pend := remove1 c (ep_pend s)\<rparr>)"
  proof (rule ep_butI)
    show "ep_core (s\<lparr>ep_pend := remove1 c (ep_pend s)\<rparr>)"
      by (rule ep_coreI) (use d in \<open>auto dest: notin_set_remove1 set_remove1_subset [THEN subsetD]\<close>)
    show "owned_by (s\<lparr>ep_pend := remove1 c (ep_pend s)\<rparr>) x"
      if "alive (s\<lparr>ep_pend := remove1 c (ep_pend s)\<rparr>) x" "x \<notin> {c}" for x
      using ep_butD(2) [OF assms(1), of x] that by (auto simp: owned_by_def)
  qed
qed

lemma run_newEvent_inv:
  assumes "ep_inv s" "c \<in> set (ep_pend s)"
  shows "ep_inv (run_newEvent tv ok c s)"
proof -
  note d = ep_coreD [OF ep_butD(1) [OF assms(1)]]
  obtain x where x: "ep_conns s c = Some x" using d(6) [OF assms(2)] by (auto simp: alive_def)
  let ?d = "x\<lparr>hd_events := DEFAULT_EVENT\<rparr>"
  let ?s = "set_conn c ?d (s\<lparr>ep_pend := remove1 c (ep_pend s)\<rparr>)"
  have al: "alive s c" "ep_timer s c = None" using d(6) [OF assms(2)] by simp_all
  have "ep_but {c} ?s"
    by (rule set_conn_inv) (use pend_drop_inv [OF assms] al in \<open>simp_all add: conn_fd_def x\<close>)
  moreover have "c \<notin> set (ep_pend ?s)" using pend_drop_inv(2) [OF assms] by simp
  ultimately have i: "ep_but ({c} - {c}) (epoll_add tv ok c DEFAULT_EXPIRED_TIME ?s)"
    by (intro epoll_add_inv) (simp_all add: al DEFAULT_EXPIRED_TIME_def)
  have "epoll_add tv ok c DEFAULT_EXPIRED_TIME ?s =
      (epoll_add tv ok c DEFAULT_EXPIRED_TIME (set_conn c ?d s))\<lparr>ep_pend := remove1 c (ep_pend s)\<rparr>"
    by (simp add: epoll_add_def Let_def set_conn_def add_timer_def conn_fd_def split: option.split prod.split)
  moreover have "ep_pend (epoll_add tv ok c DEFAULT_EXPIRED_TIME (set_conn c ?d s)) = ep_pend s"
    by (simp add: epoll_add_def Let_def)
  ultimately have "run_newEvent tv ok c s = reap c (epoll_add tv ok c DEFAULT_EXPIRED_TIME ?s)"
    by (simp add: run_newEvent_def x newEvent_def Let_def)
  then show ?thesis using reap_inv [OF i, of c] by simp
qed

lemma run_event_inv:
  assumes "ep_inv s" "fd2chan s fd = Some c"
  shows "ep_inv (run_event fs tv ok rv w c s)"
proof -
  note d = ep_coreD [OF ep_butD(1) [OF assms(1)]]
  have h: "fd2http s fd = Some c" using d(2) assms(2) by simp
  have al: "alive s c" "conn_fd c s = fd" using d(3) [OF h] by simp_all
  have np: "c \<notin> set (ep_pend s)" using d(6) [of c] h al by auto
  obtain x where x: "ep_conns s c = Some x" using al by (auto simp: alive_def)
  obtain d' w' calls where ce: "conn_events fs rv x w = (d', w', calls)" by (metis surj_pair)
  note sp = conn_events_spec [OF ce]
  define s1 where "s1 = set_conn c d' s"
  have i1: "ep_but {c} s1" "alive s1 c" "c \<notin> set (ep_pend s1)"
    using set_conn_inv [of "{c}" s c d'] assms(1) al np sp(1) x
    by (auto simp: s1_def same_conn_def conn_fd_def ep_but_def)
  define s2 where "s2 = (if hd_timer d' then s1 else drop_timer c s1)"
  have i2: "ep_but {c} s2" "alive s2 c" "c \<notin> set (ep_pend s2)" "\<not> hd_timer d' \<Longrightarrow> ep_timer s2 c = None"
    using i1 drop_timer_inv [OF i1(1), of c] by (simp_all add: s2_def)
  have "ep_but {c} (fold (poller_call tv ok c) calls s2)"
    using sp(2) i2 epoll_mod_inv [OF i2(1,2)] epoll_del_inv [OF i2(1,2)] by auto
  from reap_inv [OF this, of c] have "ep_inv (reap c (fold (poller_call tv ok c) calls s2))" by simp
  then show ?thesis unfolding s2_def s1_def by (simp add: run_event_def x ce Let_def)
qed

lemma close_expired_inv:
  assumes "ep_but X s" "alive s c"
  shows "ep_but (X - {c}) (close_expired ok c s)"
proof -
  obtain x where x: "ep_conns s c = Some x" using assms(2) by (auto simp: alive_def)
  let ?s = "set_conn c (fst (handleClose x)) s"
  have "ep_but X ?s" by (rule set_conn_inv [OF assms]) (simp add: handleClose_def conn_fd_def x)
  moreover have "alive ?s c" by simp
  ultimately have "ep_but (insert c X - {c}) (reap c (epoll_del ok c ?s))"
    by (intro reap_inv epoll_del_inv)
  then show ?thesis by (simp add: close_expired_def x)
qed

lemma close_expired_alive: "x \<noteq> c \<Longrightarrow> alive (close_expired ok c s) x = alive s x"
  by (auto simp: close_expired_def reap_def epoll_del_def Let_def set_conn_def alive_def split: option.split)

lemma close_all_inv:
  "ep_but (set cs) s \<Longrightarrow> (\<And>c. c \<in> set cs \<Longrightarrow> alive s c) \<Longrightarrow> distinct cs \<Longrightarrow> ep_inv (fold (close_expired ok) cs s)"
proof (induction cs arbitrary: s)
  case (Cons c cs)
  have "ep_but (set (c # cs) - {c}) (close_expired ok c s)"
    using Cons.prems by (intro close_expired_inv) auto
  moreover have "set (c # cs) - {c} = set cs" using Cons.prems(3) by auto
  moreover have "alive (close_expired ok c s) x" if "x \<in> set cs" for x
    using close_expired_alive [of x c ok s] Cons.prems(2,3) that by auto
  ultimately show ?case using Cons.IH [of "close_expired ok c s"] Cons.prems(3) by simp
qed simp

text \<open>An expiry round: the connections whose nodes are destroyed lose their timers, and nothing else
  changes before they are closed.\<close>

lemma node_conns_in:
  assumes "tm_ok (ep_tm s)"
  shows "c \<in> set (node_conns (ep_tm s) (take k (tm_queue (ep_tm s)))) \<longleftrightarrow>
    (\<exists>a \<in> snd ` set (take k (tm_queue (ep_tm s))). timed s c a)"
proof -
  have t: "tn_http (the (tm_nodes (ep_tm s) (snd x))) = Some c \<longleftrightarrow> timed s c (snd x)"
    if "x \<in> set (take k (tm_queue (ep_tm s)))" for x
    using tm_okD(3) [OF assms, of "fst x" "snd x"] in_set_takeD [OF that] by (auto simp: timed_def)
  have "c \<in> set (node_conns (ep_tm s) es) \<longleftrightarrow>
      (\<exists>x \<in> set es. tn_http (the (tm_nodes (ep_tm s) (snd x))) = Some c)" for es
    unfolding node_conns_def node_dtor_def by (induction es) (auto split: option.splits)
  then show ?thesis using t by simp
qed

lemma node_conns_distinct:
  assumes "ep_core s" "set es \<subseteq> set (tm_queue (ep_tm s))" "distinct (map snd es)"
  shows "distinct (node_conns (ep_tm s) es)"
  using assms(2,3)
proof (induction es)
  case (Cons x es)
  obtain e a where x: "x = (e, a)" by (cases x)
  note ok = ep_coreD(1) [OF assms(1)]
  have ex: "tm_nodes (ep_tm s) b \<noteq> None" if "(e', b) \<in> set (x # es)" for e' b
    using tm_okD(3) [OF ok, of e' b] Cons.prems(1) that by auto
  have "c \<notin> set (node_conns (ep_tm s) es)" if c: "tn_http (the (tm_nodes (ep_tm s) a)) = Some c" for c
  proof
    assume "c \<in> set (node_conns (ep_tm s) es)"
    then obtain e' b where b: "(e', b) \<in> set es" "tn_http (the (tm_nodes (ep_tm s) b)) = Some c"
      by (auto simp: node_conns_def node_dtor_def split: option.splits)
    have "timed s c a" "timed s c b" using c b ex [of e a] ex [of e' b] x by (auto simp: timed_def)
    then have "a = b" using ep_coreD(4) [OF assms(1), of c] by (metis option.inject)
    then show False using Cons.prems(2) b(1) x by force
  qed
  moreover have "distinct (node_conns (ep_tm s) es)" using Cons by simp
  ultimately show ?case by (auto simp: node_conns_def node_dtor_def x split: option.split)
qed (simp add: node_conns_def)

lemma queue_addresses_distinct:
  assumes "tm_ok tm"
  shows "distinct (map snd (take k (tm_queue tm)))"
proof -
  have "inj_on snd (set (tm_queue tm))"
  proof (rule inj_onI)
    fix x y assume "x \<in> set (tm_queue tm)" "y \<in> set (tm_queue tm)" "snd x = snd y"
    then show "x = y" using tm_okD(3) [OF assms, of "fst x" "snd x"] tm_okD(3) [OF assms, of "fst y" "snd y"]
      by (metis option.inject prod.collapse)
  qed
  then have "distinct (map snd (tm_queue tm))" using tm_okD(2) [OF assms] by (simp add: distinct_map)
  then show ?thesis by (metis distinct_take take_map)
qed

lemma expire_weak_inv:
  assumes i: "ep_inv s" and r: "removed k (ep_tm s) tm'"
    and hs: "hs = node_conns (ep_tm s) (take k (tm_queue (ep_tm s)))"
  shows "ep_but (set hs) (expire_weak tm' s)"
proof -
  note core = ep_butD(1) [OF i]
  note d = ep_coreD [OF core]
  define R where "R = snd ` set (take k (tm_queue (ep_tm s)))"
  have nodes: "tm_nodes tm' = tm_nodes (ep_tm s) |` (- R)" and ok: "tm_ok tm'"
    using r by (simp_all add: removed_def R_def)
  have td: "timed (expire_weak tm' s) c a \<longleftrightarrow> timed s c a \<and> a \<notin> R" for c a
    by (auto simp: timed_def expire_weak_def nodes restrict_map_def)
  have ti: "ep_timer (expire_weak tm' s) c = Some a \<longleftrightarrow> ep_timer s c = Some a \<and> a \<notin> R" for c a
    using d(4) [of c a] by (auto simp: expire_weak_def nodes restrict_map_def timed_def split: option.split)
  have al: "alive (expire_weak tm' s) = alive s" "conn_fd c (expire_weak tm' s) = conn_fd c s" for c
    by (auto simp: alive_def conn_fd_def expire_weak_def)
  have fr: "fd2chan (expire_weak tm' s) = fd2chan s" "fd2http (expire_weak tm' s) = fd2http s"
    "ep_pend (expire_weak tm' s) = ep_pend s" "ep_closed (expire_weak tm' s) = ep_closed s"
    "ep_tm (expire_weak tm' s) = tm'" by (simp_all add: expire_weak_def)
  have nt: "ep_timer (expire_weak tm' s) c = None" if "ep_timer s c = None" for c
    using that by (simp add: expire_weak_def)
  show ?thesis
  proof (rule ep_butI)
    show "ep_core (expire_weak tm' s)"
    proof (rule ep_coreI)
      show "(ep_timer (expire_weak tm' s) c = Some a) = timed (expire_weak tm' s) c a" for c a
        using d(4) [of c a] by (simp add: td ti)
      show "ep_timer (expire_weak tm' s) c \<noteq> None \<Longrightarrow> alive (expire_weak tm' s) c" for c
        using d(5) [of c] nt [of c] by (cases "ep_timer s c") (simp_all add: al)
    qed (use ok d nt in \<open>simp_all add: al fr\<close>)
    show "owned_by (expire_weak tm' s) c" if "alive (expire_weak tm' s) c" "c \<notin> set hs" for c
    proof (cases "ep_timer s c")
      case None
      then show ?thesis using ep_butD(2) [OF i, of c] that by (auto simp: owned_by_def al fr)
    next
      case (Some a)
      then have "timed s c a" using d(4) by simp
      then have "a \<notin> R" using that(2) node_conns_in [OF d(1), of c k] by (auto simp: hs R_def)
      then show ?thesis using Some ti [of c a] by (simp add: owned_by_def)
    qed
  qed
qed

lemma handleExpired_inv:
  assumes i: "ep_inv s"
  shows "ep_inv (handleExpired clk ok s)"
proof -
  note core = ep_butD(1) [OF i]
  obtain hs tm' where e: "handleExpiredEvent clk (ep_tm s) = (hs, tm')" by (metis surj_pair)
  obtain k where k: "removed k (ep_tm s) tm'" "hs = node_conns (ep_tm s) (take k (tm_queue (ep_tm s)))"
    using expire_loop_spec [OF ep_coreD(1) [OF core], of clk] e by (auto simp: handleExpiredEvent_def)
  have "ep_inv (fold (close_expired ok) hs (expire_weak tm' s))"
  proof (rule close_all_inv [OF expire_weak_inv [OF i k]])
    show "alive (expire_weak tm' s) c" if c: "c \<in> set hs" for c
    proof -
      obtain a where "timed s c a"
        using node_conns_in [OF ep_coreD(1) [OF core], of c k] c unfolding k(2) [symmetric] by blast
      then have "ep_timer s c = Some a" using ep_coreD(4) [OF core] by simp
      then show ?thesis using ep_coreD(5) [OF core, of c] by (simp add: alive_def expire_weak_def)
    qed
    show "distinct hs"
      unfolding k(2) using set_take_subset
      by (rule node_conns_distinct [OF core _ queue_addresses_distinct [OF ep_coreD(1) [OF core]]])
  qed
  then show ?thesis by (simp add: handleExpired_def e)
qed

lemma accept_conn_inv:
  assumes i: "ep_inv s" and c: "ep_conns s c = None" "c \<notin> set (ep_closed s)"
    and fd: "0 < fd" "fd < MAXFDS" "\<And>c' d'. ep_conns s c' = Some d' \<Longrightarrow> hd_fd d' \<noteq> fd"
  shows "ep_inv (accept_conn c fd s)"
proof -
  note core = ep_butD(1) [OF i]
  note d = ep_coreD [OF core]
  have al: "alive (accept_conn c fd s) x \<longleftrightarrow> x = c \<or> alive s x"
    "conn_fd x (accept_conn c fd s) = (if x = c then fd else conn_fd x s)" "timed (accept_conn c fd s) = timed s" for x
    by (auto simp: alive_def conn_fd_def timed_def accept_conn_def HttpData_make_def fun_eq_iff)
  have fr: "fd2chan (accept_conn c fd s) = fd2chan s" "fd2http (accept_conn c fd s) = fd2http s"
    "ep_pend (accept_conn c fd s) = ep_pend s @ [c]" "ep_closed (accept_conn c fd s) = ep_closed s"
    "ep_tm (accept_conn c fd s) = ep_tm s" "ep_timer (accept_conn c fd s) = ep_timer s"
    by (simp_all add: accept_conn_def)
  have nc: "\<not> alive s c" using c(1) by (simp add: alive_def)
  have nf: "conn_fd x s \<noteq> fd" if "alive s x" for x using fd(3) that by (auto simp: alive_def conn_fd_def)
  have no: "c \<notin> set (ep_pend s)" "ep_timer s c = None" "fd2http s f \<noteq> Some c" for f
    using d(6) [of c] d(5) [of c] d(3) [of f c] nc by blast+
  show ?thesis
  proof (rule ep_butI)
    show "ep_core (accept_conn c fd s)"
    proof (rule ep_coreI)
      show "fd2http (accept_conn c fd s) f = Some x \<Longrightarrow>
          alive (accept_conn c fd s) x \<and> conn_fd x (accept_conn c fd s) = f" for f x
        using d(3) [of f x] no(3) [of f] by (auto simp: al fr)
      show "x \<in> set (ep_pend (accept_conn c fd s)) \<Longrightarrow> alive (accept_conn c fd s) x \<and>
          ep_timer (accept_conn c fd s) x = None \<and>
          fd2http (accept_conn c fd s) (conn_fd x (accept_conn c fd s)) \<noteq> Some x" for x
        using d(6) [of x] no by (auto simp: al fr)
      show "alive (accept_conn c fd s) x \<Longrightarrow> alive (accept_conn c fd s) y \<Longrightarrow>
          conn_fd x (accept_conn c fd s) = conn_fd y (accept_conn c fd s) \<Longrightarrow> x = y" for x y
        using d(7) [of x y] nf [of x] nf [of y] by (cases "x = c"; cases "y = c") (simp_all add: al)
      show "alive (accept_conn c fd s) x \<Longrightarrow>
          0 < conn_fd x (accept_conn c fd s) \<and> conn_fd x (accept_conn c fd s) < MAXFDS" for x
        using d(8) [of x] fd by (auto simp: al)
      show "x \<in> set (ep_closed (accept_conn c fd s)) \<Longrightarrow> \<not> alive (accept_conn c fd s) x" for x
        using d(9) [of x] c(2) by (auto simp: al fr)
      show "ep_timer (accept_conn c fd s) x \<noteq> None \<Longrightarrow> alive (accept_conn c fd s) x" for x
        using d(5) [of x] by (simp add: al fr)
    qed (use d no in \<open>simp_all add: al fr\<close>)
    show "owned_by (accept_conn c fd s) x" if "alive (accept_conn c fd s) x" for x
      using ep_butD(2) [OF i, of x] that by (auto simp: owned_by_def al fr)
  qed
qed

lemma Epoll_make_inv: "ep_inv Epoll_make"
proof (rule ep_butI)
  show "ep_core Epoll_make"
    by (rule ep_coreI) (use tm_ok_make in \<open>simp_all add: Epoll_make_def alive_def timed_def TimerManager_make_def\<close>)
qed (simp add: Epoll_make_def alive_def)

lemma ep_step_inv: "ep_step l s s' \<Longrightarrow> ep_inv s \<Longrightarrow> ep_inv s'"
  by (induction rule: ep_step.induct)
    (auto intro: accept_conn_inv run_newEvent_inv run_event_inv handleExpired_inv)

definition ep_move :: "Epoll \<Rightarrow> Epoll \<Rightarrow> bool" where
  "ep_move s s' \<longleftrightarrow> (\<exists>l. ep_step l s s')"

lemma ep_moves_inv: "ep_move\<^sup>*\<^sup>* s s' \<Longrightarrow> ep_inv s \<Longrightarrow> ep_inv s'"
  by (induction rule: rtranclp_induct) (auto simp: ep_move_def intro: ep_step_inv)

section \<open>What an operation leaves alone\<close>

text \<open>Everything the poller has on connection \<open>c\<close> with descriptor \<open>fd\<close>.\<close>

definition view :: "nat \<Rightarrow> fd \<Rightarrow> Epoll \<Rightarrow> _" where
  "view c fd s = (ep_conns s c, ep_timer s c, fd2http s fd, fd2chan s fd, ep_reg s fd, c \<in> set (ep_pend s))"

lemma view_ops:
  assumes "x \<noteq> c"
  shows "view c fd (set_conn x d s) = view c fd s" "view c fd (drop_timer x s) = view c fd s"
    "view c fd (add_timer tv x t s) = view c fd s"
    "conn_fd x s \<noteq> fd \<Longrightarrow> view c fd (reap x s) = view c fd s"
    "conn_fd x s \<noteq> fd \<Longrightarrow> view c fd (epoll_add tv ok x t s) = view c fd s"
    "conn_fd x s \<noteq> fd \<Longrightarrow> view c fd (epoll_mod tv ok x t s) = view c fd s"
    "conn_fd x s \<noteq> fd \<Longrightarrow> view c fd (epoll_del ok x s) = view c fd s"
    "view c fd (s\<lparr>ep_pend := remove1 x (ep_pend s)\<rparr>) = view c fd s"
  using assms
  by (auto simp: view_def set_conn_def drop_timer_def add_timer_def reap_def epoll_add_def epoll_mod_def epoll_del_def
      Let_def split: option.split prod.split)

lemma conn_fd_kept [simp]:
  "conn_fd x (epoll_add tv ok y t s) = conn_fd x s" "conn_fd x (epoll_mod tv ok y t s) = conn_fd x s"
  "conn_fd x (epoll_del ok y s) = conn_fd x s"
  by (simp_all add: epoll_add_def epoll_mod_def epoll_del_def Let_def split: prod.split)

lemma poller_call_view:
  assumes "x \<noteq> c" "conn_fd x s \<noteq> fd"
  shows "view c fd (poller_call tv ok x p s) = view c fd s" "conn_fd y (poller_call tv ok x p s) = conn_fd y s"
  using assms by (cases p; simp add: view_ops)+

lemma poller_calls_view:
  "x \<noteq> c \<Longrightarrow> conn_fd x s \<noteq> fd \<Longrightarrow> view c fd (fold (poller_call tv ok x) ps s) = view c fd s"
  "x \<noteq> c \<Longrightarrow> conn_fd x s \<noteq> fd \<Longrightarrow> conn_fd y (fold (poller_call tv ok x) ps s) = conn_fd y s"
  by (induction ps arbitrary: s) (simp_all add: poller_call_view)

text \<open>The steps of other connections.\<close>

lemma run_newEvent_view:
  assumes "x \<noteq> c" "conn_fd x s \<noteq> fd"
  shows "view c fd (run_newEvent tv ok x s) = view c fd s"
proof (cases "ep_conns s x")
  case (Some d)
  let ?s = "set_conn x (d\<lparr>hd_events := DEFAULT_EVENT\<rparr>) s"
  have "conn_fd x ?s \<noteq> fd" using assms(2) Some by (simp add: conn_fd_def set_conn_def)
  then show ?thesis
    using assms(1) Some by (simp add: run_newEvent_def newEvent_def Let_def view_ops)
qed (simp add: run_newEvent_def)

lemma run_event_view:
  assumes "x \<noteq> c" "conn_fd x s \<noteq> fd"
  shows "view c fd (run_event fs tv ok rv w x s) = view c fd s"
proof (cases "ep_conns s x")
  case (Some d)
  obtain d' w' calls where ce: "conn_events fs rv d w = (d', w', calls)" by (metis surj_pair)
  define s2 where "s2 = (if hd_timer d' then set_conn x d' s else drop_timer x (set_conn x d' s))"
  have "conn_fd x s2 \<noteq> fd"
    using conn_events_spec(1) [OF ce] assms(2) Some by (simp add: s2_def same_conn_def conn_fd_def set_conn_def)
  moreover have "view c fd s2 = view c fd s" using assms(1) by (simp add: s2_def view_ops)
  ultimately have "view c fd (reap x (fold (poller_call tv ok x) calls s2)) = view c fd s"
    using assms(1) by (simp add: view_ops poller_calls_view)
  then show ?thesis unfolding s2_def by (simp add: run_event_def Some ce Let_def)
qed (simp add: run_event_def)

lemma close_expired_view:
  assumes "x \<noteq> c" "conn_fd x s \<noteq> fd"
  shows "view c fd (close_expired ok x s) = view c fd s"
proof (cases "ep_conns s x")
  case (Some d)
  let ?s = "set_conn x (fst (handleClose d)) s"
  have "conn_fd x ?s \<noteq> fd" using assms(2) Some by (simp add: conn_fd_def handleClose_def set_conn_def)
  then show ?thesis using assms(1) Some by (simp add: close_expired_def view_ops)
qed (simp add: close_expired_def)

lemma close_expired_fd: "y \<noteq> x \<Longrightarrow> conn_fd y (close_expired ok x s) = conn_fd y s"
  by (auto simp: close_expired_def reap_def epoll_del_def Let_def set_conn_def conn_fd_def split: option.split)

lemma close_all_view:
  "c \<notin> set cs \<Longrightarrow> (\<And>x. x \<in> set cs \<Longrightarrow> conn_fd x s \<noteq> fd) \<Longrightarrow> distinct cs \<Longrightarrow>
    view c fd (fold (close_expired ok) cs s) = view c fd s"
proof (induction cs arbitrary: s)
  case (Cons x cs)
  have "view c fd (fold (close_expired ok) cs (close_expired ok x s)) = view c fd (close_expired ok x s)"
  proof (rule Cons.IH)
    show "conn_fd y (close_expired ok x s) \<noteq> fd" if "y \<in> set cs" for y
      using Cons.prems(2) [of y] Cons.prems(3) that close_expired_fd [of y x ok s] by (cases "y = x") simp_all
  qed (use Cons.prems in simp_all)
  also have "\<dots> = view c fd s" using Cons.prems by (intro close_expired_view) auto
  finally show ?case by simp
qed simp

text \<open>An expiry round, unfolded.\<close>

lemma handleExpired_cases:
  assumes i: "ep_inv s"
  obtains hs tm' where "handleExpired clk ok s = fold (close_expired ok) hs (expire_weak tm' s)"
    "ep_but (set hs) (expire_weak tm' s)" "distinct hs" "\<And>c. c \<in> set hs \<Longrightarrow> ep_timer s c \<noteq> None"
    "\<And>c a. ep_timer s c = Some a \<Longrightarrow> c \<notin> set hs \<Longrightarrow> tm_nodes tm' a = tm_nodes (ep_tm s) a"
    "tm' = snd (expire_loop clk (ep_tm s))" "tm_ok tm'" "\<And>c. c \<in> set hs \<Longrightarrow> ep_timer (expire_weak tm' s) c = None"
proof -
  note core = ep_butD(1) [OF i]
  note d = ep_coreD [OF core]
  obtain hs tm' where e: "handleExpiredEvent clk (ep_tm s) = (hs, tm')" by (metis surj_pair)
  obtain k where k: "removed k (ep_tm s) tm'" "hs = node_conns (ep_tm s) (take k (tm_queue (ep_tm s)))"
    using expire_loop_spec [OF d(1), of clk] e by (auto simp: handleExpiredEvent_def)
  define R where "R = snd ` set (take k (tm_queue (ep_tm s)))"
  have hs: "c \<in> set hs \<longleftrightarrow> (\<exists>a \<in> R. ep_timer s c = Some a)" for c
    using node_conns_in [OF d(1), of c k] d(4) [of c] by (simp add: R_def k(2))
  have nodes: "tm_nodes tm' = tm_nodes (ep_tm s) |` (- R)" using k(1) by (simp add: removed_def R_def)
  show thesis
  proof (rule that [OF _ expire_weak_inv [OF i k]])
    show "distinct hs"
      unfolding k(2) using set_take_subset
      by (rule node_conns_distinct [OF core _ queue_addresses_distinct [OF d(1)]])
    show "tm_nodes tm' a = tm_nodes (ep_tm s) a" if "ep_timer s c = Some a" "c \<notin> set hs" for c a
      using that hs [of c] by (auto simp: nodes restrict_map_def)
    show "ep_timer (expire_weak tm' s) c = None" if "c \<in> set hs" for c
      using that hs [of c] by (auto simp: nodes expire_weak_def restrict_map_def)
    show "tm_ok tm'" using k(1) by (simp add: removed_def)
  qed (use e hs in \<open>auto simp: handleExpired_def handleExpiredEvent_def\<close>)
qed

text \<open>A connection that has just been accepted, and the functor that registers it.\<close>

lemma run_newEvent_registers:
  assumes i: "ep_inv s" and c: "c \<in> set (ep_pend s)" and s': "s' = run_newEvent tv True c s"
  shows "fd2chan s' (conn_fd c s) = Some c" "ep_reg s' (conn_fd c s) = Some DEFAULT_EVENT"
    "ep_timer s' c = Some (tm_fresh (ep_tm s))"
    "tm_nodes (ep_tm s') (tm_fresh (ep_tm s)) = Some (TimerNode_make tv c DEFAULT_EXPIRED_TIME)"
proof -
  obtain d where d: "ep_conns s c = Some d"
    using ep_coreD(6) [OF ep_butD(1) [OF i] c] by (auto simp: alive_def)
  let ?d = "d\<lparr>hd_events := DEFAULT_EVENT\<rparr>"
  define s1 where "s1 = epoll_add tv True c DEFAULT_EXPIRED_TIME (set_conn c ?d s)"
  define s2 where "s2 = s1\<lparr>ep_pend := remove1 c (ep_pend s1)\<rparr>"
  have s2: "fd2chan s2 (conn_fd c s) = Some c" "ep_reg s2 (conn_fd c s) = Some DEFAULT_EVENT"
    "ep_timer s2 c = Some (tm_fresh (ep_tm s))" "fd2http s2 (conn_fd c s2) = Some c"
    "tm_nodes (ep_tm s2) (tm_fresh (ep_tm s)) = Some (TimerNode_make tv c DEFAULT_EXPIRED_TIME)"
    by (simp_all add: s2_def s1_def epoll_add_def Let_def DEFAULT_EXPIRED_TIME_def add_timer_def addTimer_def
        set_conn_def conn_fd_def d)
  then have "reap c s2 = s2" by (simp add: reap_def owned_def)
  then have "s' = s2" by (simp add: s' run_newEvent_def d newEvent_def Let_def s1_def [symmetric] s2_def [symmetric])
  with s2 show "fd2chan s' (conn_fd c s) = Some c" "ep_reg s' (conn_fd c s) = Some DEFAULT_EVENT"
    "ep_timer s' c = Some (tm_fresh (ep_tm s))"
    "tm_nodes (ep_tm s') (tm_fresh (ep_tm s)) = Some (TimerNode_make tv c DEFAULT_EXPIRED_TIME)" by simp_all
qed

section \<open>Properties of the loop\<close>

text \<open>C19. After any sequence of accepts, queued functors, socket events and expiry rounds, a channel in
  the poller's table belongs to a connection object that still exists, has that descriptor, and
  the descriptor is one that fits the tables: no event is dispatched to a destroyed object.\<close>

theorem poller_no_dangling:
  assumes "ep_move\<^sup>*\<^sup>* Epoll_make s" "fd2chan s fd = Some c"
  shows "\<exists>d. ep_conns s c = Some d \<and> hd_fd d = fd \<and> 0 < fd \<and> fd < MAXFDS"
proof -
  note d = ep_coreD [OF ep_butD(1) [OF ep_moves_inv [OF assms(1) Epoll_make_inv]]]
  have "alive s c" "conn_fd c s = fd" using d(3) [OF d(2) [OF assms(2)]] by simp_all
  then show ?thesis using d(8) [of c] by (auto simp: alive_def conn_fd_def)
qed

text \<open>C8. After any sequence of steps of the loop an object that exists is owned by a queued functor, the
  table or a timer, at most one timer holds it, and it has not been destroyed before: no
  connection is lost by the poller and none is destroyed twice.\<close>

theorem poller_owns_connections:
  assumes "ep_move\<^sup>*\<^sup>* Epoll_make s" "ep_conns s c = Some d"
  shows "owned c s \<and> c \<notin> set (ep_closed s) \<and> distinct (ep_closed s) \<and>
    (\<forall>a b. (\<exists>n. tm_nodes (ep_tm s) a = Some n \<and> tn_http n = Some c) \<longrightarrow>
           (\<exists>n. tm_nodes (ep_tm s) b = Some n \<and> tn_http n = Some c) \<longrightarrow> a = b)"
proof -
  note i = ep_moves_inv [OF assms(1) Epoll_make_inv]
  note d = ep_coreD [OF ep_butD(1) [OF i]]
  have al: "alive s c" using assms(2) by (simp add: alive_def)
  have "owned c s" using ep_butD(2) [OF i al] owned_iff [OF ep_butD(1) [OF i]] by simp
  moreover have "timed s c a \<Longrightarrow> timed s c b \<Longrightarrow> a = b" for a b using d(4) [of c] by (metis option.inject)
  ultimately show ?thesis using d(9) [of c] d(11) al unfolding timed_def by blast
qed

lemma close_expired_dead:
  assumes "ep_core s" "alive s c" "ep_timer s c = None" "c \<notin> set (ep_pend s)"
  shows "\<not> alive (close_expired ok c s) c \<and> c \<in> set (ep_closed (close_expired ok c s)) \<and>
    fd2chan (close_expired ok c s) (conn_fd c s) = None"
proof -
  obtain x where x: "ep_conns s c = Some x" using assms(2) by (auto simp: alive_def)
  define s1 where "s1 = epoll_del ok c (set_conn c (fst (handleClose x)) s)"
  have fd: "hd_fd (fst (handleClose x)) = conn_fd c s" by (simp add: handleClose_def conn_fd_def x)
  have i: "ep_but UNIV (set_conn c (fst (handleClose x)) s)"
    by (rule set_conn_inv) (use assms(1,2) fd in \<open>simp_all add: ep_but_def\<close>)
  have "ep_core s1" using ep_butD(1) [OF epoll_del_inv [OF i, of c ok]] by (simp add: s1_def)
  moreover have "\<not> owned_by s1 c"
    using assms(3,4) fd by (simp add: owned_by_def s1_def epoll_del_def Let_def)
  moreover have "alive s1 c" "fd2chan s1 (conn_fd c s) = None"
    using fd by (simp_all add: s1_def epoll_del_def Let_def)
  ultimately have "\<not> alive (reap c s1) c \<and> c \<in> set (ep_closed (reap c s1)) \<and> fd2chan (reap c s1) (conn_fd c s) = None"
    by (simp add: reap_def owned_iff) (simp add: alive_def)
  then show ?thesis by (simp add: close_expired_def x s1_def)
qed

lemma close_all_core:
  "ep_core s \<Longrightarrow> (\<And>x. x \<in> set cs \<Longrightarrow> alive s x) \<Longrightarrow> distinct cs \<Longrightarrow>
    ep_core (fold (close_expired ok) cs s) \<and> set (ep_closed s) \<subseteq> set (ep_closed (fold (close_expired ok) cs s))"
proof (induction cs arbitrary: s)
  case (Cons a cs)
  have "ep_core (close_expired ok a s)" using close_expired_inv [of UNIV s a ok] Cons.prems by (simp add: ep_but_def)
  moreover have "alive (close_expired ok a s) x" if "x \<in> set cs" for x
    using close_expired_alive [of x a ok s] Cons.prems(2,3) that by auto
  moreover have "set (ep_closed s) \<subseteq> set (ep_closed (close_expired ok a s))"
    by (auto simp: close_expired_def reap_def epoll_del_def Let_def split: option.split)
  ultimately show ?case using Cons.IH [of "close_expired ok a s"] Cons.prems(3) by auto
qed simp

lemma close_all_alive: "x \<notin> set cs \<Longrightarrow> alive (fold (close_expired ok) cs s) x = alive s x"
  by (induction cs arbitrary: s) (simp_all add: close_expired_alive)

lemma close_all_dead:
  assumes "ep_but (set cs) s" "distinct cs" "c \<in> set cs" "\<And>x. x \<in> set cs \<Longrightarrow> alive s x \<and> ep_timer s x = None \<and> x \<notin> set (ep_pend s)"
  shows "\<not> alive (fold (close_expired ok) cs s) c \<and> c \<in> set (ep_closed (fold (close_expired ok) cs s)) \<and>
    fd2chan (fold (close_expired ok) cs s) (conn_fd c s) = None"
proof -
  obtain ys zs where cs: "cs = ys @ c # zs" using assms(3) by (meson split_list)
  define s1 where "s1 = fold (close_expired ok) ys s"
  have gen: "view c (conn_fd c s) (fold (close_expired ok) ys s) = view c (conn_fd c s) s"
    using assms(2) cs fd_other [OF ep_butD(1) [OF assms(1)], of c] assms(4) by (intro close_all_view) auto
  have c1: "ep_core s1" using close_all_core [of s ys] assms cs by (simp add: s1_def ep_butD(1))
  have v1: "alive s1 c" "ep_timer s1 c = None" "c \<notin> set (ep_pend s1)" "conn_fd c s1 = conn_fd c s"
    using gen assms(4) [of c] cs by (auto simp: s1_def view_def alive_def conn_fd_def)
  define s2 where "s2 = close_expired ok c s1"
  have s2: "\<not> alive s2 c" "c \<in> set (ep_closed s2)" "fd2chan s2 (conn_fd c s) = None"
    using close_expired_dead [OF c1 v1(1-3), of ok] v1(4) by (simp_all add: s2_def)
  have c2: "ep_core s2" using close_expired_inv [of UNIV s1 c ok] c1 v1(1) by (simp add: s2_def ep_but_def)
  have zs: "alive s2 x" "conn_fd x s2 \<noteq> conn_fd c s" if "x \<in> set zs" for x
  proof -
    have x: "x \<noteq> c" "x \<notin> set ys" "alive s x" using that assms(2,4) cs by auto
    then show "alive s2 x" using close_expired_alive [of x c ok s1] close_all_alive [of x ys ok s] by (simp add: s2_def s1_def)
    have "alive s1 x" using x close_all_alive [of x ys ok s] by (simp add: s1_def)
    then have "conn_fd x s1 \<noteq> conn_fd c s" using fd_other [OF c1 v1(1) _ x(1)] v1(4) by simp
    then show "conn_fd x s2 \<noteq> conn_fd c s" using close_expired_fd [OF x(1), of ok s1] by (simp add: s2_def)
  qed
  have "view c (conn_fd c s) (fold (close_expired ok) zs s2) = view c (conn_fd c s) s2"
    using assms(2) cs zs(2) by (intro close_all_view) auto
  moreover have "c \<in> set (ep_closed (fold (close_expired ok) zs s2))" using close_all_core [OF c2 zs(1)] s2(2) assms(2) cs by auto
  moreover have "fold (close_expired ok) cs s = fold (close_expired ok) zs s2" by (simp add: cs s1_def s2_def)
  ultimately show ?thesis using s2 by (simp add: view_def alive_def)
qed

text \<open>C31. An expiry round destroys every connection whose timer has run out: the object is gone, its
  descriptor is closed and the poller has no channel for it any more.\<close>

theorem expired_connection_closed:
  assumes i: "ep_inv s" and d: "ep_conns s c = Some d" and a: "ep_timer s c = Some a"
    and n: "tm_nodes (ep_tm s) a = Some n" "int (tn_exp n) \<le> t"
    and clk: "\<And>k. tv_ok (clk k) \<and> now_ms (clk k) = t"
  shows "ep_conns (handleExpired clk ok s) c = None \<and> c \<in> set (ep_closed (handleExpired clk ok s)) \<and>
    fd2chan (handleExpired clk ok s) (hd_fd d) = None"
proof -
  note core = ep_coreD [OF ep_butD(1) [OF i]]
  obtain hs tm' where e: "handleExpired clk ok s = fold (close_expired ok) hs (expire_weak tm' s)"
    "ep_but (set hs) (expire_weak tm' s)" "distinct hs" "\<And>x. x \<in> set hs \<Longrightarrow> ep_timer s x \<noteq> None"
    "\<And>x b. ep_timer s x = Some b \<Longrightarrow> x \<notin> set hs \<Longrightarrow> tm_nodes tm' b = tm_nodes (ep_tm s) b"
    "tm' = snd (expire_loop clk (ep_tm s))" "tm_ok tm'" "\<And>x. x \<in> set hs \<Longrightarrow> ep_timer (expire_weak tm' s) x = None"
    using handleExpired_cases [OF i, of clk ok] by blast
  have "c \<in> set hs"
  proof (rule ccontr)
    assume "c \<notin> set hs"
    then have "tm_nodes tm' a = Some n" using e(5) [OF a] n(1) by simp
    then have "(tn_exp n, a) \<in> set (tm_queue tm')" using tm_okD(3) [OF e(7)] by blast
    then have "t < int (tn_exp n)" using expire_loop_rest [OF core(1), of clk t] clk e(6) by blast
    with n(2) show False by simp
  qed
  moreover have "alive (expire_weak tm' s) x \<and> ep_timer (expire_weak tm' s) x = None \<and> x \<notin> set (ep_pend (expire_weak tm' s))"
    if "x \<in> set hs" for x
    using core(5) [OF e(4) [OF that]] core(6) [of x] e(4,8) [OF that] by (auto simp: expire_weak_def alive_def)
  moreover have "conn_fd c (expire_weak tm' s) = hd_fd d" by (simp add: conn_fd_def expire_weak_def d)
  ultimately show ?thesis using close_all_dead [OF e(2,3), of c ok] unfolding e(1) by (simp add: alive_def)
qed

text \<open>A connection without a timer changes only by its own events.\<close>

definition stuck :: "nat \<Rightarrow> HttpData \<Rightarrow> 32 word option \<Rightarrow> Epoll \<Rightarrow> bool" where
  "stuck c d ev s \<longleftrightarrow> ep_inv s \<and> view c (hd_fd d) s = (Some d, None, Some c, fd2chan s (hd_fd d), ev, False)"

definition quiet :: "nat \<Rightarrow> Epoll \<Rightarrow> Epoll \<Rightarrow> bool" where
  "quiet c s s' \<longleftrightarrow> (\<exists>l. l \<noteq> L_event c \<and> ep_step l s s')"

lemma stuckD:
  assumes "stuck c d ev s"
  shows "ep_inv s" "ep_conns s c = Some d" "ep_timer s c = None" "c \<notin> set (ep_pend s)" "fd2http s (hd_fd d) = Some c"
    "alive s c" "x \<noteq> c \<Longrightarrow> alive s x \<Longrightarrow> conn_fd x s \<noteq> hd_fd d" "ep_reg s (hd_fd d) = ev"
proof -
  show c: "ep_inv s" "ep_conns s c = Some d" "ep_timer s c = None" "c \<notin> set (ep_pend s)" "fd2http s (hd_fd d) = Some c"
    "alive s c" "ep_reg s (hd_fd d) = ev"
    using assms by (simp_all add: stuck_def view_def alive_def)
  show "x \<noteq> c \<Longrightarrow> alive s x \<Longrightarrow> conn_fd x s \<noteq> hd_fd d"
    using fd_other [OF ep_butD(1) [OF c(1)] c(6), of x] c(2) by (simp add: conn_fd_def)
qed

lemma stuckI: "stuck c d ev s \<Longrightarrow> ep_inv s' \<Longrightarrow> view c (hd_fd d) s' = view c (hd_fd d) s \<Longrightarrow> stuck c d ev s'"
  by (simp add: stuck_def view_def)

lemma quiet_stuck:
  assumes "quiet c s s'" "stuck c d ev s"
  shows "stuck c d ev s'"
proof -
  note k = stuckD [OF assms(2)]
  note dd = ep_coreD [OF ep_butD(1) [OF k(1)]]
  obtain l where l: "l \<noteq> L_event c" "ep_step l s s'" using assms(1) by (auto simp: quiet_def)
  have "view c (hd_fd d) s' = view c (hd_fd d) s"
    using l(2)
  proof cases
    case (accept x fd)
    then show ?thesis using k(2) by (cases "x = c") (simp_all add: accept_conn_def view_def)
  next
    case (new_event x tv ok)
    then have "x \<noteq> c" "alive s x" using k(4) dd(6) [of x] by auto
    then show ?thesis using run_newEvent_view k(7) new_event by metis
  next
    case (event fd x fs tv ok rv w)
    then have "x \<noteq> c" "alive s x" using l(1) dd(3) [OF dd(2), of fd x] by auto
    then show ?thesis using run_event_view k(7) event by metis
  next
    case (expire clk ok)
    obtain hs tm' where e: "handleExpired clk ok s = fold (close_expired ok) hs (expire_weak tm' s)"
      "distinct hs" "\<And>x. x \<in> set hs \<Longrightarrow> ep_timer s x \<noteq> None"
      by (rule handleExpired_cases [OF k(1), of clk ok]) (rule that, assumption+)
    have "c \<notin> set hs" using e(3) [of c] k(3) by auto
    moreover have "conn_fd x (expire_weak tm' s) \<noteq> hd_fd d" if "x \<in> set hs" for x
      using k(7) [of x] e(3) [OF that] k(3) dd(5) [of x] by (cases "x = c") (simp_all add: conn_fd_def expire_weak_def)
    ultimately have "view c (hd_fd d) s' = view c (hd_fd d) (expire_weak tm' s)"
      using close_all_view [of c hs "expire_weak tm' s" "hd_fd d" ok] e(1,2) expire by simp
    then show ?thesis using k(3) by (simp add: view_def expire_weak_def)
  qed
  then show ?thesis using stuckI [OF assms(2)] ep_step_inv [OF l(2) k(1)] by blast
qed

lemma quiets_stuck: "(quiet c)\<^sup>*\<^sup>* s s' \<Longrightarrow> stuck c d ev s \<Longrightarrow> stuck c d ev s'"
  by (induction rule: rtranclp_induct) (auto intro: quiet_stuck)

text \<open>A connection whose peer has stopped sending while part of the answer is still to be written is
  left as it is: its timer has been taken away and no new one is set, the poller is not told of
  the events it waits for, and no later step of the loop closes it as long as the kernel reports
  nothing more for it, which an interest armed for a single event never does.\<close>

theorem half_closed_leaks:
  assumes i: "ep_inv s" and c: "fd2chan s (hd_fd d) = Some c" "ep_conns s c = Some d"
    and r: "handleRead fs (d\<lparr>hd_events := 0\<rparr>, w) = (d1, w1)"
    and h: "\<not> hd_error d1" "hd_conn d1 = H_DISCONNECTING" "and (hd_events d1) EPOLLOUT \<noteq> 0"
    and q: "(quiet c)\<^sup>*\<^sup>* (run_event fs tv ok EPOLLIN w c s) s'"
  shows "(\<exists>d'. ep_conns s' c = Some d' \<and> hd_out d' = hd_out d1) \<and> ep_timer s' c = None \<and>
    ep_reg s' (hd_fd d) = ep_reg s (hd_fd d)"
proof -
  note dd = ep_coreD [OF ep_butD(1) [OF i]]
  define d' where "d' = d1\<lparr>hd_timer := False, hd_events := or EPOLLOUT EPOLLET\<rparr>"
  have ce: "conn_events fs EPOLLIN d w = (d', w1, [])"
    using r h by (simp add: conn_events_def handleEvents_read Let_def conn_zero_def conn_read_def
        conn_conn_def handleConn_def seperateTimer_def d'_def)
  have fd: "hd_fd d' = hd_fd d" using handleRead_same [OF r] by (simp add: d'_def same_conn_def)
  have h: "fd2http s (hd_fd d) = Some c" using dd(2) c(1) by simp
  have np: "c \<notin> set (ep_pend s)" using dd(6) [of c] h c(2) by (auto simp: conn_fd_def)
  let ?s = "drop_timer c (set_conn c d' s)"
  have ov: "ep_core ?s \<and> owned_by ?s c"
  proof
    have "ep_but {c} (set_conn c d' s)"
      by (rule set_conn_inv) (use i c fd in \<open>simp_all add: ep_but_def alive_def conn_fd_def\<close>)
    then show "ep_core ?s" using ep_butD(1) drop_timer_inv by blast
    show "owned_by ?s c" using h fd by (simp add: owned_by_def)
  qed
  have run: "run_event fs tv ok EPOLLIN w c s = ?s"
    using ov owned_iff [of ?s c] by (simp add: run_event_def c(2) ce Let_def d'_def reap_def)
  have "stuck c d' (ep_reg s (hd_fd d)) ?s"
    unfolding stuck_def
  proof
    show "ep_inv ?s" using run_event_inv [OF i c(1), of fs tv ok EPOLLIN w] run by simp
    show "view c (hd_fd d') ?s = (Some d', None, Some c, fd2chan ?s (hd_fd d'), ep_reg s (hd_fd d), False)"
      using h np fd by (simp add: view_def) (simp add: set_conn_def)
  qed
  from stuckD [OF quiets_stuck [OF q [unfolded run] this]] fd show ?thesis by (simp add: d'_def)
qed

section \<open>Concrete runs\<close>

text \<open>One connection on descriptor 5, accepted and registered.\<close>

definition tv0 :: timeval where "tv0 = \<lparr>tv_sec = 0, tv_usec = 0\<rparr>"

definition one_conn :: Epoll where
  "one_conn = run_newEvent tv0 True 0 (accept_conn 0 5 Epoll_make)"

lemma one_conn_steps: "ep_move\<^sup>*\<^sup>* Epoll_make one_conn"
proof -
  have "ep_step L_accept Epoll_make (accept_conn 0 5 Epoll_make)"
    by (rule ep_step.accept) (simp_all add: Epoll_make_def MAXFDS_def)
  moreover have "ep_step L_new (accept_conn 0 5 Epoll_make) one_conn"
    unfolding one_conn_def by (rule ep_step.new_event) (simp add: accept_conn_def)
  ultimately have "ep_move Epoll_make (accept_conn 0 5 Epoll_make)" "ep_move (accept_conn 0 5 Epoll_make) one_conn"
    unfolding ep_move_def by blast+
  then show ?thesis by (meson converse_rtranclp_into_rtranclp rtranclp.rtrancl_refl)
qed

lemma one_conn_state:
  "fd2chan one_conn 5 = Some 0" "fd2http one_conn 5 = Some 0" "ep_timer one_conn 0 = Some 0"
  "ep_conns one_conn 0 = Some ((HttpData_make 5)\<lparr>hd_events := DEFAULT_EVENT, hd_timer := True\<rparr>)"
  "tm_nodes (ep_tm one_conn) 0 = Some (TimerNode_make tv0 0 DEFAULT_EXPIRED_TIME)"
  "ep_reg one_conn 5 = Some DEFAULT_EVENT"
  by (simp_all add: one_conn_def run_newEvent_def accept_conn_def newEvent_def epoll_add_def add_timer_def
      addTimer_def set_conn_def conn_fd_def reap_def owned_def Let_def Epoll_make_def TimerManager_make_def
      HttpData_make_def DEFAULT_EXPIRED_TIME_def TimerNode_make_def)

lemma one_conn_inv: "ep_inv one_conn"
  by (rule ep_moves_inv [OF one_conn_steps Epoll_make_inv])

theorem poller_no_dangling_witness:
  "\<exists>d. ep_conns one_conn 0 = Some d \<and> hd_fd d = 5 \<and> 0 < (5 :: fd) \<and> 5 < MAXFDS"
  using poller_no_dangling [OF one_conn_steps one_conn_state(1)] .

theorem poller_owns_connections_witness:
  "owned 0 one_conn \<and> 0 \<notin> set (ep_closed one_conn)"
  using poller_owns_connections [OF one_conn_steps one_conn_state(4)] by blast

theorem expired_connection_closed_witness:
  "ep_conns (handleExpired (\<lambda>k. \<lparr>tv_sec = 3, tv_usec = 0\<rparr>) True one_conn) 0 = None \<and>
   fd2chan (handleExpired (\<lambda>k. \<lparr>tv_sec = 3, tv_usec = 0\<rparr>) True one_conn) 5 = None"
proof -
  have "int (tn_exp (TimerNode_make tv0 (0 :: nat) DEFAULT_EXPIRED_TIME)) \<le> 3000"
    by (simp add: TimerNode_make_def tv0_def now_ms_def to_size_def DEFAULT_EXPIRED_TIME_def)
  moreover have "tv_ok \<lparr>tv_sec = 3, tv_usec = 0\<rparr> \<and> now_ms \<lparr>tv_sec = 3, tv_usec = 0\<rparr> = 3000"
    by (simp add: tv_ok_def now_ms_def)
  ultimately show ?thesis
    using expired_connection_closed [OF one_conn_inv one_conn_state(4,3,5), of 3000 "\<lambda>k. \<lparr>tv_sec = 3, tv_usec = 0\<rparr>" True]
    by (simp add: HttpData_make_def)
qed

text \<open>The connection with an answer to write, whose peer then closes its side while the socket takes
  nothing.\<close>

definition half_data :: HttpData where
  "half_data = (HttpData_make 5)\<lparr>hd_out := ''x'', hd_timer := True\<rparr>"

definition half_conn :: Epoll where
  "half_conn = set_conn 0 half_data one_conn"

definition no_files :: legacy_fs where
  "no_files = \<lparr>ls_stat = (\<lambda>_. None), ls_open = (\<lambda>_. False), ls_mmap = (\<lambda>_. None)\<rparr>"

theorem half_closed_leaks_witness:
  "(\<exists>d'. ep_conns (run_event no_files tv0 True EPOLLIN \<lparr>lw_reads = [Rd []], lw_writes = [Wr_err EAGAIN], lw_out = [], lw_exn = None\<rparr>
      0 half_conn) 0 = Some d' \<and> hd_out d' = ''x'')"
proof -
  let ?w = "\<lparr>lw_reads = [Rd []], lw_writes = [Wr_err EAGAIN], lw_out = [], lw_exn = None\<rparr>"
  let ?d = "half_data\<lparr>hd_events := or EPOLLOUT EPOLLIN, hd_conn := H_DISCONNECTING\<rparr>"
  have i: "ep_inv half_conn" unfolding half_conn_def
    by (rule set_conn_inv [OF one_conn_inv])
      (simp_all add: alive_def one_conn_state half_data_def HttpData_make_def conn_fd_def)
  have c: "fd2chan half_conn (hd_fd half_data) = Some 0" "ep_conns half_conn 0 = Some half_data"
    by (simp_all add: half_conn_def half_data_def HttpData_make_def one_conn_state) (simp add: set_conn_def)
  have r: "handleRead no_files (half_data\<lparr>hd_events := 0\<rparr>, ?w) = (?d, ?w\<lparr>lw_reads := [], lw_writes := []\<rparr>)"
    by (subst handleRead.simps)
      (simp add: half_data_def HttpData_make_def hr_block_def hr_then_def hr_flush_def handleWrite_def
        writen_string_def EAGAIN_def EINTR_def Let_def)
  have h: "\<not> hd_error ?d" "hd_conn ?d = H_DISCONNECTING" "and (hd_events ?d) EPOLLOUT \<noteq> 0"
    by (simp_all add: half_data_def HttpData_make_def EPOLLOUT_def EPOLLIN_def)
  show ?thesis using half_closed_leaks [OF i c r h rtranclp.rtrancl_refl, of tv0 True] by (simp add: half_data_def)
qed

end
