(* ===== verification/Reactor.thy ===== *)
theory Reactor
  imports Server PollerSpec HttpDataSpec
begin

text \<open>
  The reactor as one process: the listening channel of \<^verbatim>\<open>Server\<close>, the pollers of its loops and the
  table of open descriptors that the kernel keeps for all of them. One turn of the accepting loop of
  \<^verbatim>\<open>handNewConn\<close>, or one step of a loop, is a step; the threads take them in any order.
\<close>

section \<open>State and steps\<close>

text \<open>The server, the poller of each loop (\<open>None\<close> is the base loop), the number of the next connection
  object, the descriptors of clients that are open, and those among them that no object owns.\<close>

record Reactor =
  rx_server :: Server
  rx_loops :: "nat option \<Rightarrow> Epoll"
  rx_next :: nat
  rx_open :: "fd set"
  rx_lost :: "fd set"

definition Reactor_make :: "Server \<Rightarrow> Reactor" where
  "Reactor_make sv = \<lparr>rx_server = sv, rx_loops = (\<lambda>l. Epoll_make), rx_next = 0, rx_open = {}, rx_lost = {}\<rparr>"

text \<open>A queued \<^verbatim>\<open>newEvent\<close> functor reaches its loop with the object it holds.\<close>

definition hand :: "nat option \<times> fd \<Rightarrow> Reactor \<Rightarrow> Reactor" where
  "hand x r = (case x of (l, fd) \<Rightarrow>
     r\<lparr>rx_loops := (rx_loops r)(l := accept_conn (rx_next r) fd (rx_loops r l)), rx_next := rx_next r + 1\<rparr>)"

text \<open>\<^verbatim>\<open>accept\<close> returns a descriptor that was not open.\<close>

definition acc_ok :: "fd set \<Rightarrow> accept_result \<Rightarrow> bool" where
  "acc_ok opn a = (case a of Acc fd g f \<Rightarrow> 0 \<le> fd \<and> fd \<notin> opn | Acc_err e \<Rightarrow> True)"

definition acc_new :: "accept_result \<Rightarrow> fd set" where
  "acc_new a = (case a of Acc fd g f \<Rightarrow> {fd} | Acc_err e \<Rightarrow> {})"

text \<open>After a turn of the accepting loop that has led to the server \<open>sv'\<close>.\<close>

definition rx_accepted :: "accept_result \<Rightarrow> Server \<Rightarrow> Reactor \<Rightarrow> Reactor" where
  "rx_accepted a sv' r =
     (let q = drop (length (sv_queued (rx_server r))) (sv_queued sv');
          cl = set (drop (length (sv_closed (rx_server r))) (sv_closed sv'))
      in fold hand q (r\<lparr>rx_server := sv', rx_open := (rx_open r \<union> acc_new a) - cl,
                        rx_lost := rx_lost r \<union> (acc_new a - cl - snd ` set q)\<rparr>))"

text \<open>After a step of the loop \<open>l\<close>: the destructors that ran have closed their descriptors.\<close>

definition loop_moved :: "nat option \<Rightarrow> Epoll \<Rightarrow> Reactor \<Rightarrow> Reactor" where
  "loop_moved l s' r =
     (let s = rx_loops r l
      in r\<lparr>rx_loops := (rx_loops r)(l := s'),
           rx_open := rx_open r - (\<lambda>c. conn_fd c s) ` set (drop (length (ep_closed s)) (ep_closed s'))\<rparr>)"

datatype rx_label = X_accept accept_result | X_chan | X_loop "nat option" ep_label

inductive rx_step :: "rx_label \<Rightarrow> Reactor \<Rightarrow> Reactor \<Rightarrow> bool" where
  accept: "accept_conns [a] (rx_server r) = Some (go, sv', rest) \<Longrightarrow> acc_ok (rx_open r) a \<Longrightarrow>
    rx_step (X_accept a) r (rx_accepted a sv' r)"
| events: "rx_step X_chan r (r\<lparr>rx_server := set_events ev (rx_server r)\<rparr>)"
| update: "rx_step X_chan r (r\<lparr>rx_server := handThisConn ctl_ok (rx_server r)\<rparr>)"
| loop: "ep_step lab (rx_loops r l) s' \<Longrightarrow> lab \<noteq> L_accept \<Longrightarrow> rx_step (X_loop l lab) r (loop_moved l s' r)"

definition rx_move :: "Reactor \<Rightarrow> Reactor \<Rightarrow> bool" where
  "rx_move r r' \<longleftrightarrow> (\<exists>l. rx_step l r r')"

section \<open>What a step of a loop closes\<close>

text \<open>A step other than an accept destroys connections, each once, and keeps the others with their
  descriptors.\<close>

definition shrinks :: "Epoll \<Rightarrow> Epoll \<Rightarrow> bool" where
  "shrinks s s' \<longleftrightarrow> (\<exists>new. ep_closed s' = ep_closed s @ new \<and> (\<forall>c \<in> set new. alive s c) \<and>
     (\<forall>c. alive s' c \<longleftrightarrow> alive s c \<and> c \<notin> set new) \<and> (\<forall>c. alive s' c \<longrightarrow> conn_fd c s' = conn_fd c s))"

lemma shrinks_refl: "shrinks s s"
  by (simp add: shrinks_def)

lemma shrinks_trans:
  assumes "shrinks s s'" "shrinks s' s''"
  shows "shrinks s s''"
proof -
  obtain n1 where n1: "ep_closed s' = ep_closed s @ n1" "\<And>c. c \<in> set n1 \<Longrightarrow> alive s c"
    "\<And>c. alive s' c \<longleftrightarrow> alive s c \<and> c \<notin> set n1" "\<And>c. alive s' c \<Longrightarrow> conn_fd c s' = conn_fd c s"
    using assms(1) unfolding shrinks_def by blast
  obtain n2 where n2: "ep_closed s'' = ep_closed s' @ n2" "\<And>c. c \<in> set n2 \<Longrightarrow> alive s' c"
    "\<And>c. alive s'' c \<longleftrightarrow> alive s' c \<and> c \<notin> set n2" "\<And>c. alive s'' c \<Longrightarrow> conn_fd c s'' = conn_fd c s'"
    using assms(2) unfolding shrinks_def by blast
  show ?thesis unfolding shrinks_def
    by (intro exI [of _ "n1 @ n2"]) (use n1 n2 in auto)
qed

lemma shrinks_same:
  "ep_closed s' = ep_closed s \<Longrightarrow> alive s' = alive s \<Longrightarrow> (\<And>c. alive s c \<Longrightarrow> conn_fd c s' = conn_fd c s) \<Longrightarrow> shrinks s s'"
  by (simp add: shrinks_def)

lemma shrinks_set_conn: "alive s c \<Longrightarrow> hd_fd d = conn_fd c s \<Longrightarrow> shrinks s (set_conn c d s)"
  by (rule shrinks_same) (auto simp: fun_eq_iff)

lemma shrinks_tables:
  "shrinks s (epoll_add tv ok c t s)" "shrinks s (epoll_mod tv ok c t s)" "shrinks s (epoll_del ok c s)"
  "shrinks s (drop_timer c s)" "shrinks s (expire_weak tm s)" "shrinks s (s\<lparr>ep_pend := p\<rparr>)"
proof -
  have a: "alive (s'\<lparr>ep_last := x\<rparr>) = alive s'" "alive (s'\<lparr>fd2chan := y\<rparr>) = alive s'" "alive (s'\<lparr>fd2http := z\<rparr>) = alive s'"
    "alive (s'\<lparr>ep_reg := w\<rparr>) = alive s'" for s' :: Epoll and x y z w
    by (simp_all add: alive_def fun_eq_iff)
  have b: "conn_fd c' (s'\<lparr>ep_last := x\<rparr>) = conn_fd c' s'" "conn_fd c' (s'\<lparr>fd2chan := y\<rparr>) = conn_fd c' s'"
    "conn_fd c' (s'\<lparr>fd2http := z\<rparr>) = conn_fd c' s'" "conn_fd c' (s'\<lparr>ep_reg := w\<rparr>) = conn_fd c' s'"
    for s' :: Epoll and c' x y z w
    by (simp_all add: conn_fd_def)
  show "shrinks s (epoll_add tv ok c t s)" "shrinks s (epoll_mod tv ok c t s)" "shrinks s (epoll_del ok c s)"
    by (rule shrinks_same; simp add: epoll_add_def epoll_mod_def epoll_del_def Let_def a b EqualAndUpdateLastEvents_def)+
  show "shrinks s (drop_timer c s)" by (rule shrinks_same) simp_all
  show "shrinks s (expire_weak tm s)" "shrinks s (s\<lparr>ep_pend := p\<rparr>)"
    by (rule shrinks_same; simp add: expire_weak_def alive_def conn_fd_def fun_eq_iff)+
qed

lemma shrinks_reap: "shrinks s (reap c s)"
proof (cases "ep_conns s c \<noteq> None \<and> \<not> owned c s")
  case True
  then show ?thesis
    unfolding shrinks_def
    by (intro exI [of _ "[c]"]) (auto simp: reap_def alive_def conn_fd_def)
next
  case False
  then have "reap c s = s" unfolding reap_def by (rule if_not_P)
  then show ?thesis by (simp add: shrinks_refl)
qed

lemma shrinks_calls: "shrinks s (fold (poller_call tv ok c) calls s)"
proof (induction calls arbitrary: s)
  case (Cons x calls)
  have "shrinks s (poller_call tv ok c x s)" by (cases x) (simp_all add: shrinks_tables)
  with Cons.IH [of "poller_call tv ok c x s"] show ?case by (auto intro: shrinks_trans)
qed (simp add: shrinks_refl)

lemma run_newEvent_shrinks: "shrinks s (run_newEvent tv ok c s)"
proof (cases "ep_conns s c")
  case (Some d)
  let ?s1 = "set_conn c (d\<lparr>hd_events := DEFAULT_EVENT\<rparr>) s"
  let ?s2 = "epoll_add tv ok c DEFAULT_EXPIRED_TIME ?s1"
  have "shrinks s ?s1" using Some by (intro shrinks_set_conn) (simp_all add: alive_def conn_fd_def)
  from shrinks_trans [OF shrinks_trans [OF shrinks_trans [OF this shrinks_tables(1)] shrinks_tables(6)] shrinks_reap]
  show ?thesis by (simp add: run_newEvent_def Some newEvent_def Let_def)
qed (simp add: run_newEvent_def shrinks_refl)

lemma run_event_shrinks: "shrinks s (run_event fs tv ok rv w c s)"
proof (cases "ep_conns s c")
  case (Some d)
  obtain d' w' calls where ce: "conn_events fs rv d w = (d', w', calls)" by (metis surj_pair)
  have "shrinks s (set_conn c d' s)"
    using Some conn_events_spec(1) [OF ce] by (intro shrinks_set_conn) (simp_all add: alive_def conn_fd_def same_conn_def)
  then have "shrinks s (if hd_timer d' then set_conn c d' s else drop_timer c (set_conn c d' s))"
    using shrinks_trans shrinks_tables(4) by auto
  from shrinks_trans [OF shrinks_trans [OF this shrinks_calls] shrinks_reap]
  show ?thesis by (simp add: run_event_def Some ce Let_def)
qed (simp add: run_event_def shrinks_refl)

lemma close_expired_shrinks: "shrinks s (close_expired ok c s)"
proof (cases "ep_conns s c")
  case (Some d)
  have "shrinks s (set_conn c (fst (handleClose d)) s)"
    using Some by (intro shrinks_set_conn) (simp_all add: alive_def conn_fd_def handleClose_def)
  from shrinks_trans [OF shrinks_trans [OF this shrinks_tables(3)] shrinks_reap]
  show ?thesis by (simp add: close_expired_def Some)
qed (simp add: close_expired_def shrinks_refl)

lemma handleExpired_shrinks: "shrinks s (handleExpired clk ok s)"
proof -
  obtain hs tm' where e: "handleExpiredEvent clk (ep_tm s) = (hs, tm')" by (metis surj_pair)
  have "shrinks s' (fold (close_expired ok) cs s')" for cs s'
  proof (induction cs arbitrary: s')
    case (Cons c cs)
    show ?case using shrinks_trans [OF close_expired_shrinks Cons.IH] by simp
  qed (simp add: shrinks_refl)
  then have "shrinks s (fold (close_expired ok) hs (expire_weak tm' s))" using shrinks_trans [OF shrinks_tables(5)] by blast
  then show ?thesis by (simp add: handleExpired_def e)
qed

lemma ep_step_shrinks: "ep_step lab s s' \<Longrightarrow> lab \<noteq> L_accept \<Longrightarrow> shrinks s s'"
  by (cases rule: ep_step.cases)
    (auto intro: run_newEvent_shrinks run_event_shrinks handleExpired_shrinks)

section \<open>The invariant\<close>

definition live_fds :: "Reactor \<Rightarrow> fd set" where
  "live_fds r = {conn_fd c (rx_loops r l) | l c. alive (rx_loops r l) c}"

text \<open>Every poller keeps its invariant; objects are numbered below \<open>rx_next\<close>; two live connections, of
  the same or of different loops, have different descriptors; and a descriptor is open because a
  live connection has it or because it was lost, not both.\<close>

definition rx_inv :: "Reactor \<Rightarrow> bool" where
  "rx_inv r \<longleftrightarrow> (\<forall>l. ep_inv (rx_loops r l)) \<and>
     (\<forall>l c. alive (rx_loops r l) c \<or> c \<in> set (ep_closed (rx_loops r l)) \<longrightarrow> c < rx_next r) \<and>
     (\<forall>l c l' c'. alive (rx_loops r l) c \<longrightarrow> alive (rx_loops r l') c' \<longrightarrow>
        conn_fd c (rx_loops r l) = conn_fd c' (rx_loops r l') \<longrightarrow> l = l' \<and> c = c') \<and>
     rx_open r = live_fds r \<union> rx_lost r \<and> live_fds r \<inter> rx_lost r = {}"

lemma rx_invD:
  assumes "rx_inv r"
  shows "ep_inv (rx_loops r l)" "alive (rx_loops r l) c \<or> c \<in> set (ep_closed (rx_loops r l)) \<Longrightarrow> c < rx_next r"
    "alive (rx_loops r l) c \<Longrightarrow> alive (rx_loops r l') c' \<Longrightarrow>
      conn_fd c (rx_loops r l) = conn_fd c' (rx_loops r l') \<Longrightarrow> l = l' \<and> c = c'"
    "rx_open r = live_fds r \<union> rx_lost r" "live_fds r \<inter> rx_lost r = {}"
  using assms unfolding rx_inv_def by blast+

lemma rx_invI:
  assumes "\<And>l. ep_inv (rx_loops r l)"
    "\<And>l c. alive (rx_loops r l) c \<or> c \<in> set (ep_closed (rx_loops r l)) \<Longrightarrow> c < rx_next r"
    "\<And>l c l' c'. alive (rx_loops r l) c \<Longrightarrow> alive (rx_loops r l') c' \<Longrightarrow>
      conn_fd c (rx_loops r l) = conn_fd c' (rx_loops r l') \<Longrightarrow> l = l' \<and> c = c'"
    "rx_open r = live_fds r \<union> rx_lost r" "live_fds r \<inter> rx_lost r = {}"
  shows "rx_inv r"
  using assms unfolding rx_inv_def by blast

lemma live_fdsI: "alive (rx_loops r l) c \<Longrightarrow> conn_fd c (rx_loops r l) \<in> live_fds r"
  by (auto simp: live_fds_def)

lemma Reactor_make_inv: "rx_inv (Reactor_make sv)"
  by (rule rx_invI) (simp_all add: Reactor_make_def Epoll_make_inv live_fds_def, simp_all add: Epoll_make_def alive_def)

text \<open>The server's own fields do not matter.\<close>

lemma rx_server_inv: "rx_inv (r\<lparr>rx_server := sv\<rparr>) = rx_inv r"
  by (simp add: rx_inv_def live_fds_def)

lemma rx_lost_inv:
  assumes "rx_inv r" "fd \<notin> rx_open r"
  shows "rx_inv (r\<lparr>rx_open := insert fd (rx_open r), rx_lost := insert fd (rx_lost r)\<rparr>)"
  using assms unfolding rx_inv_def live_fds_def by auto

text \<open>A new descriptor handed to a loop: the kernel's promise that it was not open is what the poller
  of the loop relies on.\<close>

lemma hand_inv:
  assumes i: "rx_inv r" and fd: "fd \<notin> rx_open r" "0 < fd" "fd < MAXFDS"
  shows "rx_inv (hand (l, fd) (r\<lparr>rx_open := insert fd (rx_open r)\<rparr>))"
proof -
  note d = rx_invD [OF i]
  let ?c = "rx_next r" and ?s = "rx_loops r l"
  define r' where "r' = hand (l, fd) (r\<lparr>rx_open := insert fd (rx_open r)\<rparr>)"
  have r': "rx_loops r' = (rx_loops r)(l := accept_conn ?c fd ?s)" "rx_next r' = Suc ?c" "rx_lost r' = rx_lost r"
    "rx_open r' = insert fd (rx_open r)" by (simp_all add: r'_def hand_def)
  have new: "\<not> alive ?s ?c" "?c \<notin> set (ep_closed ?s)" using d(2) [of l ?c] by auto
  have fresh: "conn_fd c (rx_loops r l') \<noteq> fd" if "alive (rx_loops r l') c" for l' c
    using live_fdsI [OF that] d(4) fd(1) by auto
  have al: "alive (rx_loops r' l') c \<longleftrightarrow> alive (rx_loops r l') c \<or> l' = l \<and> c = ?c"
    "conn_fd c (rx_loops r' l') = (if l' = l \<and> c = ?c then fd else conn_fd c (rx_loops r l'))"
    "ep_closed (rx_loops r' l') = ep_closed (rx_loops r l')" for l' c
    by (auto simp: r' alive_def conn_fd_def accept_conn_def HttpData_make_def)
  have live: "live_fds r' = insert fd (live_fds r)"
  proof -
    have "live_fds r' = {fd} \<union> {conn_fd c (rx_loops r' l') | l' c. alive (rx_loops r l') c}"
      by (auto simp: live_fds_def al)
    moreover have "{conn_fd c (rx_loops r' l') | l' c. alive (rx_loops r l') c} = live_fds r"
      using new(1) by (force simp: live_fds_def al)
    ultimately show ?thesis by simp
  qed
  have "rx_inv r'"
  proof (rule rx_invI)
    have "ep_inv (accept_conn ?c fd ?s)"
    proof (rule accept_conn_inv [OF d(1)])
      show "hd_fd d' \<noteq> fd" if "ep_conns ?s c' = Some d'" for c' d'
        using fresh [of l c'] that by (simp add: alive_def conn_fd_def)
    qed (use new fd in \<open>simp_all add: alive_def\<close>)
    then show "ep_inv (rx_loops r' l')" for l' using d(1) by (simp add: r')
    show "c < rx_next r'" if "alive (rx_loops r' l') c \<or> c \<in> set (ep_closed (rx_loops r' l'))" for l' c
      using d(2) [of l' c] that by (auto simp: al r'(2))
    show "l1 = l2 \<and> c1 = c2" if "alive (rx_loops r' l1) c1" "alive (rx_loops r' l2) c2"
      "conn_fd c1 (rx_loops r' l1) = conn_fd c2 (rx_loops r' l2)" for l1 c1 l2 c2
      using that d(3) [of l1 c1 l2 c2] fresh [of l1 c1] fresh [of l2 c2]
      by (cases "l1 = l \<and> c1 = ?c"; cases "l2 = l \<and> c2 = ?c") (simp_all add: al)
  qed (use d(4,5) fd(1) in \<open>auto simp: live r'\<close>)
  then show ?thesis by (simp add: r'_def)
qed

lemma loop_moved_inv:
  assumes i: "rx_inv r" and s': "ep_inv s'" "shrinks (rx_loops r l) s'"
  shows "rx_inv (loop_moved l s' r)"
proof -
  note d = rx_invD [OF i]
  let ?s = "rx_loops r l"
  obtain new where n: "ep_closed s' = ep_closed ?s @ new" "\<And>c. c \<in> set new \<Longrightarrow> alive ?s c"
    "\<And>c. alive s' c \<longleftrightarrow> alive ?s c \<and> c \<notin> set new" "\<And>c. alive s' c \<Longrightarrow> conn_fd c s' = conn_fd c ?s"
    using s'(2) unfolding shrinks_def by blast
  define r' where "r' = loop_moved l s' r"
  have r': "rx_loops r' = (rx_loops r)(l := s')" "rx_next r' = rx_next r" "rx_lost r' = rx_lost r"
    "rx_open r' = rx_open r - (\<lambda>c. conn_fd c ?s) ` set new"
    by (simp_all add: r'_def loop_moved_def n(1) Let_def)
  have al: "alive (rx_loops r' l') c \<longleftrightarrow> alive (rx_loops r l') c \<and> (l' = l \<longrightarrow> c \<notin> set new)"
    "alive (rx_loops r' l') c \<Longrightarrow> conn_fd c (rx_loops r' l') = conn_fd c (rx_loops r l')" for l' c
    using n(3,4) by (auto simp: r')
  have gone: "conn_fd c (rx_loops r l') \<notin> (\<lambda>c. conn_fd c ?s) ` set new" if "alive (rx_loops r' l') c" for l' c
    using that d(3) [of l' c l] n(2) by (auto simp: al(1))
  have live: "live_fds r' = live_fds r - (\<lambda>c. conn_fd c ?s) ` set new"
  proof (intro subset_antisym subsetI)
    show "fd \<in> live_fds r - (\<lambda>c. conn_fd c ?s) ` set new" if h: "fd \<in> live_fds r'" for fd
    proof -
      obtain l' c where "alive (rx_loops r' l') c" "fd = conn_fd c (rx_loops r' l')" using h by (auto simp: live_fds_def)
      then show ?thesis using gone al live_fdsI [of r l' c] by simp
    qed
    show "fd \<in> live_fds r'" if h: "fd \<in> live_fds r - (\<lambda>c. conn_fd c ?s) ` set new" for fd
    proof -
      obtain l' c where c: "alive (rx_loops r l') c" "fd = conn_fd c (rx_loops r l')" using h by (auto simp: live_fds_def)
      then have "alive (rx_loops r' l') c" using h al(1) [of l' c] by auto
      then show ?thesis using al(2) [of l' c] c live_fdsI [of r' l' c] by simp
    qed
  qed
  have lost: "(\<lambda>c. conn_fd c ?s) ` set new \<inter> rx_lost r = {}"
    using d(5) live_fdsI [of r l] n(2) by blast
  have "rx_inv r'"
  proof (rule rx_invI)
    show "ep_inv (rx_loops r' l')" for l' using d(1) s'(1) by (simp add: r')
    show "c < rx_next r'" if "alive (rx_loops r' l') c \<or> c \<in> set (ep_closed (rx_loops r' l'))" for l' c
      using d(2) [of l' c] that n(1,2) al(1) [of l' c] by (auto simp: r' split: if_splits)
    show "l1 = l2 \<and> c1 = c2" if "alive (rx_loops r' l1) c1" "alive (rx_loops r' l2) c2"
      "conn_fd c1 (rx_loops r' l1) = conn_fd c2 (rx_loops r' l2)" for l1 c1 l2 c2
      using that d(3) [of l1 c1 l2 c2] al by simp
  qed (use d(4,5) lost in \<open>auto simp: live r'\<close>)
  then show ?thesis by (simp add: r'_def)
qed

text \<open>A turn of the accepting loop loses a descriptor when it cannot be made non-blocking, or is 0.\<close>

definition loses :: "rx_label \<Rightarrow> bool" where
  "loses lab \<longleftrightarrow> (case lab of X_accept (Acc fd g f) \<Rightarrow> fd = 0 \<or> fd < Server_MAXFDS \<and> setSocketNonBlocking g f < 0 | _ \<Rightarrow> False)"

lemma rx_accepted_cases:
  assumes "accept_conns [a] (rx_server r) = Some (go, sv', rest)" "acc_ok (rx_open r) a"
  obtains (idle) "rx_accepted a sv' r = r\<lparr>rx_server := sv'\<rparr>"
  | (lost) fd where "loses (X_accept a)" "fd \<notin> rx_open r"
      "rx_accepted a sv' r = (r\<lparr>rx_open := insert fd (rx_open r), rx_lost := insert fd (rx_lost r)\<rparr>)\<lparr>rx_server := sv'\<rparr>"
  | (queued) l fd where "0 < fd" "fd < MAXFDS" "fd \<notin> rx_open r"
      "rx_accepted a sv' r = (hand (l, fd) (r\<lparr>rx_open := insert fd (rx_open r)\<rparr>))\<lparr>rx_server := sv'\<rparr>"
proof (cases a)
  case (Acc fd g f)
  have fd: "0 \<le> fd" "fd \<notin> rx_open r" using assms(2) Acc by (simp_all add: acc_ok_def)
  show ?thesis
  proof (cases "0 < fd")
    case False
    then show ?thesis
      using assms(1) fd Acc by (intro lost) (auto simp: rx_accepted_def acc_new_def loses_def)
  next
    case True
    then obtain l p' where l: "getNextLoop (sv_pool (rx_server r)) = Some (l, p')"
      using assms(1) Acc by (auto split: option.splits)
    consider "Server_MAXFDS \<le> fd" | "fd < Server_MAXFDS" "setSocketNonBlocking g f < 0"
      | "fd < Server_MAXFDS" "\<not> setSocketNonBlocking g f < 0" by linarith
    then show ?thesis
    proof cases
      case 1
      then show ?thesis
        using assms(1) Acc True l fd by (intro idle) (auto simp: rx_accepted_def acc_new_def Let_def)
    next
      case 2
      then show ?thesis
        using assms(1) Acc True l fd by (intro lost) (auto simp: rx_accepted_def acc_new_def Let_def loses_def)
    next
      case 3
      then show ?thesis
        using assms(1) Acc True l fd
        by (intro queued [of fd l]) (auto simp: rx_accepted_def acc_new_def Let_def hand_def Server_MAXFDS_def MAXFDS_def)
    qed
  qed
next
  case (Acc_err e)
  then show ?thesis using assms(1) by (intro idle) (auto simp: rx_accepted_def acc_new_def)
qed

lemma rx_step_inv:
  assumes "rx_step lab r r'" "rx_inv r"
  shows "rx_inv r' \<and> (\<not> loses lab \<longrightarrow> rx_lost r' = rx_lost r)"
  using assms(1)
proof (cases rule: rx_step.cases)
  case (accept a go sv' rest)
  from accept(3,4) show ?thesis
  proof (cases rule: rx_accepted_cases)
    case idle
    then show ?thesis using accept assms(2) by (simp add: rx_server_inv)
  next
    case (lost fd)
    then show ?thesis using accept rx_lost_inv [OF assms(2)] by (simp add: rx_server_inv)
  next
    case (queued l fd)
    then show ?thesis using accept hand_inv [OF assms(2)] by (simp add: rx_server_inv) (simp add: hand_def)
  qed
next
  case (loop l lb s')
  have "ep_inv s'" using ep_step_inv loop(3) rx_invD(1) [OF assms(2)] by blast
  then show ?thesis
    using loop loop_moved_inv [OF assms(2) _ ep_step_shrinks] by (simp add: loop_moved_def Let_def)
qed (use assms(2) in \<open>simp_all add: rx_server_inv\<close>)

lemma rx_moves_inv: "rx_move\<^sup>*\<^sup>* r r' \<Longrightarrow> rx_inv r \<Longrightarrow> rx_inv r'"
  by (induction rule: rtranclp_induct) (auto simp: rx_move_def dest: rx_step_inv)

section \<open>The handlers of the listening channel are runs of these steps\<close>

fun acc_run :: "fd set \<Rightarrow> accept_result list \<Rightarrow> bool" where
  "acc_run opn [] = True"
| "acc_run opn (a # as) = (acc_ok opn a \<and> acc_run (opn \<union> {fd \<in> acc_new a. fd < Server_MAXFDS}) as)"

lemma hand_sel [simp]: "rx_server (hand x r) = rx_server r" "rx_open (hand x r) = rx_open r" "rx_lost (hand x r) = rx_lost r"
  by (simp_all add: hand_def split: prod.split)

lemma hands_sel [simp]:
  "rx_server (fold hand q r) = rx_server r" "rx_open (fold hand q r) = rx_open r" "rx_lost (fold hand q r) = rx_lost r"
  by (induction q arbitrary: r) simp_all

lemma rx_accepted_server [simp]: "rx_server (rx_accepted a sv r) = sv"
  by (simp add: rx_accepted_def Let_def)

lemma rx_accepted_open:
  assumes "accept_conns [a] (rx_server r) = Some (go, sv, rest)" "acc_ok (rx_open r) a"
  shows "rx_open (rx_accepted a sv r) = rx_open r \<union> {fd \<in> acc_new a. fd < Server_MAXFDS}"
  using assms
  by (cases a) (auto simp: rx_accepted_def Let_def acc_new_def acc_ok_def Server_MAXFDS_def split: option.splits if_splits)

text \<open>The loop of \<^verbatim>\<open>handNewConn\<close> turn by turn.\<close>

lemma accept_conns_step:
  assumes "accept_conns (a # as) s = Some (go, s', rest)"
  obtains s1 g1 where "accept_conns [a] s = Some (g1, s1, [])" "s' = s1 \<or> accept_conns as s1 = Some (go, s', rest)"
  using assms by (cases a) (auto simp: Let_def split: option.splits if_splits)

lemma accept_conns_runs:
  assumes "accept_conns as (rx_server r) = Some (go, sv', rest)" "acc_run (rx_open r) as"
  shows "\<exists>r'. rx_move\<^sup>*\<^sup>* r r' \<and> rx_server r' = sv'"
  using assms
proof (induction as arbitrary: r)
  case (Cons a as)
  obtain s1 g1 where s1: "accept_conns [a] (rx_server r) = Some (g1, s1, [])"
    "sv' = s1 \<or> accept_conns as s1 = Some (go, sv', rest)"
    using accept_conns_step [OF Cons.prems(1)] by blast
  have ok: "acc_ok (rx_open r) a" using Cons.prems(2) by simp
  have st: "rx_move r (rx_accepted a s1 r)" unfolding rx_move_def using rx_step.accept [OF s1(1) ok] by blast
  show ?case
  proof (cases "sv' = s1")
    case True
    then show ?thesis using st by (intro exI [of _ "rx_accepted a s1 r"]) simp
  next
    case False
    then have "\<exists>r'. rx_move\<^sup>*\<^sup>* (rx_accepted a s1 r) r' \<and> rx_server r' = sv'"
      using s1 Cons.prems(2) ok by (intro Cons.IH) (auto simp: rx_accepted_open [OF s1(1) ok])
    then obtain r' where "rx_move\<^sup>*\<^sup>* (rx_accepted a s1 r) r'" "rx_server r' = sv'" by blast
    then show ?thesis using converse_rtranclp_into_rtranclp [of rx_move, OF st] by blast
  qed
qed auto

text \<open>Whatever the kernel reports for the listening channel.\<close>

lemma server_events_runs:
  assumes "server_events revents ok as (rx_server r) = Some (sv', rest)" "acc_run (rx_open r) as"
  shows "\<exists>r'. rx_move\<^sup>*\<^sup>* r r' \<and> rx_server r' = sv'"
proof -
  define r0 where "r0 = r\<lparr>rx_server := set_events 0 (rx_server r)\<rparr>"
  have r0: "rx_move r r0" "rx_open r0 = rx_open r"
    unfolding rx_move_def r0_def using rx_step.events [of r 0] by auto
  have ev: "rx_move r' (r'\<lparr>rx_server := set_events e (rx_server r')\<rparr>)"
    "rx_move r' (r'\<lparr>rx_server := handThisConn k (rx_server r')\<rparr>)" for r' e k
    unfolding rx_move_def using rx_step.events rx_step.update by blast+
  have rd: "\<exists>r'. rx_move\<^sup>*\<^sup>* r0 r' \<and> rx_server r' = sv1" if h: "server_read (Some (rx_server r0, as)) = Some (sv1, rest1)" for sv1 rest1
  proof -
    obtain go s1 where s1: "accept_conns as (rx_server r0) = Some (go, s1, rest1)"
      "sv1 = (if go then set_events (or EPOLLIN EPOLLET) s1 else s1)"
      using h by (auto simp: server_read_def handNewConn_def split: option.splits)
    obtain r1 where r1: "rx_move\<^sup>*\<^sup>* r0 r1" "rx_server r1 = s1" using accept_conns_runs [OF s1(1)] assms(2) r0(2) by auto
    have "rx_move\<^sup>*\<^sup>* r0 (r1\<lparr>rx_server := set_events (or EPOLLIN EPOLLET) (rx_server r1)\<rparr>)"
      by (rule rtranclp.rtrancl_into_rtrancl [OF r1(1) ev(1)])
    then show ?thesis
      using r1 s1(2) by (cases go) (auto intro: exI [of _ "r1\<lparr>rx_server := set_events (or EPOLLIN EPOLLET) (rx_server r1)\<rparr>"])
  qed
  have "(\<exists>r'. rx_move\<^sup>*\<^sup>* r0 r' \<and> rx_server r' = sv')"
  proof (cases "and revents EPOLLHUP \<noteq> 0 \<and> and revents EPOLLIN = 0 \<or> and revents EPOLLERR \<noteq> 0")
    case True
    then have "sv' = set_events 0 (rx_server r0)"
      using assms(1)
      by (cases "and revents EPOLLHUP \<noteq> 0 \<and> and revents EPOLLIN = 0")
        (auto simp: server_events_def handleEvents_def Let_def server_zero_def call_handler_def r0_def)
    then show ?thesis using ev(1) [of r0 0] by (intro exI [of _ "r0\<lparr>rx_server := set_events 0 (rx_server r0)\<rparr>"]) auto
  next
    case False
    let ?st = "if and revents (or (or EPOLLIN EPOLLPRI) EPOLLRDHUP) \<noteq> 0 then server_read (Some (rx_server r0, as))
        else Some (rx_server r0, as)"
    have "server_events revents ok as (rx_server r) = server_conn ok ?st"
      using False
      by (cases "and revents EPOLLOUT = 0"; cases "and revents (or (or EPOLLIN EPOLLPRI) EPOLLRDHUP) = 0")
        (auto simp: server_events_def handleEvents_def Let_def server_zero_def call_handler_def r0_def)
    then obtain sv1 rest1 where s: "?st = Some (sv1, rest1)" "sv' = handThisConn ok sv1"
      using assms(1) by (cases ?st) (auto simp: server_conn_def)
    then obtain r1 where r1: "rx_move\<^sup>*\<^sup>* r0 r1" "rx_server r1 = sv1" using rd by (auto split: if_splits)
    then show ?thesis
      using ev(2) [of r1 ok] s(2)
      by (intro exI [of _ "r1\<lparr>rx_server := handThisConn ok (rx_server r1)\<rparr>"]) auto
  qed
  then show ?thesis using converse_rtranclp_into_rtranclp [of rx_move, OF r0(1)] by blast
qed

section \<open>Properties of the process\<close>

text \<open>C9. In every run of the reactor, with its threads in any order, a client's descriptor is open
  because exactly one live connection of one loop has it, or because the listener has lost it: no
  descriptor is closed while a connection uses it, none is used by two connections, and none that a
  destroyed connection had stays open.\<close>

theorem reactor_descriptors:
  assumes "rx_move\<^sup>*\<^sup>* (Reactor_make sv) r"
  shows "rx_open r = live_fds r \<union> rx_lost r \<and> live_fds r \<inter> rx_lost r = {} \<and>
    inj_on (\<lambda>(l, c). conn_fd c (rx_loops r l)) {(l, c). ep_conns (rx_loops r l) c \<noteq> None}"
proof -
  note d = rx_invD [OF rx_moves_inv [OF assms Reactor_make_inv]]
  have "inj_on (\<lambda>(l, c). conn_fd c (rx_loops r l)) {(l, c). ep_conns (rx_loops r l) c \<noteq> None}"
    using d(3) by (auto simp: inj_on_def alive_def)
  with d(4,5) show ?thesis by blast
qed

text \<open>As long as every accepted descriptor can be made non-blocking and none is 0, nothing is lost:
  the open descriptors of clients are those of the live connections.\<close>

theorem reactor_no_leak:
  assumes "(\<lambda>r r'. \<exists>lab. rx_step lab r r' \<and> \<not> loses lab)\<^sup>*\<^sup>* (Reactor_make sv) r"
  shows "rx_open r = live_fds r"
proof -
  from assms have "rx_inv r \<and> rx_lost r = {}"
  proof (induction rule: rtranclp_induct)
    case base
    show ?case using Reactor_make_inv by (simp add: Reactor_make_def)
  next
    case (step r r')
    then show ?case using rx_step_inv by metis
  qed
  then show ?thesis using rx_invD(4) by auto
qed

text \<open>Whatever the number of loops, at no time are there 100000 live connections: the limit that the
  listener puts on descriptors bounds the connections of the process.\<close>

theorem reactor_bounded:
  assumes "rx_move\<^sup>*\<^sup>* (Reactor_make sv) r"
  shows "finite {(l, c). ep_conns (rx_loops r l) c \<noteq> None} \<and> card {(l, c). ep_conns (rx_loops r l) c \<noteq> None} < 100000"
proof -
  note i = rx_moves_inv [OF assms Reactor_make_inv]
  note d = rx_invD [OF i]
  let ?f = "\<lambda>(l, c). conn_fd c (rx_loops r l)" and ?L = "{(l, c). ep_conns (rx_loops r l) c \<noteq> None}"
  have inj: "inj_on ?f ?L" using d(3) by (auto simp: inj_on_def alive_def)
  have sub: "?f ` ?L \<subseteq> {1..99999}"
    using ep_coreD(8) [OF ep_butD(1) [OF d(1)]] by (force simp: alive_def MAXFDS_def)
  have "finite ?L" using inj_on_finite [OF inj sub] by simp
  moreover have "card ?L \<le> card {1..99999 :: int}" using card_inj_on_le [OF inj sub] by simp
  ultimately show ?thesis by simp
qed

section \<open>From the listening socket to the answer\<close>

text \<open>A registered connection that waits for a request.\<close>

definition ready :: "nat \<Rightarrow> fd \<Rightarrow> Epoll \<Rightarrow> bool" where
  "ready c fd s \<longleftrightarrow> ep_inv s \<and> fd2chan s fd = Some c \<and> (\<exists>d. ep_conns s c = Some d \<and> hd_fd d = fd \<and> idle d)"

lemma reap_registered: "ep_core s \<Longrightarrow> fd2chan s (conn_fd c s) = Some c \<Longrightarrow> reap c s = s"
  using ep_coreD(2) [of s "conn_fd c s" c] by (simp add: reap_def owned_def)

lemma conn_events_served:
  assumes "idle d" "lw_reads w = map Rd ds" "list_all (\<lambda>x. x \<noteq> []) ds"
    "concat ds = request_bytes m f v hs" "request_ok m f v hs" "m \<noteq> METHOD_POST"
    "f' = takeWhile (\<lambda>c. c \<noteq> CHR ''?'') f" "servable fs m f' sz bdy"
    "lw_writes w = map Wr ks" "length (ok_reply m f' (keep_asked hs) sz bdy) \<le> sum_list ks"
  shows "\<exists>d' w' t. conn_events fs EPOLLIN d w = (d', w', [Update_poller (or EPOLLIN EPOLLET) t]) \<and> 0 < t \<and>
    lw_out w' = lw_out w @ ok_reply m f' (keep_asked hs) sz bdy \<and> idle d' \<and> hd_fd d' = hd_fd d \<and>
    hd_events d' = or EPOLLIN EPOLLET \<and> \<not> hd_timer d'"
proof -
  let ?d = "d\<lparr>hd_events := 0\<rparr>"
  have i: "idle ?d" using assms(1) by (simp add: idle_def)
  have len: "concat ds = request_bytes m f v hs @ []" "length (concat ds) < 2 ^ 31"
    using assms(4,5) by (simp_all add: request_ok_def)
  obtain w' where h: "handleRead fs (?d, w) = (served m v hs [] ?d, w')"
    "lw_out w' = lw_out w @ ok_reply m f' (keep_asked hs) sz bdy"
    using handleRead_step [OF i assms(2,3) len assms(5-10)] by auto
  have s: "idle (served m v hs [] ?d)" "hd_events (served m v hs [] ?d) = 0" "hd_fd (served m v hs [] ?d) = hd_fd d"
    using idle_served [OF i] by (simp_all add: served_def)
  have "\<exists>d' t. handleConn (served m v hs [] ?d) = (d', [Update_poller (or EPOLLIN EPOLLET) t]) \<and> 0 < t \<and> idle d' \<and>
      hd_fd d' = hd_fd d \<and> hd_events d' = or EPOLLIN EPOLLET \<and> \<not> hd_timer d'"
    using s by (auto simp: handleConn_def seperateTimer_def idle_def Let_def DEFAULT_KEEP_ALIVE_TIME_def)
  then obtain d' t where c: "handleConn (served m v hs [] ?d) = (d', [Update_poller (or EPOLLIN EPOLLET) t])" "0 < t" "idle d'"
    "hd_fd d' = hd_fd d" "hd_events d' = or EPOLLIN EPOLLET" "\<not> hd_timer d'"
    by blast
  have "conn_events fs EPOLLIN d w = (d', w', [Update_poller (or EPOLLIN EPOLLET) t])"
    using h c(1) by (simp add: conn_events_def handleEvents_read conn_zero_def conn_read_def conn_conn_def)
  then show ?thesis using h(2) c(2-6) by blast
qed

lemma run_event_ready:
  assumes r: "ready c fd s" and d: "ep_conns s c = Some d"
    and ce: "conn_events fs EPOLLIN d w = (d', w', [Update_poller ev t])" "idle d'" "hd_fd d' = hd_fd d" "\<not> hd_timer d'"
  shows "ready c fd (run_event fs tv True EPOLLIN w c s)"
proof -
  have s: "ep_inv s" "fd2chan s fd = Some c" "hd_fd d = fd" using r d by (auto simp: ready_def)
  define s1 where "s1 = epoll_mod tv True c t (drop_timer c (set_conn c d' s))"
  have i: "ep_inv (run_event fs tv True EPOLLIN w c s)" by (rule run_event_inv [OF s(1,2)])
  have fr: "fd2chan s1 fd = Some c" "fd2http s1 fd = fd2http s fd"
    using s(2) by (simp_all add: s1_def epoll_mod_def Let_def EqualAndUpdateLastEvents_def)
  have "\<exists>d1. ep_conns s1 c = Some d1 \<and> hd_fd d1 = fd \<and> idle d1"
    using ce(2,3) s(3)
    by (auto simp: s1_def epoll_mod_def Let_def EqualAndUpdateLastEvents_def add_timer_def set_conn_def idle_def split: prod.split)
  then obtain d1 where d1: "ep_conns s1 c = Some d1" "hd_fd d1 = fd" "idle d1" by blast
  have "fd2http s1 fd = Some c" using fr ep_coreD(2) [OF ep_butD(1) [OF s(1)] s(2)] by simp
  then have "reap c s1 = s1" using d1 by (simp add: reap_def owned_def conn_fd_def)
  then have "run_event fs tv True EPOLLIN w c s = s1" using ce by (simp add: run_event_def d s1_def Let_def)
  then show ?thesis using i fr(1) d1 by (auto simp: ready_def)
qed

lemma run_newEvent_ready:
  assumes i: "ep_inv s" and c: "c \<in> set (ep_pend s)" and d: "ep_conns s c = Some (HttpData_make fd)"
  shows "ready c fd (run_newEvent tv True c s)"
proof -
  let ?s' = "run_newEvent tv True c s"
  have cf: "conn_fd c s = fd" by (simp add: conn_fd_def d HttpData_make_def)
  note r = run_newEvent_registers [OF i c refl, of tv, unfolded cf]
  have i': "ep_inv ?s'" by (rule run_newEvent_inv [OF i c])
  have "\<exists>d1. ep_conns ?s' c = Some d1 \<and> hd_fd d1 = fd"
    using ep_coreD(3) [OF ep_butD(1) [OF i'] ep_coreD(2) [OF ep_butD(1) [OF i'] r(1)]] by (auto simp: alive_def conn_fd_def)
  then obtain d1 where d1: "ep_conns ?s' c = Some d1" "hd_fd d1 = fd" by blast
  moreover have "idle d1"
    using d1(1)
    by (auto simp: run_newEvent_def d newEvent_def Let_def reap_def epoll_add_def add_timer_def set_conn_def
        HttpData_make_def idle_def DEFAULT_EXPIRED_TIME_def split: if_splits prod.splits)
  ultimately show ?thesis using i' r(1) by (simp add: ready_def)
qed

text \<open>What a client does in one exchange, as its socket shows it: the pieces of a request arrive, and the
  socket takes as much of the answer at a time as it likes, all of it in the end.\<close>

definition exchange_ok :: "legacy_fs \<Rightarrow> lworld \<Rightarrow> string \<Rightarrow> bool" where
  "exchange_ok fs w reply \<longleftrightarrow> (\<exists>ds m f v hs sz bdy ks. lw_reads w = map Rd ds \<and> list_all (\<lambda>x. x \<noteq> []) ds \<and>
     concat ds = request_bytes m f v hs \<and> request_ok m f v hs \<and> m \<noteq> METHOD_POST \<and>
     servable fs m (takeWhile (\<lambda>c. c \<noteq> CHR ''?'') f) sz bdy \<and>
     reply = ok_reply m (takeWhile (\<lambda>c. c \<noteq> CHR ''?'') f) (keep_asked hs) sz bdy \<and>
     lw_writes w = map Wr ks \<and> length reply \<le> sum_list ks)"

text \<open>The events of a connection for one exchange after the other, with what each one writes.\<close>

fun conn_run :: "legacy_fs \<Rightarrow> timeval \<Rightarrow> nat \<Rightarrow> lworld list \<Rightarrow> Epoll \<Rightarrow> string list \<times> Epoll" where
  "conn_run fs tv c [] s = ([], s)"
| "conn_run fs tv c (w # ws) s =
     (let out = (case ep_conns s c of
                   None \<Rightarrow> []
                 | Some d \<Rightarrow> (case conn_events fs EPOLLIN d w of (d', w', calls) \<Rightarrow> drop (length (lw_out w)) (lw_out w')))
      in case conn_run fs tv c ws (run_event fs tv True EPOLLIN w c s) of (outs, s') \<Rightarrow> (out # outs, s'))"

lemma conn_run_answers:
  assumes "ready c fd s" "list_all2 (exchange_ok fs) ws replies"
  shows "fst (conn_run fs tv c ws s) = replies \<and> ready c fd (snd (conn_run fs tv c ws s))"
  using assms(2,1)
proof (induction arbitrary: s rule: list_all2_induct)
  case (Cons w ws reply replies)
  obtain d where d: "ep_conns s c = Some d" "idle d" using Cons.prems by (auto simp: ready_def)
  obtain d' w' t where ce: "conn_events fs EPOLLIN d w = (d', w', [Update_poller (or EPOLLIN EPOLLET) t])"
    "lw_out w' = lw_out w @ reply" "idle d'" "hd_fd d' = hd_fd d" "\<not> hd_timer d'"
    using Cons.hyps(1) conn_events_served [OF d(2), of w] unfolding exchange_ok_def by metis
  have "ready c fd (run_event fs tv True EPOLLIN w c s)" by (rule run_event_ready [OF Cons.prems d(1) ce(1,3-5)])
  from Cons.IH [OF this] show ?case by (auto simp: d(1) ce(1,2) split: prod.split)
qed simp

lemma accept_step:
  assumes "armed (rx_server r)" "0 < fd" "fd < Server_MAXFDS" "fd \<notin> rx_open r" "setSocketNonBlocking g f = 0"
  shows "\<exists>r1. rx_step (X_accept (Acc fd g f)) r r1 \<and>
    rx_loops r1 (Some (turn (sv_pool (rx_server r)) 0)) =
      accept_conn (rx_next r) fd (rx_loops r (Some (turn (sv_pool (rx_server r)) 0)))"
proof -
  let ?s = "rx_server r"
  let ?s1 = "?s\<lparr>sv_pool := advance (Suc 0) (sv_pool ?s), sv_queued := sv_queued ?s @ [(Some (turn (sv_pool ?s) 0), fd)]\<rparr>"
  have "accept_conns [Acc fd g f] ?s = Some (True, ?s1, [])"
    using armed_next(1) [OF assms(1)] assms(2,3,5) by (simp add: Let_def)
  moreover have "acc_ok (rx_open r) (Acc fd g f)" using assms(2,4) by (simp add: acc_ok_def)
  ultimately have "rx_step (X_accept (Acc fd g f)) r (rx_accepted (Acc fd g f) ?s1 r)" by (rule rx_step.accept)
  moreover have "rx_loops (rx_accepted (Acc fd g f) ?s1 r) (Some (turn (sv_pool ?s) 0)) =
      accept_conn (rx_next r) fd (rx_loops r (Some (turn (sv_pool ?s) 0)))"
    by (simp add: rx_accepted_def Let_def hand_def)
  ultimately show ?thesis by blast
qed

lemma reactor_serves_lemma:
  assumes run: "rx_move\<^sup>*\<^sup>* (Reactor_make sv) r" "armed (rx_server r)"
    and new: "0 < fd" "fd < Server_MAXFDS" "fd \<notin> rx_open r" "setSocketNonBlocking g f = 0"
    and client: "list_all2 (exchange_ok fs) ws replies"
    and loop: "l = Some (turn (sv_pool (rx_server r)) 0)"
  shows "\<exists>r1 r2 c. rx_step (X_accept (Acc fd g f)) r r1 \<and> rx_step (X_loop l L_new) r1 r2 \<and>
    fst (conn_run fs tv c ws (rx_loops r2 l)) = replies \<and> ready c fd (snd (conn_run fs tv c ws (rx_loops r2 l)))"
proof -
  obtain r1 where r1: "rx_step (X_accept (Acc fd g f)) r r1" "rx_loops r1 l = accept_conn (rx_next r) fd (rx_loops r l)"
    using accept_step [OF run(2) new] unfolding loop by blast
  let ?c = "rx_next r" and ?s = "rx_loops r1 l"
  have "rx_inv r1" using rx_step_inv [OF r1(1)] rx_moves_inv [OF run(1) Reactor_make_inv] by blast
  then have i: "ep_inv ?s" by (rule rx_invD)
  have p: "?c \<in> set (ep_pend ?s)" "ep_conns ?s ?c = Some (HttpData_make fd)" by (simp_all add: r1(2) accept_conn_def)
  let ?r2 = "loop_moved l (run_newEvent tv True ?c ?s) r1"
  have "rx_step (X_loop l L_new) r1 ?r2" by (rule rx_step.loop [OF ep_step.new_event [OF p(1)]]) simp
  moreover have "rx_loops ?r2 l = run_newEvent tv True ?c ?s" by (simp add: loop_moved_def Let_def)
  moreover note conn_run_answers [OF run_newEvent_ready [OF i p] client]
  ultimately show ?thesis using r1(1) by metis
qed


section \<open>Witnesses\<close>

lemma rx_example:
  "rx_move\<^sup>*\<^sup>* (Reactor_make ex_server) (Reactor_make ex_server)" "armed (rx_server (Reactor_make ex_server))"
  using ex_server_armed by (simp_all add: Reactor_make_def)

definition rx_one :: Reactor where
  "rx_one = rx_accepted (Acc 5 0 0) (ex_server\<lparr>sv_pool := advance (Suc 0) (sv_pool ex_server),
     sv_queued := [(Some 10, 5)]\<rparr>) (Reactor_make ex_server)"

lemma rx_one_step: "rx_step (X_accept (Acc 5 0 0)) (Reactor_make ex_server) rx_one" "\<not> loses (X_accept (Acc 5 0 0))"
  unfolding rx_one_def
  by (rule rx_step.accept [where go = True and rest = "[]"])
    (simp_all add: Reactor_make_def ex_server_def Server_MAXFDS_def setSocketNonBlocking_def getNextLoop_def advance_def
      acc_ok_def loses_def)

lemma rx_one_move: "rx_move\<^sup>*\<^sup>* (Reactor_make ex_server) rx_one"
proof (rule r_into_rtranclp)
  show "rx_move (Reactor_make ex_server) rx_one" unfolding rx_move_def using rx_one_step(1) by blast
qed

theorem reactor_descriptors_witness: "rx_open rx_one = live_fds rx_one \<union> rx_lost rx_one \<and> rx_open rx_one = {5}"
proof
  show "rx_open rx_one = live_fds rx_one \<union> rx_lost rx_one" using reactor_descriptors [OF rx_one_move] by blast
  show "rx_open rx_one = {5}" by (simp add: rx_one_def rx_accepted_def Reactor_make_def ex_server_def acc_new_def)
qed

theorem reactor_no_leak_witness: "rx_open rx_one = live_fds rx_one"
  by (rule reactor_no_leak [of ex_server]) (use rx_one_step in blast)

theorem reactor_bounded_witness:
  "finite {(l, c). ep_conns (rx_loops rx_one l) c \<noteq> None} \<and> card {(l, c). ep_conns (rx_loops rx_one l) c \<noteq> None} < 100000"
  by (rule reactor_bounded [OF rx_one_move])

lemma wit_exchange:
  "exchange_ok wit_fs (wit_world [take 9 wit_req, drop 9 wit_req]) (ok_reply METHOD_GET ''a'' False 2 ''hi'')"
proof -
  have ne: "take 9 wit_req \<noteq> []" "drop 9 wit_req \<noteq> []"
    by (simp_all add: wit_req_def request_bytes_def req_line_def method_name_def)
  show ?thesis unfolding exchange_ok_def
    by (intro exI [of _ "[take 9 wit_req, drop 9 wit_req]"] exI [of _ METHOD_GET] exI [of _ "''a?x''"] exI [of _ HTTP_11]
        exI [of _ "[(''Host'', ''x'')]"] exI [of _ 2] exI [of _ "''hi''"] exI [of _ "[50, 1000]"])
      (use ne wit_facts in \<open>simp add: wit_world_def wit_req_def\<close>)
qed


end
