(* ===== verification/WakeChannel.thy ===== *)
theory WakeChannel
  imports EventLoop Poller
begin

text \<open>
  The channel of the wake-up descriptor of a loop: its registration by the constructor of
  \<^verbatim>\<open>EventLoop\<close>, its handlers, and the destructor. The lemmas tie the wake-ups of the theory
  of the loop to the poller: the descriptor stays watched, and reading it consumes what was
  written.
\<close>

record 'f wake_loop =
  wl_loop :: "'f EventLoop"
  wl_chan :: Channel
  wl_closed :: bool

text \<open>The constructor; \<open>None\<close> when \<^verbatim>\<open>createEventfd\<close> aborts.\<close>

definition wake_make :: "fd \<Rightarrow> bool \<Rightarrow> 'f wake_loop option" where
  "wake_make evtfd ctl_ok =
     (if evtfd < 0 then None
      else Some \<lparr>wl_loop = EventLoop_make, wl_chan = addToPoller ctl_ok (Channel_make\<lparr>ch_events := or EPOLLIN EPOLLET\<rparr>),
                 wl_closed = False\<rparr>)"

definition wake_zero :: "'f wake_loop \<Rightarrow> 'f wake_loop" where
  "wake_zero s = s\<lparr>wl_chan := (wl_chan s)\<lparr>ch_events := 0\<rparr>\<rparr>"

definition wake_handleRead :: "'f wake_loop \<Rightarrow> 'f wake_loop" where
  "wake_handleRead s = s\<lparr>wl_loop := el_handleRead (wl_loop s), wl_chan := (wl_chan s)\<lparr>ch_events := or EPOLLIN EPOLLET\<rparr>\<rparr>"

definition wake_handleConn :: "bool \<Rightarrow> 'f wake_loop \<Rightarrow> 'f wake_loop" where
  "wake_handleConn ctl_ok s = s\<lparr>wl_chan := updatePoller ctl_ok (wl_chan s)\<rparr>"

definition wake_events :: "32 word \<Rightarrow> bool \<Rightarrow> 'f wake_loop \<Rightarrow> 'f wake_loop" where
  "wake_events revents ctl_ok s =
     handleEvents wake_zero (Some wake_handleRead) None None (Some (wake_handleConn ctl_ok)) revents s"

definition wake_dtor :: "'f wake_loop \<Rightarrow> 'f wake_loop" where
  "wake_dtor s = s\<lparr>wl_closed := True\<rparr>"

abbreviation wake_watched :: "'f wake_loop \<Rightarrow> bool" where
  "wake_watched s \<equiv> watched (or EPOLLIN EPOLLET) (wl_chan s)"

lemma wake_make_watched: "wake_make evtfd True = Some s \<Longrightarrow> wake_watched s"
  by (auto simp: wake_make_def addToPoller_watched split: if_splits)

lemma wake_events_read:
  assumes "wake_watched s"
  shows "wake_watched (wake_events EPOLLIN ok s)" "el_wakeups (wl_loop (wake_events EPOLLIN ok s)) = 0"
    "el_pending (wl_loop (wake_events EPOLLIN ok s)) = el_pending (wl_loop s)"
  using assms
  by (simp_all add: wake_events_def handleEvents_read wake_zero_def wake_handleRead_def wake_handleConn_def
      updatePoller_watched el_handleRead_def)

text \<open>What other threads and the loop do between two events of the channel.\<close>

datatype 'f wake_op = W_event bool | W_queue bool 'f | W_quit bool | W_take | W_end

fun wake_do :: "'f wake_op \<Rightarrow> 'f wake_loop \<Rightarrow> 'f wake_loop" where
  "wake_do (W_event ok) s = wake_events EPOLLIN ok s"
| "wake_do (W_queue here cb) s = s\<lparr>wl_loop := queueInLoop here cb (wl_loop s)\<rparr>"
| "wake_do (W_quit here) s = s\<lparr>wl_loop := quit here (wl_loop s)\<rparr>"
| "wake_do W_take s = s\<lparr>wl_loop := snd (take_pending (wl_loop s))\<rparr>"
| "wake_do W_end s = s\<lparr>wl_loop := end_pending (wl_loop s)\<rparr>"

text \<open>A registered wake-up channel stays registered for its event whatever happens to the loop, also
  when \<^verbatim>\<open>epoll_ctl\<close> would fail: its handlers never have anything to change. A functor that another
  thread has queued last is then announced by a readable descriptor that the kernel watches.\<close>

theorem wake_channel_armed:
  assumes "wake_make evtfd True = Some s" "s' = fold wake_do ops s"
  shows "wake_watched s' \<and> wake_watched (wake_do (W_queue False cb) s') \<and>
    0 < el_wakeups (wl_loop (wake_do (W_queue False cb) s')) \<and>
    last (el_pending (wl_loop (wake_do (W_queue False cb) s'))) = cb"
proof -
  have step: "wake_watched (wake_do x t)" if "wake_watched t" for x and t :: "'a wake_loop"
    using that wake_events_read(1) by (cases x) simp_all
  have "wake_watched (fold wake_do xs t)" if "wake_watched t" for xs and t :: "'a wake_loop"
    using that by (induction xs arbitrary: t) (simp_all add: step)
  then have "wake_watched s'" using wake_make_watched [OF assms(1)] assms(2) by simp
  then show ?thesis by (simp add: queueInLoop_def queue_push_def wakeup_def Let_def)
qed

theorem wake_channel_armed_witness:
  "0 < el_wakeups (wl_loop (wake_do (W_queue False (7 :: nat)) (wake_do (W_event False) (the (wake_make 4 True)))))"
  using wake_channel_armed [of 4 "the (wake_make 4 True) :: nat wake_loop" _ "[W_event False]" 7]
  by (simp add: wake_make_def)

end
