(* ===== verification/Thread.thy ===== *)
theory Thread
  imports Prelude
begin

text \<open>
  \<^verbatim>\<open>WebServer/base/Thread\<close>, \<^verbatim>\<open>CountDownLatch\<close> and \<^verbatim>\<open>CurrentThread\<close>: starting a thread and
  waiting until it runs. The starting thread and the new one are the two sides of a step
  relation; a critical section of the latch is one step, and waiting on its condition is being
  blocked until the notification (or for no reason at all, as the condition allows).
\<close>

section \<open>The latch\<close>

record CountDownLatch =
  cdl_count :: int
  cdl_waiting :: nat

definition CountDownLatch_make :: "int \<Rightarrow> CountDownLatch" where
  "CountDownLatch_make count = \<lparr>cdl_count = count, cdl_waiting = 0\<rparr>"

text \<open>One round of the loop of \<^verbatim>\<open>wait\<close>: whether it is over, otherwise the caller waits.\<close>

definition latch_wait :: "CountDownLatch \<Rightarrow> bool \<times> CountDownLatch" where
  "latch_wait l = (if 0 < cdl_count l then (False, l\<lparr>cdl_waiting := cdl_waiting l + 1\<rparr>) else (True, l))"

definition countDown :: "CountDownLatch \<Rightarrow> CountDownLatch" where
  "countDown l =
     (let l1 = l\<lparr>cdl_count := cdl_count l - 1\<rparr>
      in if cdl_count l1 = 0 then l1\<lparr>cdl_waiting := 0\<rparr> else l1)"

section \<open>Thread-local data\<close>

record CurrentThread =
  t_cachedTid :: int
  t_tidString :: string
  t_tidStringLength :: int
  t_threadName :: string

definition CurrentThread_make :: CurrentThread where
  "CurrentThread_make = \<lparr>t_cachedTid = 0, t_tidString = [], t_tidStringLength = 6, t_threadName = ''default''\<rparr>"

text \<open>The text of the format \<^verbatim>\<open>"%5d "\<close> for a positive number, cut to the buffer of 32 bytes.\<close>

definition tid_text :: "int \<Rightarrow> string" where
  "tid_text n = (let ds = to_string (nat n) in replicate (5 - length ds) CHR '' '' @ ds @ '' '')"

definition cacheTid :: "int \<Rightarrow> CurrentThread \<Rightarrow> CurrentThread" where
  "cacheTid gettid c =
     (if t_cachedTid c = 0
      then c\<lparr>t_cachedTid := gettid, t_tidString := take 31 (tid_text gettid),
             t_tidStringLength := int (length (tid_text gettid))\<rparr>
      else c)"

definition current_tid :: "int \<Rightarrow> CurrentThread \<Rightarrow> int \<times> CurrentThread" where
  "current_tid gettid c =
     (let c1 = (if t_cachedTid c = 0 then cacheTid gettid c else c) in (t_cachedTid c1, c1))"

section \<open>The thread object\<close>

record Thread =
  th_started :: bool
  th_joined :: bool
  th_tid :: int
  th_name :: string
  th_latch :: CountDownLatch

definition setDefaultName :: "Thread \<Rightarrow> Thread" where
  "setDefaultName t = (if th_name t = [] then t\<lparr>th_name := ''Thread''\<rparr> else t)"

definition Thread_make :: "string \<Rightarrow> Thread" where
  "Thread_make n = setDefaultName \<lparr>th_started = False, th_joined = False, th_tid = 0, th_name = n,
     th_latch = CountDownLatch_make 1\<rparr>"

text \<open>The destructor: whether it detaches the thread.\<close>

definition Thread_dtor :: "Thread \<Rightarrow> bool" where
  "Thread_dtor t = (th_started t \<and> \<not> th_joined t)"

text \<open>\<^verbatim>\<open>start\<close> up to its wait: whether the thread was created; \<open>None\<close> is the failing assertion.\<close>

definition Thread_start :: "bool \<Rightarrow> Thread \<Rightarrow> (bool \<times> Thread) option" where
  "Thread_start created t =
     (if th_started t then None
      else (let t1 = t\<lparr>th_started := True\<rparr>
            in if \<not> created then Some (False, t1\<lparr>th_started := False\<rparr>) else Some (True, t1)))"

definition Thread_join :: "Thread \<Rightarrow> Thread option" where
  "Thread_join t = (if \<not> th_started t then None else if th_joined t then None else Some (t\<lparr>th_joined := True\<rparr>))"

section \<open>Both threads\<close>

text \<open>Where the caller of \<^verbatim>\<open>start\<close> is, and where \<^verbatim>\<open>ThreadData::runInThread\<close> of the new thread is.\<close>

datatype starter_pc = S_call | S_wait | S_blocked | S_assert | S_returned | S_not_created | S_aborted

datatype child_pc = C_none | C_tid | C_count | C_name | C_func | C_end | C_done

record thread_world =
  tw_thread :: Thread
  tw_local :: CurrentThread
  tw_starter :: starter_pc
  tw_child :: child_pc
  tw_runs :: nat

definition thread_init :: "string \<Rightarrow> thread_world" where
  "thread_init n = \<lparr>tw_thread = Thread_make n, tw_local = CurrentThread_make, tw_starter = S_call, tw_child = C_none,
     tw_runs = 0\<rparr>"

definition on_latch :: "(CountDownLatch \<Rightarrow> CountDownLatch) \<Rightarrow> Thread \<Rightarrow> Thread" where
  "on_latch f t = t\<lparr>th_latch := f (th_latch t)\<rparr>"

text \<open>The parts of \<^verbatim>\<open>runInThread\<close>.\<close>

definition run_tid :: "int \<Rightarrow> thread_world \<Rightarrow> thread_world" where
  "run_tid gettid w =
     (case current_tid gettid (tw_local w) of
        (n, c) \<Rightarrow> w\<lparr>tw_thread := (tw_thread w)\<lparr>th_tid := n\<rparr>, tw_local := c, tw_child := C_count\<rparr>)"

definition run_count :: "thread_world \<Rightarrow> thread_world" where
  "run_count w = w\<lparr>tw_thread := on_latch countDown (tw_thread w), tw_child := C_name\<rparr>"

definition run_name :: "thread_world \<Rightarrow> thread_world" where
  "run_name w =
     (let n = (if th_name (tw_thread w) = [] then ''Thread'' else th_name (tw_thread w))
      in w\<lparr>tw_local := (tw_local w)\<lparr>t_threadName := n\<rparr>, tw_child := C_func\<rparr>)"

definition run_func :: "thread_world \<Rightarrow> thread_world" where
  "run_func w = w\<lparr>tw_runs := tw_runs w + 1, tw_child := C_end\<rparr>"

definition run_end :: "thread_world \<Rightarrow> thread_world" where
  "run_end w = w\<lparr>tw_local := (tw_local w)\<lparr>t_threadName := ''finished''\<rparr>, tw_child := C_done\<rparr>"

lemmas run_defs = run_tid_def run_count_def run_name_def run_func_def run_end_def

inductive thread_step :: "int \<Rightarrow> thread_world \<Rightarrow> thread_world \<Rightarrow> bool" for gettid :: int where
  create: "tw_starter w = S_call \<Longrightarrow> Thread_start True (tw_thread w) = Some (True, t) \<Longrightarrow>
    thread_step gettid w (w\<lparr>tw_thread := t, tw_starter := S_wait, tw_child := C_tid\<rparr>)"
| create_fail: "tw_starter w = S_call \<Longrightarrow> Thread_start False (tw_thread w) = Some (False, t) \<Longrightarrow>
    thread_step gettid w (w\<lparr>tw_thread := t, tw_starter := S_not_created\<rparr>)"
| call_abort: "tw_starter w = S_call \<Longrightarrow> Thread_start b (tw_thread w) = None \<Longrightarrow>
    thread_step gettid w (w\<lparr>tw_starter := S_aborted\<rparr>)"
| wait_over: "tw_starter w = S_wait \<Longrightarrow> latch_wait (th_latch (tw_thread w)) = (True, l) \<Longrightarrow>
    thread_step gettid w (w\<lparr>tw_thread := (tw_thread w)\<lparr>th_latch := l\<rparr>, tw_starter := S_assert\<rparr>)"
| wait_block: "tw_starter w = S_wait \<Longrightarrow> latch_wait (th_latch (tw_thread w)) = (False, l) \<Longrightarrow>
    thread_step gettid w (w\<lparr>tw_thread := (tw_thread w)\<lparr>th_latch := l\<rparr>, tw_starter := S_blocked\<rparr>)"
| woken: "tw_starter w = S_blocked \<Longrightarrow> cdl_waiting (th_latch (tw_thread w)) = 0 \<Longrightarrow>
    thread_step gettid w (w\<lparr>tw_starter := S_wait\<rparr>)"
| spurious: "tw_starter w = S_blocked \<Longrightarrow> cdl_waiting (th_latch (tw_thread w)) \<noteq> 0 \<Longrightarrow>
    thread_step gettid w (w\<lparr>tw_thread := on_latch (cdl_waiting_update (\<lambda>n. n - 1)) (tw_thread w), tw_starter := S_wait\<rparr>)"
| assert_ok: "tw_starter w = S_assert \<Longrightarrow> 0 < th_tid (tw_thread w) \<Longrightarrow>
    thread_step gettid w (w\<lparr>tw_starter := S_returned\<rparr>)"
| assert_abort: "tw_starter w = S_assert \<Longrightarrow> \<not> 0 < th_tid (tw_thread w) \<Longrightarrow>
    thread_step gettid w (w\<lparr>tw_starter := S_aborted\<rparr>)"
| child_tid: "tw_child w = C_tid \<Longrightarrow> thread_step gettid w (run_tid gettid w)"
| child_count: "tw_child w = C_count \<Longrightarrow> thread_step gettid w (run_count w)"
| child_name: "tw_child w = C_name \<Longrightarrow> thread_step gettid w (run_name w)"
| child_func: "tw_child w = C_func \<Longrightarrow> thread_step gettid w (run_func w)"
| child_end: "tw_child w = C_end \<Longrightarrow> thread_step gettid w (run_end w)"

section \<open>Invariant\<close>

definition counted :: "child_pc \<Rightarrow> bool" where
  "counted c \<longleftrightarrow> c \<in> {C_name, C_func, C_end, C_done}"

text \<open>The number is stored before the latch is opened, the caller is past the latch only when it is
  open, and it is asleep without a wake-up on its way only while the latch is closed.\<close>

definition thread_inv :: "int \<Rightarrow> thread_world \<Rightarrow> bool" where
  "thread_inv g w \<longleftrightarrow>
     (let t = tw_thread w; l = th_latch t
      in (tw_child w \<in> {C_none, C_tid} \<longrightarrow> t_cachedTid (tw_local w) = 0) \<and>
         (tw_child w \<notin> {C_none, C_tid} \<longrightarrow> th_tid t = g) \<and>
         cdl_count l = (if counted (tw_child w) then 0 else 1) \<and>
         (tw_starter w \<in> {S_assert, S_returned} \<longrightarrow> counted (tw_child w)) \<and>
         (tw_starter w \<in> {S_call, S_not_created} \<longleftrightarrow> tw_child w = C_none) \<and>
         (tw_starter w = S_call \<longrightarrow> \<not> th_started t) \<and>
         (tw_starter w \<in> {S_wait, S_blocked, S_assert, S_returned} \<longrightarrow> th_started t) \<and>
         (tw_starter w = S_blocked \<longrightarrow> cdl_waiting l \<noteq> 0 \<longrightarrow> \<not> counted (tw_child w)) \<and>
         (tw_starter w \<noteq> S_blocked \<longrightarrow> cdl_waiting l = 0) \<and> cdl_waiting l \<le> 1 \<and>
         tw_starter w \<noteq> S_aborted \<and>
         tw_runs w = (if tw_child w \<in> {C_end, C_done} then 1 else 0))"

lemma thread_init_inv: "thread_inv g (thread_init n)"
  by (simp add: thread_inv_def thread_init_def Thread_make_def setDefaultName_def CountDownLatch_make_def
      CurrentThread_make_def counted_def Let_def)

lemma thread_step_inv:
  assumes "thread_step g w w'" "0 < g" "thread_inv g w"
  shows "thread_inv g w'"
  using assms
  by (induction rule: thread_step.induct)
    (auto simp: thread_inv_def run_defs on_latch_def countDown_def latch_wait_def Thread_start_def current_tid_def
      cacheTid_def counted_def Let_def split: if_splits)

lemma thread_reach_inv: "(thread_step g)\<^sup>*\<^sup>* (thread_init n) w \<Longrightarrow> 0 < g \<Longrightarrow> thread_inv g w"
  by (induction rule: rtranclp_induct) (auto intro: thread_init_inv thread_step_inv)

text \<open>However the two threads interleave, no assertion of \<^verbatim>\<open>start\<close> fails, \<^verbatim>\<open>start\<close> returns only
  when the new thread runs and its number is stored, and while the caller is asleep with no
  wake-up on its way the new thread is still to open the latch: the wake-up is not lost.\<close>

theorem thread_start_sound:
  assumes "(thread_step g)\<^sup>*\<^sup>* (thread_init n) w" "0 < g"
  shows "tw_starter w \<noteq> S_aborted \<and>
    (tw_starter w = S_returned \<longrightarrow> th_tid (tw_thread w) = g \<and> th_started (tw_thread w) \<and> tw_child w \<in> {C_name, C_func, C_end, C_done}) \<and>
    (tw_starter w = S_blocked \<longrightarrow> cdl_waiting (th_latch (tw_thread w)) \<noteq> 0 \<longrightarrow> tw_child w \<in> {C_tid, C_count})"
proof -
  have i: "thread_inv g w" by (rule thread_reach_inv [OF assms])
  show ?thesis
    using i by (cases "tw_child w") (auto simp: thread_inv_def counted_def Let_def)
qed

section \<open>Witnesses\<close>

definition started_world :: thread_world where
  "started_world = \<lparr>tw_thread = (Thread_make ''io'')\<lparr>th_started := True, th_latch := \<lparr>cdl_count = 1, cdl_waiting = 1\<rparr>\<rparr>,
     tw_local = CurrentThread_make, tw_starter = S_blocked, tw_child = C_tid, tw_runs = 0\<rparr>"

lemma started_world_reached: "(thread_step 7)\<^sup>*\<^sup>* (thread_init ''io'') started_world"
proof -
  let ?w = "(thread_init ''io'')\<lparr>tw_thread := (Thread_make ''io'')\<lparr>th_started := True\<rparr>, tw_starter := S_wait, tw_child := C_tid\<rparr>"
  have 1: "thread_step 7 (thread_init ''io'') ?w"
    by (rule thread_step.create) (simp_all add: thread_init_def Thread_start_def Thread_make_def setDefaultName_def Let_def)
  have "thread_step 7 ?w (?w\<lparr>tw_thread := (tw_thread ?w)\<lparr>th_latch := \<lparr>cdl_count = 1, cdl_waiting = 1\<rparr>\<rparr>, tw_starter := S_blocked\<rparr>)"
    by (rule thread_step.wait_block)
      (simp_all add: latch_wait_def Thread_make_def setDefaultName_def CountDownLatch_make_def)
  then have 2: "thread_step 7 ?w started_world" by (simp add: started_world_def thread_init_def)
  show ?thesis by (rule converse_rtranclp_into_rtranclp, rule 1, rule r_into_rtranclp, rule 2)
qed

theorem thread_start_sound_witness:
  "tw_starter started_world \<noteq> S_aborted \<and> tw_child started_world \<in> {C_tid, C_count}"
proof -
  have "tw_starter started_world = S_blocked" "cdl_waiting (th_latch (tw_thread started_world)) \<noteq> 0"
    by (simp_all add: started_world_def)
  then show ?thesis using thread_start_sound [OF started_world_reached] by simp
qed

end
