(* ===== verification/Monitor.thy ===== *)
theory Monitor
  imports Thread
begin

text \<open>
  \<^verbatim>\<open>base/MutexLock.h\<close>, \<^verbatim>\<open>base/Condition.h\<close> and, on top of them, \<^verbatim>\<open>base/CountDownLatch\<close> statement by
  statement: lock, test, wait, decrement, notify and unlock are steps of their own that the threads
  take in any order, and a wait may wake up without a notification. The latch that \<^verbatim>\<open>Thread\<close> uses
  as one step per call is the abstraction of this one.
\<close>

section \<open>Mutexes and conditions\<close>

text \<open>A thread that finds the mutex taken does not get on: \<open>None\<close>.\<close>

record MutexLock =
  mx_owner :: "nat option"

definition MutexLock_make :: MutexLock where
  "MutexLock_make = \<lparr>mx_owner = None\<rparr>"

definition mx_lock :: "nat \<Rightarrow> MutexLock \<Rightarrow> MutexLock option" where
  "mx_lock t m = (if mx_owner m = None then Some (m\<lparr>mx_owner := Some t\<rparr>) else None)"

definition mx_unlock :: "MutexLock \<Rightarrow> MutexLock" where
  "mx_unlock m = m\<lparr>mx_owner := None\<rparr>"

text \<open>The destructor locks the mutex before it destroys it.\<close>

definition MutexLock_dtor :: "nat \<Rightarrow> MutexLock \<Rightarrow> MutexLock option" where
  "MutexLock_dtor t m = mx_lock t m"

definition MutexLockGuard_make :: "nat \<Rightarrow> MutexLock \<Rightarrow> MutexLock option" where
  "MutexLockGuard_make t m = mx_lock t m"

definition MutexLockGuard_dtor :: "MutexLock \<Rightarrow> MutexLock" where
  "MutexLockGuard_dtor m = mx_unlock m"

text \<open>The threads that wait on the condition and have not been woken.\<close>

record Condition =
  cv_waiting :: "nat set"

definition Condition_make :: Condition where
  "Condition_make = \<lparr>cv_waiting = {}\<rparr>"

text \<open>\<^verbatim>\<open>wait\<close> gives the mutex up and blocks in one step; a woken thread has to lock it again.\<close>

definition cond_wait :: "nat \<Rightarrow> MutexLock \<Rightarrow> Condition \<Rightarrow> MutexLock \<times> Condition" where
  "cond_wait t m c = (mx_unlock m, c\<lparr>cv_waiting := insert t (cv_waiting c)\<rparr>)"

text \<open>The kernel chooses which thread \<^verbatim>\<open>notify\<close> wakes.\<close>

definition cond_notify :: "nat option \<Rightarrow> Condition \<Rightarrow> Condition" where
  "cond_notify choice c = c\<lparr>cv_waiting := cv_waiting c - set_option choice\<rparr>"

definition cond_notifyAll :: "Condition \<Rightarrow> Condition" where
  "cond_notifyAll c = c\<lparr>cv_waiting := {}\<rparr>"

text \<open>\<^verbatim>\<open>waitForSeconds\<close>: until when it waits, and its result from what \<^verbatim>\<open>pthread_cond_timedwait\<close> returns.\<close>

definition ETIMEDOUT :: int where "ETIMEDOUT = 110"

definition wait_until :: "int \<times> int \<Rightarrow> int \<Rightarrow> int \<times> int" where
  "wait_until now seconds = (fst now + seconds, snd now)"

definition waitForSeconds :: "int \<Rightarrow> bool" where
  "waitForSeconds rc = (rc = ETIMEDOUT)"

section \<open>The latch, statement by statement\<close>

datatype latch_pc =
    LA_out | LA_wait_lock | LA_wait_test | LA_blocked | LA_woken | LA_returned
  | LA_down_lock | LA_down_dec | LA_down_test | LA_down_end

record latch_world =
  la_mutex :: MutexLock
  la_cond :: Condition
  la_count :: int
  la_pc :: "nat \<Rightarrow> latch_pc"

definition latch_init :: "int \<Rightarrow> latch_world" where
  "latch_init n = \<lparr>la_mutex = MutexLock_make, la_cond = Condition_make, la_count = n, la_pc = (\<lambda>t. LA_out)\<rparr>"

definition la_at :: "nat \<Rightarrow> latch_pc \<Rightarrow> latch_world \<Rightarrow> latch_world" where
  "la_at t p w = w\<lparr>la_pc := (la_pc w)(t := p)\<rparr>"

text \<open>The step of one thread. \<^verbatim>\<open>wait\<close>: lock, test, wait or unlock and return; a blocked thread that is no
  longer waiting has been notified. \<^verbatim>\<open>countDown\<close>: lock, decrement, test and notify, unlock.\<close>

inductive la_step :: "nat \<Rightarrow> latch_world \<Rightarrow> latch_world \<Rightarrow> bool" for t where
  wait_call: "la_pc w t = LA_out \<Longrightarrow> la_step t w (la_at t LA_wait_lock w)"
| wait_lock: "la_pc w t = LA_wait_lock \<or> la_pc w t = LA_woken \<Longrightarrow> mx_lock t (la_mutex w) = Some m \<Longrightarrow>
    la_step t w (la_at t LA_wait_test (w\<lparr>la_mutex := m\<rparr>))"
| wait_on: "la_pc w t = LA_wait_test \<Longrightarrow> 0 < la_count w \<Longrightarrow> cond_wait t (la_mutex w) (la_cond w) = (m, c) \<Longrightarrow>
    la_step t w (la_at t LA_blocked (w\<lparr>la_mutex := m, la_cond := c\<rparr>))"
| notified: "la_pc w t = LA_blocked \<Longrightarrow> t \<notin> cv_waiting (la_cond w) \<Longrightarrow> la_step t w (la_at t LA_woken w)"
| spurious: "la_pc w t = LA_blocked \<Longrightarrow>
    la_step t w (la_at t LA_woken (w\<lparr>la_cond := cond_notify (Some t) (la_cond w)\<rparr>))"
| wait_off: "la_pc w t = LA_wait_test \<Longrightarrow> \<not> 0 < la_count w \<Longrightarrow>
    la_step t w (la_at t LA_returned (w\<lparr>la_mutex := MutexLockGuard_dtor (la_mutex w)\<rparr>))"
| again: "la_pc w t = LA_returned \<Longrightarrow> la_step t w (la_at t LA_out w)"
| down_call: "la_pc w t = LA_out \<Longrightarrow> la_step t w (la_at t LA_down_lock w)"
| down_lock: "la_pc w t = LA_down_lock \<Longrightarrow> MutexLockGuard_make t (la_mutex w) = Some m \<Longrightarrow>
    la_step t w (la_at t LA_down_dec (w\<lparr>la_mutex := m\<rparr>))"
| down_dec: "la_pc w t = LA_down_dec \<Longrightarrow> la_step t w (la_at t LA_down_test (w\<lparr>la_count := la_count w - 1\<rparr>))"
| down_notify: "la_pc w t = LA_down_test \<Longrightarrow> la_count w = 0 \<Longrightarrow>
    la_step t w (la_at t LA_down_end (w\<lparr>la_cond := cond_notifyAll (la_cond w)\<rparr>))"
| down_none: "la_pc w t = LA_down_test \<Longrightarrow> la_count w \<noteq> 0 \<Longrightarrow> la_step t w (la_at t LA_down_end w)"
| down_end: "la_pc w t = LA_down_end \<Longrightarrow>
    la_step t w (la_at t LA_out (w\<lparr>la_mutex := MutexLockGuard_dtor (la_mutex w)\<rparr>))"

definition la_move :: "latch_world \<Rightarrow> latch_world \<Rightarrow> bool" where
  "la_move w w' \<longleftrightarrow> (\<exists>t. la_step t w w')"

section \<open>The invariant\<close>

definition inside :: "latch_pc \<Rightarrow> bool" where
  "inside p \<longleftrightarrow> p \<in> {LA_wait_test, LA_down_dec, LA_down_test, LA_down_end}"

text \<open>A thread is inside exactly when it owns the mutex; waiting threads are blocked, and while some wait
  either the count is positive or the thread that made it zero has still to notify them; a wait
  has returned only when the count was used up.\<close>

definition la_inv :: "latch_world \<Rightarrow> bool" where
  "la_inv w \<longleftrightarrow> (\<forall>t. inside (la_pc w t) \<longleftrightarrow> mx_owner (la_mutex w) = Some t) \<and>
     (\<forall>t \<in> cv_waiting (la_cond w). la_pc w t = LA_blocked) \<and>
     (cv_waiting (la_cond w) = {} \<or> 0 < la_count w \<or> la_count w = 0 \<and> (\<exists>t. la_pc w t = LA_down_test)) \<and>
     (\<forall>t. la_pc w t = LA_returned \<longrightarrow> la_count w \<le> 0)"

lemma la_invD:
  assumes "la_inv w"
  shows "inside (la_pc w t) \<longleftrightarrow> mx_owner (la_mutex w) = Some t" "t \<in> cv_waiting (la_cond w) \<Longrightarrow> la_pc w t = LA_blocked"
    "cv_waiting (la_cond w) = {} \<or> 0 < la_count w \<or> la_count w = 0 \<and> (\<exists>t. la_pc w t = LA_down_test)"
    "la_pc w t = LA_returned \<Longrightarrow> la_count w \<le> 0"
  using assms unfolding la_inv_def by blast+

lemma la_invI:
  assumes "\<And>t. inside (la_pc w t) \<longleftrightarrow> mx_owner (la_mutex w) = Some t" "\<And>t. t \<in> cv_waiting (la_cond w) \<Longrightarrow> la_pc w t = LA_blocked"
    "cv_waiting (la_cond w) = {} \<or> 0 < la_count w \<or> la_count w = 0 \<and> (\<exists>t. la_pc w t = LA_down_test)"
    "\<And>t. la_pc w t = LA_returned \<Longrightarrow> la_count w \<le> 0"
  shows "la_inv w"
  using assms unfolding la_inv_def by blast

lemma la_at_sel [simp]:
  "la_pc (la_at t p w) = (la_pc w)(t := p)" "la_mutex (la_at t p w) = la_mutex w" "la_cond (la_at t p w) = la_cond w"
  "la_count (la_at t p w) = la_count w"
  by (simp_all add: la_at_def)

lemmas mutex_defs = mx_lock_def mx_unlock_def MutexLockGuard_make_def MutexLockGuard_dtor_def cond_wait_def
  cond_notify_def cond_notifyAll_def

lemma latch_init_inv: "la_inv (latch_init n)"
  by (simp add: la_inv_def latch_init_def inside_def MutexLock_make_def Condition_make_def)

text \<open>Only one thread is inside, so a test that one thread is at excludes the others.\<close>

lemma inside_unique: "la_inv w \<Longrightarrow> inside (la_pc w t) \<Longrightarrow> inside (la_pc w u) \<Longrightarrow> u = t"
  using la_invD(1) [of w t] la_invD(1) [of w u] by simp

text \<open>What has to be shown of a step of the thread \<open>t\<close>.\<close>

lemma la_inv_step:
  assumes i: "la_inv w" and pc: "la_pc w' = (la_pc w)(t := p)"
    and own: "inside p \<longleftrightarrow> mx_owner (la_mutex w') = Some t"
      "\<And>u. u \<noteq> t \<Longrightarrow> mx_owner (la_mutex w') = Some u \<longleftrightarrow> mx_owner (la_mutex w) = Some u"
    and wait: "cv_waiting (la_cond w') \<subseteq> insert t (cv_waiting (la_cond w))" "t \<in> cv_waiting (la_cond w') \<Longrightarrow> p = LA_blocked"
    and note': "cv_waiting (la_cond w') = {} \<or> 0 < la_count w' \<or>
      la_count w' = 0 \<and> (p = LA_down_test \<or> (\<exists>u. u \<noteq> t \<and> la_pc w u = LA_down_test))"
    and count: "la_count w' \<le> la_count w" "p = LA_returned \<Longrightarrow> la_count w' \<le> 0"
  shows "la_inv w'"
proof -
  note d = la_invD [OF i]
  show ?thesis
  proof (rule la_invI)
    show "inside (la_pc w' u) \<longleftrightarrow> mx_owner (la_mutex w') = Some u" for u
      using own d(1) [of u] by (cases "u = t") (simp_all add: pc)
    show "la_pc w' u = LA_blocked" if "u \<in> cv_waiting (la_cond w')" for u
      using wait d(2) [of u] that by (cases "u = t") (auto simp: pc)
    show "la_count w' \<le> 0" if "la_pc w' u = LA_returned" for u
      using count d(4) [of u] that by (cases "u = t") (auto simp: pc)
    show "cv_waiting (la_cond w') = {} \<or> 0 < la_count w' \<or> la_count w' = 0 \<and> (\<exists>u. la_pc w' u = LA_down_test)"
      using note' by (auto simp: pc)
  qed
qed

lemma la_step_inv:
  assumes "la_step t w w'" "la_inv w"
  shows "la_inv w'"
proof -
  note d = la_invD [OF assms(2)]
  note st = la_inv_step [OF assms(2), of w' t]
  have n: "cv_waiting (la_cond w) = {} \<or> 0 < la_count w \<or> la_count w = 0 \<and> (\<exists>u. u \<noteq> t \<and> la_pc w u = LA_down_test)"
    if "la_pc w t \<noteq> LA_down_test" using d(3) that by metis
  have only: "\<not> (\<exists>u. u \<noteq> t \<and> la_pc w u = LA_down_test)" if "inside (la_pc w t)"
    using inside_unique [OF assms(2) that] by (auto simp: inside_def)
  have o: "mx_owner (la_mutex w) = Some t \<longleftrightarrow> inside (la_pc w t)" using d(1) by blast
  have b: "t \<in> cv_waiting (la_cond w) \<Longrightarrow> la_pc w t = LA_blocked" by (rule d(2))
  note simps = inside_def mutex_defs
  from assms(1) show ?thesis
  proof (cases rule: la_step.cases)
    case (wait_lock m)
    then show ?thesis using n b by (intro st [of LA_wait_test]) (auto simp: simps split: if_splits)
  next
    case (wait_on m c)
    then show ?thesis using o by (intro st [of LA_blocked]) (auto simp: simps)
  next
    case notified
    then show ?thesis using n o by (intro st [of LA_woken]) (auto simp: simps)
  next
    case spurious
    then show ?thesis using n o by (intro st [of LA_woken]) (auto simp: simps)
  next
    case wait_off
    then show ?thesis using n o b only by (intro st [of LA_returned]) (auto simp: simps)
  next
    case (down_lock m)
    then show ?thesis using n b by (intro st [of LA_down_dec]) (auto simp: simps split: if_splits)
  next
    case down_dec
    then show ?thesis using n o b only by (intro st [of LA_down_test]) (auto simp: simps)
  next
    case down_notify
    then show ?thesis using o by (intro st [of LA_down_end]) (auto simp: simps)
  next
    case down_none
    then show ?thesis using o b d(3) by (intro st [of LA_down_end]) (auto simp: simps)
  next
    case down_end
    then show ?thesis using n o b by (intro st [of LA_out]) (auto simp: simps)
  next
    case wait_call
    then show ?thesis using n o b by (intro st [of LA_wait_lock]) (auto simp: simps)
  next
    case down_call
    then show ?thesis using n o b by (intro st [of LA_down_lock]) (auto simp: simps)
  next
    case again
    then show ?thesis using n o b by (intro st [of LA_out]) (auto simp: simps)
  qed
qed

lemma la_moves_inv: "la_move\<^sup>*\<^sup>* w w' \<Longrightarrow> la_inv w \<Longrightarrow> la_inv w'"
  by (induction rule: rtranclp_induct) (auto simp: la_move_def intro: la_step_inv)

text \<open>A waiting thread is one that has called \<^verbatim>\<open>wait\<close>; there are finitely many.\<close>

lemma la_finite_step: "la_step t w w' \<Longrightarrow> finite (cv_waiting (la_cond w)) \<Longrightarrow> finite (cv_waiting (la_cond w'))"
  by (cases rule: la_step.cases) (auto simp: mutex_defs)

lemma la_moves_finite: "la_move\<^sup>*\<^sup>* w w' \<Longrightarrow> finite (cv_waiting (la_cond w)) \<Longrightarrow> finite (cv_waiting (la_cond w'))"
  by (induction rule: rtranclp_induct) (auto simp: la_move_def intro: la_finite_step)

section \<open>The latch of \<^verbatim>\<open>Thread\<close> is its abstraction\<close>

text \<open>The abstract decrement notifies at once; between the two statements the waiting threads count as
  notified.\<close>

definition la_abs :: "latch_world \<Rightarrow> CountDownLatch" where
  "la_abs w = \<lparr>cdl_count = la_count w,
     cdl_waiting = (if la_count w = 0 \<and> (\<exists>t. la_pc w t = LA_down_test) then 0 else card (cv_waiting (la_cond w)))\<rparr>"

text \<open>What a call, a round of the loop of \<^verbatim>\<open>wait\<close> or a wake-up does to the abstract latch.\<close>

definition latch_move :: "CountDownLatch \<Rightarrow> CountDownLatch \<Rightarrow> bool" where
  "latch_move l l' \<longleftrightarrow> l' = countDown l \<or> l' = snd (latch_wait l) \<or> l' = l\<lparr>cdl_waiting := cdl_waiting l - 1\<rparr>"

lemma la_abs_eqI:
  assumes "la_count w' = la_count w" "cv_waiting (la_cond w') = cv_waiting (la_cond w)"
    "la_pc w' = (la_pc w)(t := p)" "la_pc w t = LA_down_test \<longleftrightarrow> p = LA_down_test"
  shows "la_abs w' = la_abs w"
proof -
  have "(\<exists>u. la_pc w' u = LA_down_test) \<longleftrightarrow> (\<exists>u. la_pc w u = LA_down_test)" using assms(3,4) by (metis fun_upd_apply)
  then show ?thesis using assms(1,2) by (auto simp: la_abs_def)
qed

lemma la_step_refines:
  assumes st: "la_step t w w'" and i: "la_inv w" and f: "finite (cv_waiting (la_cond w))"
  shows "la_abs w' = la_abs w \<or> latch_move (la_abs w) (la_abs w')"
proof -
  note d = la_invD [OF i]
  have b: "t \<in> cv_waiting (la_cond w) \<Longrightarrow> la_pc w t = LA_blocked" by (rule d(2))
  have only: "la_pc w u \<noteq> LA_down_test" if "inside (la_pc w t)" "la_pc w t \<noteq> LA_down_test" for u
    using inside_unique [OF i that(1), of u] that(2) by (auto simp: inside_def)
  note eq = la_abs_eqI [of w' w t]
  from st show ?thesis
  proof (cases rule: la_step.cases)
    case (wait_on m c)
    then have "t \<notin> cv_waiting (la_cond w)" using b by auto
    with wait_on have "la_abs w' = snd (latch_wait (la_abs w))"
      using f by (auto simp: la_abs_def latch_wait_def mutex_defs)
    then show ?thesis by (simp add: latch_move_def)
  next
    case spurious
    show ?thesis
    proof (cases "t \<in> cv_waiting (la_cond w)")
      case True
      have pc: "la_pc w' = (la_pc w)(t := LA_woken)" using spurious by simp
      have e: "(\<exists>u. la_pc w' u = LA_down_test) \<longleftrightarrow> (\<exists>u. la_pc w u = LA_down_test)"
        unfolding pc using spurious(2) by (metis fun_upd_apply latch_pc.distinct)
      have c: "card (cv_waiting (la_cond w')) = card (cv_waiting (la_cond w)) - 1" "la_count w' = la_count w"
        using spurious True f by (simp_all add: mutex_defs)
      have "la_abs w' = (la_abs w)\<lparr>cdl_waiting := cdl_waiting (la_abs w) - 1\<rparr>" using e c by (auto simp: la_abs_def)
      then show ?thesis by (simp add: latch_move_def)
    next
      case False
      then show ?thesis using spurious eq [of LA_woken] by (simp add: mutex_defs)
    qed
  next
    case down_dec
    then have "la_abs w' = countDown (la_abs w)"
      using only by (auto simp: la_abs_def countDown_def inside_def Let_def)
    then show ?thesis by (simp add: latch_move_def)
  next
    case down_notify
    then have "la_abs w' = la_abs w" by (auto simp: la_abs_def mutex_defs)
    then show ?thesis by simp
  next
    case down_none
    then have "la_abs w' = la_abs w" by (simp add: la_abs_def)
    then show ?thesis by simp
  next
    case wait_call
    then show ?thesis using eq [of LA_wait_lock] by simp
  next
    case (wait_lock m)
    then show ?thesis using eq [of LA_wait_test] by auto
  next
    case notified
    then show ?thesis using eq [of LA_woken] by simp
  next
    case wait_off
    then show ?thesis using eq [of LA_returned] by simp
  next
    case again
    then show ?thesis using eq [of LA_out] by simp
  next
    case down_call
    then show ?thesis using eq [of LA_down_lock] by simp
  next
    case (down_lock m)
    then show ?thesis using eq [of LA_down_dec] by simp
  next
    case down_end
    then show ?thesis using eq [of LA_out] by simp
  qed
qed

section \<open>Properties\<close>

text \<open>C27. The count-down latch over its mutex and condition, whatever the interleaving, the wake-ups without
  reason and the number of threads: one thread at a time is between lock and unlock; a \<^verbatim>\<open>wait\<close> returns only
  when the count is used up; and once it is and the last \<^verbatim>\<open>countDown\<close> has passed its test, no thread
  is left waiting on the condition.\<close>

theorem latch_sound:
  assumes "la_move\<^sup>*\<^sup>* (latch_init n) w"
  shows "(\<forall>t u. inside (la_pc w t) \<and> inside (la_pc w u) \<longrightarrow> t = u) \<and>
    (\<forall>t. la_pc w t = LA_returned \<longrightarrow> la_count w \<le> 0) \<and>
    (la_count w \<le> 0 \<and> (\<forall>t. la_pc w t \<noteq> LA_down_test) \<longrightarrow> cv_waiting (la_cond w) = {})"
proof -
  note i = la_moves_inv [OF assms latch_init_inv]
  show ?thesis using inside_unique [OF i] la_invD(3,4) [OF i] by auto
qed


text \<open>When the count is used up and the mutex is free, no thread is asleep on the condition, and every
  thread that is in \<^verbatim>\<open>wait\<close>, also one that was blocked there, returns by its own steps.\<close>

theorem latch_wait_returns:
  assumes run: "la_move\<^sup>*\<^sup>* (latch_init n) w" and "la_count w \<le> 0" "mx_owner (la_mutex w) = None"
    and t: "la_pc w t \<in> {LA_wait_lock, LA_blocked, LA_woken}"
  shows "cv_waiting (la_cond w) = {} \<and> (\<exists>w'. (la_step t)\<^sup>*\<^sup>* w w' \<and> la_pc w' t = LA_returned)"
proof -
  note i = la_moves_inv [OF run latch_init_inv]
  have "la_pc w u \<noteq> LA_down_test" for u using la_invD(1) [OF i, of u] assms(3) by (auto simp: inside_def)
  then have nw: "cv_waiting (la_cond w) = {}" using la_invD(3) [OF i] assms(2) by auto
  have "\<exists>w1. (la_step t)\<^sup>*\<^sup>* w w1 \<and> (la_pc w1 t = LA_wait_lock \<or> la_pc w1 t = LA_woken) \<and> la_mutex w1 = la_mutex w \<and>
      la_count w1 = la_count w \<and> la_cond w1 = la_cond w"
  proof (cases "la_pc w t = LA_blocked")
    case True
    then have "la_step t w (la_at t LA_woken w)" using nw by (intro la_step.notified) simp_all
    then show ?thesis by (intro exI [of _ "la_at t LA_woken w"]) auto
  next
    case False
    then show ?thesis using t by (intro exI [of _ w]) auto
  qed
  then obtain w1 where w1: "(la_step t)\<^sup>*\<^sup>* w w1" "la_pc w1 t = LA_wait_lock \<or> la_pc w1 t = LA_woken"
    "la_mutex w1 = la_mutex w" "la_count w1 = la_count w" "la_cond w1 = la_cond w" by blast
  define w2 where "w2 = la_at t LA_wait_test (w1\<lparr>la_mutex := (la_mutex w1)\<lparr>mx_owner := Some t\<rparr>\<rparr>)"
  define w3 where "w3 = la_at t LA_returned (w2\<lparr>la_mutex := MutexLockGuard_dtor (la_mutex w2)\<rparr>)"
  have "la_step t w1 w2" unfolding w2_def
    by (rule la_step.wait_lock [OF w1(2)]) (simp add: mx_lock_def w1(3) assms(3))
  moreover have "la_step t w2 w3" unfolding w3_def
    by (rule la_step.wait_off) (use assms(2) w1(4) in \<open>simp_all add: w2_def\<close>)
  ultimately have "(la_step t)\<^sup>*\<^sup>* w w3" using w1(1) by (meson rtranclp.rtrancl_into_rtrancl)
  then show ?thesis using nw by (intro conjI exI [of _ w3]) (simp_all add: w3_def)
qed

section \<open>Witnesses\<close>

text \<open>Thread 1 waits, and thread 2 counts down to zero and leaves.\<close>

definition wit_down :: "latch_world \<Rightarrow> latch_world" where
  "wit_down w = la_at 2 LA_down_test ((la_at 2 LA_down_dec ((la_at 2 LA_down_lock w)\<lparr>la_mutex := \<lparr>mx_owner = Some 2\<rparr>\<rparr>))
     \<lparr>la_count := la_count w - 1\<rparr>)"

lemma wit_down_steps:
  assumes "la_pc w 2 = LA_out" "mx_owner (la_mutex w) = None"
  shows "la_move\<^sup>*\<^sup>* w (wit_down w)"
proof -
  let ?w1 = "la_at 2 LA_down_lock w"
  let ?w2 = "la_at 2 LA_down_dec (?w1\<lparr>la_mutex := \<lparr>mx_owner = Some 2\<rparr>\<rparr>)"
  have "la_move w ?w1" unfolding la_move_def using la_step.down_call [OF assms(1)] by blast
  moreover have "la_move ?w1 ?w2" unfolding la_move_def
    using assms(2) by (intro exI [of _ 2] la_step.down_lock) (simp_all add: mutex_defs)
  moreover have "la_move ?w2 (wit_down w)" unfolding la_move_def wit_down_def
    using la_step.down_dec [of ?w2 2] by (intro exI [of _ 2]) (simp add: la_at_def)
  ultimately show ?thesis by (meson r_into_rtranclp rtranclp_trans)
qed

lemma wit_latch: "la_move\<^sup>*\<^sup>* (latch_init 1) (wit_down (latch_init 1))"
  by (rule wit_down_steps) (simp_all add: latch_init_def MutexLock_make_def)

theorem latch_sound_witness:
  "la_move\<^sup>*\<^sup>* (latch_init 1) (wit_down (latch_init 1)) \<and> {t. inside (la_pc (wit_down (latch_init 1)) t)} = {2}"
proof -
  have "inside (la_pc (wit_down (latch_init 1)) 2)" by (simp add: wit_down_def inside_def)
  then show ?thesis using latch_sound [OF wit_latch] wit_latch by auto
qed


theorem latch_wait_returns_witness:
  "cv_waiting (la_cond (la_at 1 LA_wait_lock (latch_init 0))) = {} \<and>
    (\<exists>w'. (la_step 1)\<^sup>*\<^sup>* (la_at 1 LA_wait_lock (latch_init 0)) w' \<and> la_pc w' 1 = LA_returned)"
proof (rule latch_wait_returns [of 0])
  have "la_move (latch_init 0) (la_at 1 LA_wait_lock (latch_init 0))" unfolding la_move_def
    using la_step.wait_call [of "latch_init 0" 1] by (intro exI [of _ 1]) (simp add: latch_init_def)
  then show "la_move\<^sup>*\<^sup>* (latch_init 0) (la_at 1 LA_wait_lock (latch_init 0))" by blast
qed (simp_all add: latch_init_def MutexLock_make_def)

end
