(* ===== verification/WebBench.thy ===== *)
theory WebBench
  imports Types
begin

text \<open>
  \<^verbatim>\<open>WebBench/webbench.c\<close> and \<^verbatim>\<open>socket.c\<close>, the load generator that is kept beside the servers: its
  options, the request it builds in fixed buffers, the loop of a client over a script of socket
  results, and the sums of the parent. A write past the end of a buffer, or one that leaves a
  string without its terminator, is an outcome of its own.
\<close>

section \<open>State\<close>

definition WB_GET :: int where "WB_GET = 0"
definition WB_HEAD :: int where "WB_HEAD = 1"
definition WB_OPTIONS :: int where "WB_OPTIONS = 2"
definition WB_TRACE :: int where "WB_TRACE = 3"
definition MAXHOSTNAMELEN :: nat where "MAXHOSTNAMELEN = 64"
definition REQUEST_SIZE :: nat where "REQUEST_SIZE = 2048"
definition PROGRAM_VERSION :: string where "PROGRAM_VERSION = ''1.5''"

record wb_globals =
  http10 :: int
  wb_method :: int
  clients :: int
  force :: bool
  force_reload :: bool
  proxyport :: int
  proxyhost :: "string option"
  benchtime :: int
  wb_keep_alive :: bool
  wb_host :: string
  wb_request :: string

definition wb_init :: wb_globals where
  "wb_init = \<lparr>http10 = 1, wb_method = WB_GET, clients = 1, force = False, force_reload = False, proxyport = 80,
     proxyhost = None, benchtime = 30, wb_keep_alive = False, wb_host = [], wb_request = []\<rparr>"

text \<open>The program ends with a status, corrupts memory, or goes on.\<close>

datatype 'a wb_result = WB_exit int | WB_overflow | WB_ok 'a

fun wb_bind :: "'a wb_result \<Rightarrow> ('a \<Rightarrow> 'b wb_result) \<Rightarrow> 'b wb_result" where
  "wb_bind (WB_exit n) f = WB_exit n"
| "wb_bind WB_overflow f = WB_overflow"
| "wb_bind (WB_ok x) f = f x"

section \<open>Options\<close>

text \<open>What \<^verbatim>\<open>getopt_long\<close> finds: a long option that sets a flag and yields 0, or a letter with its
  argument.\<close>

datatype wb_opt = Set_force | Set_reload | Set_method int | Opt char string

text \<open>\<^verbatim>\<open>-p server:port\<close>.\<close>

definition proxy_option :: "string \<Rightarrow> wb_globals \<Rightarrow> wb_globals wb_result" where
  "proxy_option arg g =
     (case str_rfind_char (CHR '':'') arg of
        None \<Rightarrow> WB_ok (g\<lparr>proxyhost := Some arg\<rparr>)
      | Some tmp \<Rightarrow>
          if tmp = 0 then WB_exit 2
          else if tmp = length arg - 1 then WB_exit 2
          else WB_ok (g\<lparr>proxyhost := Some (take tmp arg), proxyport := atoi (drop (tmp + 1) arg)\<rparr>))"

fun wb_option :: "wb_opt \<Rightarrow> wb_globals \<Rightarrow> wb_globals wb_result" where
  "wb_option Set_force g = WB_ok (g\<lparr>force := True\<rparr>)"
| "wb_option Set_reload g = WB_ok (g\<lparr>force_reload := True\<rparr>)"
| "wb_option (Set_method m) g = WB_ok (g\<lparr>wb_method := m\<rparr>)"
| "wb_option (Opt c arg) g =
     (if c = CHR ''f'' then WB_ok (g\<lparr>force := True\<rparr>)
      else if c = CHR ''r'' then WB_ok (g\<lparr>force_reload := True\<rparr>)
      else if c = CHR ''9'' then WB_ok (g\<lparr>http10 := 0\<rparr>)
      else if c = CHR ''1'' then WB_ok (g\<lparr>http10 := 1\<rparr>)
      else if c = CHR ''2'' then WB_ok (g\<lparr>http10 := 2\<rparr>)
      else if c = CHR ''V'' then WB_exit 0
      else if c = CHR ''t'' then WB_ok (g\<lparr>benchtime := atoi arg\<rparr>)
      else if c = CHR ''k'' then WB_ok (g\<lparr>wb_keep_alive := True\<rparr>)
      else if c = CHR ''p'' then proxy_option arg g
      else if c = CHR '':'' \<or> c = CHR ''h'' \<or> c = CHR ''?'' then WB_exit 2
      else if c = CHR ''c'' then WB_ok (g\<lparr>clients := atoi arg\<rparr>)
      else WB_ok g)"

fun wb_options :: "wb_opt list \<Rightarrow> wb_globals \<Rightarrow> wb_globals wb_result" where
  "wb_options [] g = WB_ok g"
| "wb_options (x # xs) g = wb_bind (wb_option x g) (wb_options xs)"

section \<open>The request\<close>

text \<open>\<^verbatim>\<open>strcpy\<close> and \<^verbatim>\<open>strcat\<close> into \<^verbatim>\<open>request\<close>; \<^verbatim>\<open>strncpy\<close> of \<open>n\<close> bytes into a cleared buffer.\<close>

definition req_cat :: "string \<Rightarrow> string \<Rightarrow> string wb_result" where
  "req_cat s r = (if length r + length s < REQUEST_SIZE then WB_ok (r @ s) else WB_overflow)"

fun req_cats :: "string list \<Rightarrow> string \<Rightarrow> string wb_result" where
  "req_cats [] r = WB_ok r"
| "req_cats (s # ss) r = wb_bind (req_cat s r) (req_cats ss)"

definition copy_n :: "nat \<Rightarrow> string \<Rightarrow> nat \<Rightarrow> string wb_result" where
  "copy_n sz src n = (if n < sz then WB_ok (take n src) else WB_overflow)"

text \<open>The protocol the method asks for.\<close>

definition adjust_http10 :: "wb_globals \<Rightarrow> int" where
  "adjust_http10 g =
     (let h1 = (if force_reload g \<and> proxyhost g \<noteq> None \<and> http10 g < 1 then 1 else http10 g);
          h2 = (if wb_method g = WB_HEAD \<and> h1 < 1 then 1 else h1);
          h3 = (if wb_method g = WB_OPTIONS \<and> h2 < 2 then 2 else h2)
      in if wb_method g = WB_TRACE \<and> h3 < 2 then 2 else h3)"

definition wb_method_name :: "int \<Rightarrow> string" where
  "wb_method_name m =
     (if m = WB_HEAD then ''HEAD'' else if m = WB_OPTIONS then ''OPTIONS'' else if m = WB_TRACE then ''TRACE'' else ''GET'')"

text \<open>Host, port and path of a URL without a proxy, after the \<^verbatim>\<open>://\<close>.\<close>

definition split_url :: "string \<Rightarrow> wb_globals \<Rightarrow> (wb_globals \<times> string) wb_result" where
  "split_url rest g =
     (let slash = length (takeWhile (\<lambda>c. c \<noteq> CHR ''/'') rest);
          target = drop slash rest
      in case str_find_char (CHR '':'') rest 0 of
           Some colon \<Rightarrow>
             if colon < slash then
               wb_bind (copy_n MAXHOSTNAMELEN rest colon) (\<lambda>h.
               wb_bind (copy_n 10 (drop (colon + 1) rest) (slash - colon - 1)) (\<lambda>tmp.
               let port = atoi tmp
               in WB_ok (g\<lparr>wb_host := h, proxyport := (if port = 0 then 80 else port)\<rparr>, target)))
             else wb_bind (copy_n MAXHOSTNAMELEN rest slash) (\<lambda>h. WB_ok (g\<lparr>wb_host := h\<rparr>, target))
         | None \<Rightarrow> wb_bind (copy_n MAXHOSTNAMELEN rest slash) (\<lambda>h. WB_ok (g\<lparr>wb_host := h\<rparr>, target)))"

text \<open>The lines after the request line.\<close>

definition request_tail :: "wb_globals \<Rightarrow> string list" where
  "request_tail g =
     (if http10 g = 1 then ['' HTTP/1.0''] else if http10 g = 2 then ['' HTTP/1.1''] else []) @ [CRLF] @
     (if 0 < http10 g then [''User-Agent: WebBench '' @ PROGRAM_VERSION @ CRLF] else []) @
     (if proxyhost g = None \<and> 0 < http10 g then [''Host: '', wb_host g, CRLF] else []) @
     (if force_reload g \<and> proxyhost g \<noteq> None then [''Pragma: no-cache'' @ CRLF] else []) @
     (if 1 < http10 g then [if \<not> wb_keep_alive g then ''Connection: close'' @ CRLF else ''Connection: Keep-Alive'' @ CRLF]
      else []) @
     (if 0 < http10 g then [CRLF] else [])"

definition build_request :: "string \<Rightarrow> wb_globals \<Rightarrow> wb_globals wb_result" where
  "build_request url g0 =
     (let g = g0\<lparr>http10 := adjust_http10 g0, wb_host := [], wb_request := wb_method_name (wb_method g0) @ '' ''\<rparr>
      in case str_find ''://'' url 0 of
           None \<Rightarrow> WB_exit 2
         | Some pos \<Rightarrow>
             if length url > 1500 then WB_exit 2
             else if to_lower (take 7 url) \<noteq> ''http://'' then WB_exit 2
             else
               (let rest = drop (pos + 3) url
                in if CHR ''/'' \<notin> set rest then WB_exit 2
                   else
                     wb_bind (if proxyhost g = None then split_url rest g else WB_ok (g, url)) (\<lambda>(g1, target).
                     wb_bind (req_cats (target # request_tail g1) (wb_request g1)) (\<lambda>r.
                     WB_ok (g1\<lparr>wb_request := r\<rparr>)))))"

definition wb_main :: "wb_opt list \<Rightarrow> string option \<Rightarrow> wb_globals wb_result" where
  "wb_main opts url =
     wb_bind (wb_options opts wb_init) (\<lambda>g.
     case url of
       None \<Rightarrow> WB_exit 2
     | Some u \<Rightarrow>
         (let g1 = (if clients g = 0 then g\<lparr>clients := 1\<rparr> else g);
              g2 = (if benchtime g1 = 0 then g1\<lparr>benchtime := 30\<rparr> else g1)
          in build_request u g2))"

section \<open>Connecting\<close>

text \<open>\<^verbatim>\<open>Socket\<close> with the results of the calls: the descriptor, and the one closed again.\<close>

record socket_env =
  se_addr :: bool
  se_host :: bool
  se_socket :: fd
  se_connect :: int

definition Socket :: "socket_env \<Rightarrow> fd \<times> fd list" where
  "Socket e =
     (if \<not> se_addr e \<and> \<not> se_host e then (-1, [])
      else if se_socket e < 0 then (se_socket e, [])
      else if se_connect e < 0 then (-1, [se_socket e])
      else (se_socket e, []))"

section \<open>A client\<close>

text \<open>The counters of a client with the descriptors it opened and closed, and the script of its run:
  what \<^verbatim>\<open>sigaction\<close> returns, the values of \<^verbatim>\<open>timerexpired\<close> at its tests (set when the list is used up), and the results of
  \<^verbatim>\<open>Socket\<close>, \<^verbatim>\<open>write\<close>, \<^verbatim>\<open>shutdown\<close>, \<^verbatim>\<open>read\<close> and \<^verbatim>\<open>close\<close>.\<close>

record bench_state =
  speed :: int
  failed :: int
  bytes :: int
  opened :: "fd list"
  closed :: "fd list"
  tries :: nat

record bench_script =
  bs_sigaction :: int
  bs_expired :: "bool list"
  bs_sockets :: "fd list"
  bs_writes :: "int list"
  bs_shutdowns :: "int list"
  bs_reads :: "int list"
  bs_closes :: "int list"

definition next_of :: "'a \<Rightarrow> 'a list \<Rightarrow> 'a \<times> 'a list" where
  "next_of d xs = (case xs of [] \<Rightarrow> (d, []) | x # r \<Rightarrow> (x, r))"

text \<open>Addition on \<^verbatim>\<open>int\<close>, as the processor does it.\<close>

definition add_int :: "int \<Rightarrow> int \<Rightarrow> int" where
  "add_int a b = sint (word_of_int (a + b) :: 32 word)"

definition fail :: "bench_state \<Rightarrow> bench_state" where
  "fail b = b\<lparr>failed := failed b + 1\<rparr>"

definition close_fd :: "fd \<Rightarrow> bench_state \<Rightarrow> bench_state" where
  "close_fd s b = b\<lparr>closed := closed b @ [s]\<rparr>"

text \<open>The loop that reads the answer: \<open>False\<close> when a read failed.\<close>

function read_answer :: "bench_script \<Rightarrow> bench_state \<Rightarrow> bool \<times> bench_script \<times> bench_state" where
  "read_answer sc b =
     (case bs_expired sc of
        [] \<Rightarrow> (True, sc, b)
      | e # es \<Rightarrow>
          (let sc1 = sc\<lparr>bs_expired := es\<rparr>
           in if e then (True, sc1, b)
              else
                (case next_of 0 (bs_reads sc1) of
                   (i, rs) \<Rightarrow>
                     (let sc2 = sc1\<lparr>bs_reads := rs\<rparr>
                      in if i < 0 then (False, sc2, b)
                         else if i = 0 then (True, sc2, b)
                         else read_answer sc2 (b\<lparr>bytes := add_int (bytes b) i\<rparr>)))))"
  by pat_completeness auto
termination
  by (relation "measure (\<lambda>(sc, b). length (bs_expired sc))") auto

declare read_answer.simps [simp del]

text \<open>One turn of the loop without keep-alive, once the timer has been found running: closing, reading,
  the end of an HTTP/0.9 request, writing, connecting.\<close>

definition try_close :: "fd \<Rightarrow> bench_script \<Rightarrow> bench_state \<Rightarrow> bench_script \<times> bench_state" where
  "try_close s sc b =
     (case next_of 0 (bs_closes sc) of
        (c, cs) \<Rightarrow>
          (let sc1 = sc\<lparr>bs_closes := cs\<rparr>; b1 = close_fd s b
           in if c \<noteq> 0 then (sc1, fail b1) else (sc1, b1\<lparr>speed := speed b1 + 1\<rparr>)))"

definition try_read :: "wb_globals \<Rightarrow> fd \<Rightarrow> bench_script \<Rightarrow> bench_state \<Rightarrow> bench_script \<times> bench_state" where
  "try_read g s sc b =
     (if \<not> force g then
        (case read_answer sc b of
           (ok, sc1, b1) \<Rightarrow> if \<not> ok then (sc1, close_fd s (fail b1)) else try_close s sc1 b1)
      else try_close s sc b)"

definition try_shutdown :: "wb_globals \<Rightarrow> fd \<Rightarrow> bench_script \<Rightarrow> bench_state \<Rightarrow> bench_script \<times> bench_state" where
  "try_shutdown g s sc b =
     (if http10 g = 0 then
        (case next_of 0 (bs_shutdowns sc) of
           (r, rs) \<Rightarrow>
             (let sc1 = sc\<lparr>bs_shutdowns := rs\<rparr>
              in if r \<noteq> 0 then (sc1, close_fd s (fail b)) else try_read g s sc1 b))
      else try_read g s sc b)"

definition try_write :: "wb_globals \<Rightarrow> fd \<Rightarrow> bench_script \<Rightarrow> bench_state \<Rightarrow> bench_script \<times> bench_state" where
  "try_write g s sc b =
     (let rlen = int (length (wb_request g))
      in case next_of rlen (bs_writes sc) of
           (n, ws) \<Rightarrow>
             (let sc1 = sc\<lparr>bs_writes := ws\<rparr>
              in if n \<noteq> rlen then (sc1, close_fd s (fail b)) else try_shutdown g s sc1 b))"

definition bench_try :: "wb_globals \<Rightarrow> bench_script \<Rightarrow> bench_state \<Rightarrow> bench_script \<times> bench_state" where
  "bench_try g sc b =
     (case next_of (-1) (bs_sockets sc) of
        (s, ss) \<Rightarrow>
          (let sc1 = sc\<lparr>bs_sockets := ss\<rparr>; b1 = b\<lparr>tries := tries b + 1\<rparr>
           in if s < 0 then (sc1, fail b1) else try_write g s sc1 (b1\<lparr>opened := opened b1 @ [s]\<rparr>)))"

lemma bytes_same: "\<exists>n. b = b\<lparr>bytes := n\<rparr>" for b :: bench_state
  by (rule exI [of _ "bytes b"]) simp

lemma read_answer_spec:
  "read_answer sc b = (ok, sc', b') \<Longrightarrow> length (bs_expired sc') \<le> length (bs_expired sc) \<and> (\<exists>n. b' = b\<lparr>bytes := n\<rparr>)"
proof (induction "bs_expired sc" arbitrary: sc b)
  case Nil
  then have "b' = b" "sc' = sc" by (auto simp: read_answer.simps [of sc])
  then show ?case using bytes_same by simp
next
  case (Cons e es)
  define sc1 where "sc1 = sc\<lparr>bs_expired := es\<rparr>"
  obtain i rs where i: "next_of 0 (bs_reads sc1) = (i, rs)" by (metis surj_pair)
  have r: "read_answer sc b = (if e then (True, sc1, b) else if i < 0 then (False, sc1\<lparr>bs_reads := rs\<rparr>, b)
      else if i = 0 then (True, sc1\<lparr>bs_reads := rs\<rparr>, b)
      else read_answer (sc1\<lparr>bs_reads := rs\<rparr>) (b\<lparr>bytes := add_int (bytes b) i\<rparr>))"
    using i by (subst read_answer.simps) (simp add: Cons.hyps(2) [symmetric] sc1_def)
  show ?case
  proof (cases "e \<or> i \<le> 0")
    case True
    then have "b' = b" "bs_expired sc' = es" using r Cons.prems by (auto simp: sc1_def split: if_splits)
    then show ?thesis using bytes_same [of b] Cons.hyps(2) [symmetric] by simp
  next
    case False
    then have "read_answer (sc1\<lparr>bs_reads := rs\<rparr>) (b\<lparr>bytes := add_int (bytes b) i\<rparr>) = (ok, sc', b')"
      using r Cons.prems by simp
    from Cons.hyps(1) [OF _ this] show ?thesis using Cons.hyps(2) [symmetric] by (auto simp: sc1_def)
  qed
qed

text \<open>With an open descriptor a turn counts one success or one failure and closes the descriptor.\<close>

definition ends_ok :: "fd \<Rightarrow> bench_script \<Rightarrow> bench_state \<Rightarrow> bench_script \<times> bench_state \<Rightarrow> bool" where
  "ends_ok s sc b r \<longleftrightarrow> length (bs_expired (fst r)) \<le> length (bs_expired sc) \<and> tries (snd r) = tries b \<and>
     speed (snd r) + failed (snd r) = speed b + failed b + 1 \<and> failed b \<le> failed (snd r) \<and>
     opened (snd r) = opened b \<and> closed (snd r) = closed b @ [s]"

lemma try_close_ok: "ends_ok s sc b (try_close s sc b)"
  by (simp add: ends_ok_def try_close_def fail_def close_fd_def Let_def split: prod.split)

lemma fail_close_ok: "length (bs_expired sc') \<le> length (bs_expired sc) \<Longrightarrow> ends_ok s sc b (sc', close_fd s (fail b))"
  by (simp add: ends_ok_def fail_def close_fd_def)

lemma try_read_ok: "ends_ok s sc b (try_read g s sc b)"
proof -
  obtain ok sc1 b1 where r: "read_answer sc b = (ok, sc1, b1)" by (metis surj_pair)
  obtain n where n: "length (bs_expired sc1) \<le> length (bs_expired sc)" "b1 = b\<lparr>bytes := n\<rparr>"
    using read_answer_spec [OF r] by blast
  show ?thesis
    using try_close_ok [of s sc1 b1] try_close_ok [of s sc b] fail_close_ok [OF n(1), of s b1] n
    by (auto simp: try_read_def r ends_ok_def)
qed

lemma try_shutdown_ok: "ends_ok s sc b (try_shutdown g s sc b)"
  using try_read_ok [of s sc b g] try_read_ok [of s "sc\<lparr>bs_shutdowns := rs\<rparr>" b g for rs]
  by (auto simp: try_shutdown_def Let_def ends_ok_def fail_def close_fd_def split: prod.split)

lemma try_write_ok: "ends_ok s sc b (try_write g s sc b)"
  using try_shutdown_ok [of s "sc\<lparr>bs_writes := ws\<rparr>" b g for ws]
  by (auto simp: try_write_def Let_def ends_ok_def fail_def close_fd_def split: prod.split)

definition turn_ok :: "bench_script \<Rightarrow> bench_state \<Rightarrow> bench_script \<times> bench_state \<Rightarrow> bool" where
  "turn_ok sc b r \<longleftrightarrow> length (bs_expired (fst r)) \<le> length (bs_expired sc) \<and> tries (snd r) = tries b + 1 \<and>
     speed (snd r) + failed (snd r) = speed b + failed b + 1 \<and> failed b \<le> failed (snd r) \<and>
     (\<exists>new. opened (snd r) = opened b @ new \<and> closed (snd r) = closed b @ new)"

lemma bench_try_ok: "turn_ok sc b (bench_try g sc b)"
proof -
  obtain s ss where s: "next_of (-1) (bs_sockets sc) = (s, ss)" by (metis surj_pair)
  show ?thesis
    using try_write_ok [of s "sc\<lparr>bs_sockets := ss\<rparr>" "b\<lparr>tries := tries b + 1, opened := opened b @ [s]\<rparr>" g]
    by (auto simp: turn_ok_def ends_ok_def bench_try_def s Let_def fail_def)
qed

text \<open>The end of \<^verbatim>\<open>benchcore\<close>: a failure caused by the alarm is taken back.\<close>

definition bench_done :: "bench_state \<Rightarrow> bench_state" where
  "bench_done b = (if 0 < failed b then b\<lparr>failed := failed b - 1\<rparr> else b)"

function bench_loop :: "wb_globals \<Rightarrow> bench_script \<Rightarrow> bench_state \<Rightarrow> bench_state" where
  "bench_loop g sc b =
     (case bs_expired sc of
        [] \<Rightarrow> bench_done b
      | e # es \<Rightarrow>
          if e then bench_done b
          else (case bench_try g (sc\<lparr>bs_expired := es\<rparr>) b of (sc', b') \<Rightarrow> bench_loop g sc' b'))"
  by pat_completeness auto
termination
proof (relation "measure (\<lambda>(g, sc, b). length (bs_expired sc))", goal_cases)
  case 1
  show ?case by simp
next
  case (2 g sc b e es sc' b')
  then show ?case using bench_try_ok [of "sc\<lparr>bs_expired := es\<rparr>" b g] by (cases "bench_try g (sc\<lparr>bs_expired := es\<rparr>) b") (simp add: turn_ok_def)
qed

declare bench_loop.simps [simp del]

text \<open>With keep-alive: connecting until it succeeds (\<open>None\<close> when it never does), the single read of an
  answer, and the loop, which goes on with the descriptor it has.\<close>

fun connect_loop :: "fd list \<Rightarrow> (fd \<times> fd list) option" where
  "connect_loop [] = None"
| "connect_loop (s # ss) = (if s = -1 then connect_loop ss else Some (s, ss))"

definition keep_read :: "bench_script \<Rightarrow> bench_state \<Rightarrow> bool \<times> bench_script \<times> bench_state" where
  "keep_read sc b =
     (case next_of True (bs_expired sc) of
        (e, es) \<Rightarrow>
          (let sc1 = sc\<lparr>bs_expired := es\<rparr>
           in if e then (True, sc1, b)
              else
                (case next_of 0 (bs_reads sc1) of
                   (i, rs) \<Rightarrow>
                     (let sc2 = sc1\<lparr>bs_reads := rs\<rparr>
                      in if i < 0 then (False, sc2, b)
                         else if i = 0 then (True, sc2, b)
                         else (True, sc2, b\<lparr>bytes := add_int (bytes b) i\<rparr>)))))"

definition keep_try :: "wb_globals \<Rightarrow> fd \<Rightarrow> bench_script \<Rightarrow> bench_state \<Rightarrow> (fd \<times> bench_script \<times> bench_state) option" where
  "keep_try g s sc b0 =
     (let rlen = int (length (wb_request g)); b = b0\<lparr>tries := tries b0 + 1\<rparr>
      in if s < 0 then Some (s, sc, fail b)
         else
           (let (n, ws) = next_of rlen (bs_writes sc);
                sc1 = sc\<lparr>bs_writes := ws\<rparr>
            in if n \<noteq> rlen then
                 (case connect_loop (bs_sockets sc1) of
                    None \<Rightarrow> None
                  | Some (s', ss) \<Rightarrow>
                      (let b1 = close_fd s (fail b)
                       in Some (s', sc1\<lparr>bs_sockets := ss\<rparr>, b1\<lparr>opened := opened b1 @ [s']\<rparr>)))
               else
                 (let (ok, sc2, b1) = (if \<not> force g then keep_read sc1 b else (True, sc1, b))
                  in if \<not> ok then Some (s, sc2, close_fd s (fail b1))
                     else Some (s, sc2, b1\<lparr>speed := speed b1 + 1\<rparr>))))"

lemma keep_read_expired: "length (bs_expired (fst (snd (keep_read sc b)))) \<le> length (bs_expired sc)"
  by (cases "bs_expired sc") (simp_all add: keep_read_def next_of_def Let_def split: prod.split list.split)

lemma keep_try_expired:
  assumes "keep_try g s sc b = Some (s', sc', b')"
  shows "length (bs_expired sc') \<le> length (bs_expired sc)"
proof -
  have "length (bs_expired (fst (snd (keep_read (sc\<lparr>bs_writes := ws\<rparr>) b1)))) \<le> length (bs_expired sc)" for ws b1
    using keep_read_expired [of "sc\<lparr>bs_writes := ws\<rparr>" b1] by simp
  then show ?thesis
    using assms
    by (auto simp: keep_try_def Let_def split: prod.splits if_splits option.splits)
      (metis fst_conv snd_conv)+
qed

function keep_loop :: "wb_globals \<Rightarrow> fd \<Rightarrow> bench_script \<Rightarrow> bench_state \<Rightarrow> bench_state option" where
  "keep_loop g s sc b =
     (case bs_expired sc of
        [] \<Rightarrow> Some (bench_done b)
      | e # es \<Rightarrow>
          if e then Some (bench_done b)
          else
            (case keep_try g s (sc\<lparr>bs_expired := es\<rparr>) b of
               None \<Rightarrow> None
             | Some (s', sc', b') \<Rightarrow> keep_loop g s' sc' b'))"
  by pat_completeness auto
termination
proof (relation "measure (\<lambda>(g, s, sc, b). length (bs_expired sc))", goal_cases)
  case 1
  show ?case by simp
next
  case (2 g s sc b e es r s' r' sc' b')
  then show ?case using keep_try_expired [of g s "sc\<lparr>bs_expired := es\<rparr>" b s' sc' b'] by (cases r) auto
qed

declare keep_loop.simps [simp del]

definition bench_start :: bench_state where
  "bench_start = \<lparr>speed = 0, failed = 0, bytes = 0, opened = [], closed = [], tries = 0\<rparr>"

text \<open>The process ends, does not return, or returns with its counters.\<close>

datatype bench_result = Bench_exit int | Bench_hangs | Bench_done bench_state

definition bench_result_of :: "bench_state option \<Rightarrow> bench_result" where
  "bench_result_of r = (case r of None \<Rightarrow> Bench_hangs | Some b \<Rightarrow> Bench_done b)"

definition benchcore :: "wb_globals \<Rightarrow> bench_script \<Rightarrow> bench_result" where
  "benchcore g sc =
     (if bs_sigaction sc \<noteq> 0 then Bench_exit 3
      else if wb_keep_alive g then
        (case connect_loop (bs_sockets sc) of
           None \<Rightarrow> Bench_hangs
         | Some (s, ss) \<Rightarrow> bench_result_of (keep_loop g s (sc\<lparr>bs_sockets := ss\<rparr>) (bench_start\<lparr>opened := [s]\<rparr>)))
      else Bench_done (bench_loop g sc bench_start))"

section \<open>The parent\<close>

text \<open>The fork loop: the last process number.\<close>

fun fork_loop :: "nat \<Rightarrow> int list \<Rightarrow> int \<Rightarrow> int" where
  "fork_loop 0 pids pid = pid"
| "fork_loop (Suc n) pids pid = (case next_of 1 pids of (p, ps) \<Rightarrow> if p \<le> 0 then p else fork_loop n ps p)"

text \<open>The sums over what \<^verbatim>\<open>fscanf\<close> reads from the pipe: how many numbers, and the numbers. The
  result has the sums, the number of clients left and the variable \<^verbatim>\<open>i\<close>.\<close>

type_synonym wb_sums = "int \<times> int \<times> int"

fun collect :: "(int \<times> wb_sums) list \<Rightarrow> int \<Rightarrow> int \<Rightarrow> wb_sums \<Rightarrow> wb_sums \<times> int \<times> int" where
  "collect [] cl i0 acc = (acc, cl, i0)"
| "collect ((n, (i, j, k)) # rs) cl i0 acc =
     (if n < 2 then (acc, cl, if 1 \<le> n then i else i0)
      else
        (case acc of
           (sp, fl, by) \<Rightarrow>
             (let acc' = (add_int sp i, add_int fl j, add_int by k)
              in if cl - 1 = 0 then (acc', cl - 1, i) else collect rs (cl - 1) i acc')))"

datatype wb_report = No_report | Child_report wb_sums | Totals wb_sums

record bench_env =
  be_probe :: socket_env
  be_pipe :: int
  be_forks :: "int list"
  be_fdopen :: bool
  be_results :: "(int \<times> wb_sums) list"
  be_script :: bench_script

text \<open>\<^verbatim>\<open>bench\<close>: its return value and what it reports; \<open>None\<close> when a client never returns.\<close>

definition bench :: "bench_env \<Rightarrow> wb_globals \<Rightarrow> (int \<times> wb_report) option" where
  "bench e g =
     (if fst (Socket (be_probe e)) < 0 then Some (1, No_report)
      else if be_pipe e \<noteq> 0 then Some (3, No_report)
      else
        (let pid = fork_loop (nat (clients g)) (be_forks e) 0
         in if pid < 0 then Some (3, No_report)
            else if pid = 0 then
              (case benchcore g (be_script e) of
                 Bench_hangs \<Rightarrow> None
               | Bench_exit n \<Rightarrow> Some (n, No_report)
               | Bench_done b \<Rightarrow>
                   if \<not> be_fdopen e then Some (3, No_report)
                   else Some (0, Child_report (speed b, failed b, bytes b)))
            else if \<not> be_fdopen e then Some (3, No_report)
            else (case collect (be_results e) (clients g) (clients g) (0, 0, 0) of
                    (acc, cl, i) \<Rightarrow> Some (i, Totals acc))))"

text \<open>The rest of \<^verbatim>\<open>main\<close>: the status of the process; \<open>None\<close> when it does not end.\<close>

definition webbench :: "bench_env \<Rightarrow> wb_opt list \<Rightarrow> string option \<Rightarrow> int wb_result option" where
  "webbench e opts url =
     (case wb_main opts url of
        WB_exit n \<Rightarrow> Some (WB_exit n)
      | WB_overflow \<Rightarrow> Some WB_overflow
      | WB_ok g \<Rightarrow> (case bench e g of None \<Rightarrow> None | Some (st, rep) \<Rightarrow> Some (WB_exit st)))"

end
