(* ===== verification/WebBenchSpec.thy ===== *)
theory WebBenchSpec
  imports WebBench HttpDataSpec HttpParser
begin

text \<open>
  What the load generator does: its request fits its buffer when the names in the URL fit theirs,
  both servers understand it, and the counters of a client account for every connection it has
  opened and closed.
\<close>

section \<open>The request fits its buffer\<close>

lemma req_cats_ok: "length r + length (concat ss) < REQUEST_SIZE \<Longrightarrow> req_cats ss r = WB_ok (r @ concat ss)"
  by (induction ss arbitrary: r) (simp_all add: req_cat_def)

text \<open>The name of the host and the port in what follows the \<^verbatim>\<open>://\<close>.\<close>

definition authority :: "string \<Rightarrow> string" where
  "authority rest = takeWhile (\<lambda>c. c \<noteq> CHR ''/'') rest"

definition host_part :: "string \<Rightarrow> string" where
  "host_part rest = takeWhile (\<lambda>c. c \<noteq> CHR '':'') (authority rest)"

definition port_part :: "string \<Rightarrow> string" where
  "port_part rest = drop (length (host_part rest) + 1) (authority rest)"

definition names_fit :: "string \<Rightarrow> bool" where
  "names_fit rest = (length (host_part rest) < MAXHOSTNAMELEN \<and> length (port_part rest) < 10)"

lemma take_takeWhile_len: "take (length (takeWhile P xs)) xs = takeWhile P xs"
  by (induction xs) auto

lemma no_colon:
  assumes "CHR '':'' \<notin> set (authority rest)"
  shows "host_part rest = authority rest"
    "str_find_char (CHR '':'') rest 0 = Some k \<Longrightarrow> \<not> k < length (authority rest)"
proof -
  show "host_part rest = authority rest" using assms by (auto simp: host_part_def takeWhile_eq_all_conv)
  assume f: "str_find_char (CHR '':'') rest 0 = Some k"
  show "\<not> k < length (authority rest)"
  proof
    assume k: "k < length (authority rest)"
    moreover have "rest ! k = CHR '':''" using str_find_char_SomeD [OF f] by auto
    ultimately have "authority rest ! k = CHR '':''" unfolding authority_def by (metis takeWhile_nth)
    with k assms show False by (metis nth_mem)
  qed
qed

lemma colon:
  assumes "CHR '':'' \<in> set (authority rest)"
  shows "str_find_char (CHR '':'') rest 0 = Some (length (host_part rest))"
    "length (authority rest) = length (host_part rest) + 1 + length (port_part rest)"
    "take (length (host_part rest)) rest = host_part rest"
    "take (length (port_part rest)) (drop (length (host_part rest) + 1) rest) = port_part rest"
proof -
  define h where "h = host_part rest"
  obtain q where q: "authority rest = h @ CHR '':'' # q" "CHR '':'' \<notin> set h"
    using split_list_first [OF assms] by (auto simp: h_def host_part_def takeWhile_append)
  obtain z where z: "rest = authority rest @ z" unfolding authority_def by (metis takeWhile_dropWhile_id)
  have r: "rest = h @ CHR '':'' # q @ z" using z q(1) by simp
  have pp: "port_part rest = q" using q by (simp add: port_part_def h_def [symmetric])
  have "str_find_char (CHR '':'') (h @ CHR '':'' # q @ z) 0 = Some (length h)"
    by (rule str_find_char_prefix [OF q(2)])
  then show "str_find_char (CHR '':'') rest 0 = Some (length (host_part rest))" unfolding h_def [symmetric] using r by simp
  show "length (authority rest) = length (host_part rest) + 1 + length (port_part rest)"
    "take (length (host_part rest)) rest = host_part rest"
    "take (length (port_part rest)) (drop (length (host_part rest) + 1) rest) = port_part rest"
    unfolding h_def [symmetric] pp using q(1) by simp (simp_all add: r)
qed

text \<open>What the split yields, and that it runs over a buffer exactly when a name does not fit.\<close>

definition url_parts :: "string \<Rightarrow> wb_globals \<Rightarrow> wb_globals" where
  "url_parts rest g = g\<lparr>wb_host := host_part rest,
     proxyport := (if CHR '':'' \<in> set (authority rest)
                   then (if atoi (port_part rest) = 0 then 80 else atoi (port_part rest)) else proxyport g)\<rparr>"

lemma split_url_cases:
  "split_url rest g =
     (if names_fit rest then WB_ok (url_parts rest g, drop (length (authority rest)) rest) else WB_overflow)"
proof (cases "CHR '':'' \<in> set (authority rest)")
  case True
  note c = colon [OF True]
  have "copy_n MAXHOSTNAMELEN rest (length (host_part rest)) =
      (if length (host_part rest) < MAXHOSTNAMELEN then WB_ok (host_part rest) else WB_overflow)"
    "copy_n 10 (drop (length (host_part rest) + 1) rest) (length (authority rest) - length (host_part rest) - 1) =
      (if length (port_part rest) < 10 then WB_ok (port_part rest) else WB_overflow)"
    using c(2-4) by (simp_all add: copy_n_def)
  then show ?thesis
    using c(1,2) True
    by (simp add: split_url_def Let_def authority_def [symmetric] names_fit_def url_parts_def)
next
  case False
  note n = no_colon [OF False]
  have p: "port_part rest = []" by (simp add: port_part_def n(1))
  have c: "copy_n MAXHOSTNAMELEN rest (length (authority rest)) =
      (if names_fit rest then WB_ok (authority rest) else WB_overflow)"
    using n(1) p by (simp add: names_fit_def copy_n_def) (simp add: authority_def take_takeWhile_len)
  then show ?thesis
    using False n by (auto simp: split_url_def Let_def authority_def [symmetric] url_parts_def split: option.split)
qed

lemma split_url_eq:
  "names_fit rest \<Longrightarrow> split_url rest g = WB_ok (url_parts rest g, drop (length (authority rest)) rest)"
  by (simp add: split_url_cases)

lemma request_tail_length:
  "length (concat (request_tail g)) \<le> 91 + (if proxyhost g = None then length (wb_host g) else 0)"
  by (auto simp: request_tail_def PROGRAM_VERSION_def CRLF_def)

lemma method_name_length: "length (wb_method_name m) \<le> 7"
  by (simp add: wb_method_name_def)

definition url_rest :: "string \<Rightarrow> string" where
  "url_rest url = drop (the (str_find ''://'' url 0) + 3) url"

text \<open>A URL that passes the checks of \<^verbatim>\<open>build_request\<close>.\<close>

definition url_ok :: "string \<Rightarrow> bool" where
  "url_ok url \<longleftrightarrow> str_find ''://'' url 0 \<noteq> None \<and> length url \<le> 1500 \<and> to_lower (take 7 url) = ''http://'' \<and>
     CHR ''/'' \<in> set (url_rest url)"

definition prepared :: "wb_globals \<Rightarrow> wb_globals" where
  "prepared g = g\<lparr>http10 := adjust_http10 g, wb_host := [], wb_request := wb_method_name (wb_method g) @ '' ''\<rparr>"

lemma build_request_exit: "\<not> url_ok url \<Longrightarrow> build_request url g = WB_exit 2"
  by (auto simp: build_request_def url_ok_def url_rest_def Let_def split: option.split)

lemma build_request_eq:
  assumes "url_ok url" "(if proxyhost g = None then split_url (url_rest url) (prepared g) else WB_ok (prepared g, url)) = WB_ok (g1, target)"
    "length (wb_request g1) + length target + length (concat (request_tail g1)) < REQUEST_SIZE"
  shows "build_request url g = WB_ok (g1\<lparr>wb_request := wb_request g1 @ target @ concat (request_tail g1)\<rparr>)"
proof -
  obtain pos where pos: "str_find ''://'' url 0 = Some pos" "url_rest url = drop (pos + 3) url"
    using assms(1) by (auto simp: url_ok_def url_rest_def)
  have "req_cats (target # request_tail g1) (wb_request g1) = WB_ok (wb_request g1 @ target @ concat (request_tail g1))"
    using req_cats_ok [of "wb_request g1" "target # request_tail g1"] assms(3) by simp
  moreover have "proxyhost (prepared g) = proxyhost g" by (simp add: prepared_def)
  ultimately show ?thesis
    using assms(1,2) pos
    by (cases "proxyhost g")
      (simp_all add: build_request_def url_ok_def Let_def prepared_def [symmetric] del: req_cats.simps)
qed

lemma build_request_fits_lemma:
  assumes "proxyhost g = None \<Longrightarrow> names_fit (url_rest url)"
  shows "build_request url g = WB_exit 2 \<or> (\<exists>g'. build_request url g = WB_ok g' \<and> length (wb_request g') < REQUEST_SIZE)"
proof (cases "url_ok url")
  case True
  then have len: "length url \<le> 1500" by (simp add: url_ok_def)
  have "\<exists>g1 target. (if proxyhost g = None then split_url (url_rest url) (prepared g) else WB_ok (prepared g, url)) = WB_ok (g1, target) \<and>
      wb_request g1 = wb_method_name (wb_method g) @ '' '' \<and> length target \<le> length url \<and> length (wb_host g1) < MAXHOSTNAMELEN"
  proof (cases "proxyhost g")
    case None
    then show ?thesis
      using split_url_eq [OF assms [OF None], of "prepared g"] assms [OF None]
      by (simp add: prepared_def names_fit_def url_rest_def url_parts_def)
  qed (simp add: prepared_def MAXHOSTNAMELEN_def)
  then obtain g1 target where g1: "(if proxyhost g = None then split_url (url_rest url) (prepared g) else WB_ok (prepared g, url)) = WB_ok (g1, target)"
    "wb_request g1 = wb_method_name (wb_method g) @ '' ''" "length target \<le> length url" "length (wb_host g1) < MAXHOSTNAMELEN"
    by blast
  have "length (wb_request g1) + length target + length (concat (request_tail g1)) < REQUEST_SIZE"
    using request_tail_length [of g1] method_name_length [of "wb_method g"] g1(2-4) len
    by (auto simp: REQUEST_SIZE_def MAXHOSTNAMELEN_def split: if_splits)
  from build_request_eq [OF True g1(1) this] this show ?thesis by simp
qed (simp add: build_request_exit)

text \<open>C21. Building the request writes past the end of a buffer exactly when there is no proxy and the
  URL, though it passes every check, has a host name of 64 bytes or more or a port of ten or more;
  no choice of the options and no other URL of the accepted length overruns the 2048 bytes of the
  request.\<close>

theorem build_request_overflow_iff:
  "build_request url g = WB_overflow \<longleftrightarrow> url_ok url \<and> proxyhost g = None \<and> \<not> names_fit (url_rest url)"
proof (cases "url_ok url \<and> proxyhost g = None \<and> \<not> names_fit (url_rest url)")
  case True
  then obtain pos where pos: "str_find ''://'' url 0 = Some pos" "url_rest url = drop (pos + 3) url"
    by (auto simp: url_ok_def url_rest_def)
  have "split_url (url_rest url) g' = WB_overflow" for g' using True by (simp add: split_url_cases)
  then have "build_request url g = WB_overflow"
    using True pos by (simp add: build_request_def url_ok_def Let_def)
  with True show ?thesis by simp
next
  case False
  then show ?thesis using build_request_exit [of url g] build_request_fits_lemma [of g url] by auto
qed

section \<open>What the program runs with\<close>

lemma wb_bind_ok: "wb_bind m f = WB_ok x \<longleftrightarrow> (\<exists>y. m = WB_ok y \<and> f y = WB_ok x)"
  by (cases m) simp_all

lemma req_cats_okD: "req_cats ss r = WB_ok r' \<Longrightarrow> r' = r @ concat ss \<and> (ss \<noteq> [] \<longrightarrow> length r' < REQUEST_SIZE)"
proof (induction ss arbitrary: r)
  case (Cons s ss)
  then have "length r + length s < REQUEST_SIZE" "req_cats ss (r @ s) = WB_ok r'"
    by (auto simp: wb_bind_ok req_cat_def split: if_splits)
  with Cons.IH [OF this(2)] show ?case by (cases ss) auto
qed simp

lemma build_request_okD:
  assumes "build_request url g = WB_ok g'"
  obtains g1 target where
    "g1 = prepared g \<or> g1 = url_parts (url_rest url) (prepared g) \<and> names_fit (url_rest url)"
    "g' = g1\<lparr>wb_request := wb_request g1 @ target @ concat (request_tail g1)\<rparr>" "length (wb_request g') < REQUEST_SIZE"
proof -
  have u: "url_ok url" using build_request_exit [of url g] assms by auto
  then obtain pos where pos: "str_find ''://'' url 0 = Some pos" "url_rest url = drop (pos + 3) url"
    by (auto simp: url_ok_def url_rest_def)
  have "\<exists>g1 target r. (if proxyhost g = None then split_url (url_rest url) (prepared g) else WB_ok (prepared g, url)) = WB_ok (g1, target) \<and>
      req_cats (target # request_tail g1) (wb_request g1) = WB_ok r \<and> g' = g1\<lparr>wb_request := r\<rparr>"
    using assms u pos
    by (auto simp: build_request_def Let_def url_ok_def wb_bind_ok prepared_def simp del: req_cats.simps split: if_splits)
  then obtain g1 target r where r: "(if proxyhost g = None then split_url (url_rest url) (prepared g) else WB_ok (prepared g, url)) = WB_ok (g1, target)"
    "req_cats (target # request_tail g1) (wb_request g1) = WB_ok r" "g' = g1\<lparr>wb_request := r\<rparr>" by blast
  have "g1 = prepared g \<or> g1 = url_parts (url_rest url) (prepared g) \<and> names_fit (url_rest url)"
    using r(1) by (auto simp: split_url_cases split: if_splits)
  then show ?thesis using that [of g1 target] req_cats_okD [OF r(2)] r(3) by auto
qed

text \<open>The options as \<^verbatim>\<open>getopt_long\<close> can yield them, and the globals they leave.\<close>

definition opt_ok :: "wb_opt \<Rightarrow> bool" where
  "opt_ok o' \<longleftrightarrow> (case o' of Set_method m \<Rightarrow> m \<in> {WB_GET, WB_HEAD, WB_OPTIONS, WB_TRACE} | _ \<Rightarrow> True)"

definition wb_typed :: "wb_globals \<Rightarrow> bool" where
  "wb_typed g \<longleftrightarrow> http10 g \<in> {0, 1, 2} \<and> wb_method g \<in> {WB_GET, WB_HEAD, WB_OPTIONS, WB_TRACE}"

lemma wb_option_typed: "wb_typed g \<Longrightarrow> opt_ok o' \<Longrightarrow> wb_option o' g = WB_ok g' \<Longrightarrow> wb_typed g'"
  by (cases o') (auto simp: wb_typed_def opt_ok_def proxy_option_def split: if_splits option.splits)

lemma wb_options_typed: "wb_typed g \<Longrightarrow> list_all opt_ok os \<Longrightarrow> wb_options os g = WB_ok g' \<Longrightarrow> wb_typed g'"
proof (induction os arbitrary: g)
  case (Cons o' os)
  then obtain g1 where "wb_option o' g = WB_ok g1" "wb_options os g1 = WB_ok g'" by (auto simp: wb_bind_ok)
  then show ?case using Cons.IH [of g1] Cons.prems wb_option_typed by auto
qed simp

lemma request_tail_end: "\<exists>x. concat (request_tail g) = x @ CRLF"
  by (auto simp: request_tail_def)

text \<open>C39. Whatever the command line, a run that gets past its set-up is well formed: the version and the
  method are among those the program knows, a HEAD request has at least version 1.0, and an OPTIONS or
  TRACE request 1.1, there is a client and a time to run, and the request is a method and a space,
  ends with a line break, and fits its buffer with its terminator.\<close>

theorem wb_main_well_formed:
  assumes "wb_main opts url = WB_ok g" "list_all opt_ok opts"
  shows "wb_typed g \<and> (wb_method g = WB_HEAD \<longrightarrow> 1 \<le> http10 g) \<and> (wb_method g \<in> {WB_OPTIONS, WB_TRACE} \<longrightarrow> http10 g = 2) \<and>
    clients g \<noteq> 0 \<and> benchtime g \<noteq> 0 \<and>
    (\<exists>mid. wb_request g = wb_method_name (wb_method g) @ '' '' @ mid @ CRLF) \<and> length (wb_request g) < REQUEST_SIZE"
proof -
  obtain g0 u where g0: "wb_options opts wb_init = WB_ok g0" "url = Some u"
    using assms(1) by (auto simp: wb_main_def wb_bind_ok split: option.splits)
  define ga where "ga = (if clients g0 = 0 then g0\<lparr>clients := 1\<rparr> else g0)"
  define gb where "gb = (if benchtime ga = 0 then ga\<lparr>benchtime := 30\<rparr> else ga)"
  have b: "build_request u gb = WB_ok g" using assms(1) g0 by (simp add: wb_main_def Let_def gb_def ga_def split: if_splits)
  have "wb_typed wb_init" by (simp add: wb_typed_def wb_init_def)
  from wb_options_typed [OF this assms(2) g0(1)] have t: "wb_typed gb" "clients gb \<noteq> 0" "benchtime gb \<noteq> 0"
    by (auto simp: gb_def ga_def wb_typed_def)
  obtain g1 target where g1: "g1 = prepared gb \<or> g1 = url_parts (url_rest u) (prepared gb) \<and> names_fit (url_rest u)"
    "g = g1\<lparr>wb_request := wb_request g1 @ target @ concat (request_tail g1)\<rparr>" "length (wb_request g) < REQUEST_SIZE"
    using build_request_okD [OF b] .
  have p: "wb_method g1 = wb_method gb" "http10 g1 = adjust_http10 gb" "clients g1 = clients gb" "benchtime g1 = benchtime gb"
    "wb_request g1 = wb_method_name (wb_method gb) @ '' ''"
    using g1(1) by (auto simp: prepared_def url_parts_def)
  have v: "adjust_http10 gb \<in> {0, 1, 2}" "wb_method gb = WB_HEAD \<longrightarrow> 1 \<le> adjust_http10 gb"
    "wb_method gb \<in> {WB_OPTIONS, WB_TRACE} \<longrightarrow> adjust_http10 gb = 2"
    using t(1) by (auto simp: adjust_http10_def Let_def wb_typed_def WB_HEAD_def WB_OPTIONS_def WB_TRACE_def)
  obtain x where "concat (request_tail g1) = x @ CRLF" using request_tail_end by blast
  then have "\<exists>mid. wb_request g = wb_method_name (wb_method g) @ '' '' @ mid @ CRLF"
    using g1(2) p(1,5) by (intro exI [of _ "target @ x"]) simp
  then show ?thesis using t v p g1(2,3) by (simp add: wb_typed_def)
qed

section \<open>Both servers understand the request\<close>

text \<open>What the generator sends for a page of a host: a method, a protocol version and the headers.\<close>

definition page_url :: "string \<Rightarrow> string \<Rightarrow> string" where
  "page_url a p = ''http://'' @ a @ ''/'' @ p"

definition wb_version :: "wb_globals \<Rightarrow> HttpVersion" where
  "wb_version g = (if adjust_http10 g = 2 then HTTP_11 else HTTP_10)"

definition wb_headers :: "wb_globals \<Rightarrow> string \<Rightarrow> (string \<times> string) list" where
  "wb_headers g h = [(''User-Agent'', ''WebBench 1.5''), (''Host'', h)] @
     (if adjust_http10 g = 2 then [(''Connection'', if wb_keep_alive g then ''Keep-Alive'' else ''close'')] else [])"

text \<open>A request for a page, with a method that both servers know, without a proxy and not in the
  style of HTTP/0.9; the URL passes the checks and its names fit.\<close>

definition page_ok :: "wb_globals \<Rightarrow> HttpMethod \<Rightarrow> string \<Rightarrow> string \<Rightarrow> bool" where
  "page_ok g m a p \<longleftrightarrow> proxyhost g = None \<and> adjust_http10 g \<in> {1, 2} \<and> wb_method_name (wb_method g) = method_name m \<and>
     names_fit a \<and> host_part a \<noteq> [] \<and> length (page_url a p) \<le> 1500 \<and> CHR ''/'' \<notin> set a \<and>
     (\<forall>c \<in> set (a @ p). \<not> isspace c)"

lemma page_parts:
  assumes "CHR ''/'' \<notin> set a"
  shows "url_rest (page_url a p) = a @ CHR ''/'' # p" "authority (a @ CHR ''/'' # p) = a" "authority a = a"
    "host_part (a @ CHR ''/'' # p) = host_part a" "port_part (a @ CHR ''/'' # p) = port_part a"
proof -
  have f: "str_find ''://'' (page_url a p) 0 = Some 4" by (simp add: page_url_def str_find_def)
  show "url_rest (page_url a p) = a @ CHR ''/'' # p" by (simp add: url_rest_def f) (simp add: page_url_def)
  show au: "authority (a @ CHR ''/'' # p) = a" "authority a = a"
    using assms by (auto simp: authority_def takeWhile_append takeWhile_eq_all_conv)
  show "host_part (a @ CHR ''/'' # p) = host_part a" "port_part (a @ CHR ''/'' # p) = port_part a"
    by (simp_all add: host_part_def port_part_def au)
qed

lemma page_url_ok: "page_ok g m a p \<Longrightarrow> url_ok (page_url a p)"
  using page_parts(1) [of a p]
  by (auto simp: url_ok_def page_ok_def) (simp_all add: page_url_def str_find_def to_lower_def tolower_def)

lemma build_page:
  assumes ok: "page_ok g m a p"
  shows "\<exists>g'. build_request (page_url a p) g = WB_ok g' \<and>
    wb_request g' = request_bytes m p (wb_version g) (wb_headers g (host_part a))"
proof -
  have c: "proxyhost g = None" "CHR ''/'' \<notin> set a" "names_fit a" "adjust_http10 g = 1 \<or> adjust_http10 g = 2"
    "wb_method_name (wb_method g) = method_name m" "length (page_url a p) \<le> 1500"
    using ok by (auto simp: page_ok_def)
  note pp = page_parts [OF c(2)]
  have nf: "names_fit (url_rest (page_url a p))" using c(3) by (simp add: names_fit_def pp)
  obtain g1 where g1: "split_url (url_rest (page_url a p)) (prepared g) = WB_ok (g1, CHR ''/'' # p)"
    "wb_host g1 = host_part a" "wb_request g1 = method_name m @ '' ''" "http10 g1 = adjust_http10 g"
    "proxyhost g1 = None" "force_reload g1 = force_reload g" "wb_keep_alive g1 = wb_keep_alive g"
    using split_url_eq [OF nf, of "prepared g"] c by (simp add: pp prepared_def url_parts_def)
  have "length (host_part a) < MAXHOSTNAMELEN" using c(3) by (simp add: names_fit_def)
  then have "length (wb_request g1) + length (CHR ''/'' # p) + length (concat (request_tail g1)) < REQUEST_SIZE"
    using request_tail_length [of g1] method_name_length [of "wb_method g"] g1 c(5,6)
    by (simp add: REQUEST_SIZE_def MAXHOSTNAMELEN_def page_url_def)
  from build_request_eq [OF page_url_ok [OF ok] _ this] g1 c(1) show ?thesis
    using c(4)
    by (auto simp: request_tail_def request_bytes_def req_line_def wb_version_def version_name_def lblock_def lheader_def
        wb_headers_def PROGRAM_VERSION_def)
qed

lemma strip_no_space:
  assumes "\<And>c. c \<in> set s \<Longrightarrow> \<not> isspace c"
  shows "strip s = s"
proof -
  have d: "dropWhile isspace xs = xs" if "\<And>c. c \<in> set xs \<Longrightarrow> \<not> isspace c" for xs
    using that by (cases xs) simp_all
  from d [of s] d [of "rev s"] assms show ?thesis by (simp add: strip_def)
qed

lemma space_chars: "isspace CR" "isspace LF" "isspace (CHR '' '')"
  by (simp_all add: isspace_def CR_def LF_def)

lemma host_chars: "c \<in> set (host_part a) \<Longrightarrow> c \<in> set a"
  by (auto simp: host_part_def authority_def dest!: set_takeWhileD)

lemma request_bytes_print:
  "request_bytes m p v hs = print_head (method_name m) (CHR ''/'' # p) (''HTTP/'' @ version_name v) hs"
proof -
  have "lheader = (\<lambda>x. fst x @ '': '' @ snd x @ CRLF)" by (simp add: lheader_def fun_eq_iff)
  then show ?thesis
    by (simp add: request_bytes_def req_line_def print_head_def lblock_def header_line_def line_block_def comp_def
        case_prod_unfold)
qed

lemma page_lines_ok:
  assumes "page_ok g m a p"
  shows "lines_ok (method_name m) (CHR ''/'' # p) (''HTTP/'' @ version_name (wb_version g)) (wb_headers g (host_part a))"
proof -
  have ns: "\<not> isspace c" if "c \<in> set p \<or> c \<in> set (host_part a)" for c
    using assms that host_chars by (auto simp: page_ok_def)
  have "CR \<notin> set p" "CHR '' '' \<notin> set p" "CR \<notin> set (host_part a)" using ns space_chars by blast+
  moreover have "strip (host_part a) = host_part a" using strip_no_space ns by blast
  ultimately show ?thesis
    by (auto simp: lines_ok_def token_ok_def name_ok_def value_ok_def wb_headers_def method_name_def version_name_def
        strip_def isspace_def CR_def split: HttpMethod.split HttpVersion.split)
qed

lemma page_no_length: "content_length (map_of (lower_keys (wb_headers g h))) = return 0"
  by (simp add: content_length_def lower_keys_def wb_headers_def to_lower_def tolower_def)

text \<open>The request that the load generator builds for a page is parsed by the coroutine server to its
  method, path, version and headers, whatever bytes follow it, and all of it is consumed.\<close>

theorem webbench_parsed:
  assumes "page_ok g m a p"
  shows "\<exists>g'. build_request (page_url a p) g = WB_ok g' \<and>
    try_parse_request (wb_request g' @ rest) =
      Some \<lparr>request = \<lparr>req_method = method_name m, req_target = strip_query (CHR ''/'' # p),
          req_version = ''HTTP/'' @ version_name (wb_version g),
          req_headers = map_of (lower_keys (wb_headers g (host_part a))), req_body = []\<rparr>,
        consumed = length (wb_request g')\<rparr>"
proof -
  obtain g' where g': "build_request (page_url a p) g = WB_ok g'"
    "wb_request g' = request_bytes m p (wb_version g) (wb_headers g (host_part a))"
    using build_page [OF assms] by blast
  have "length (wb_request g') < REQUEST_SIZE"
    using build_request_fits_lemma [of g "page_url a p"] g'(1) assms page_parts
    by (auto simp: page_ok_def names_fit_def)
  then have "length (wb_request g') < size_max" by (simp add: REQUEST_SIZE_def size_max_def)
  then show ?thesis
    using try_parse_lines [OF page_lines_ok [OF assms], of "[]" rest] page_no_length g'
    by (simp add: request_bytes_print)
qed

text \<open>For the reactor it is a well-formed request too.\<close>

lemma page_request_ok:
  assumes "page_ok g m a p" "p \<noteq> []" "method_clear m (req_line m p (wb_version g))"
  shows "request_ok m p (wb_version g) (wb_headers g (host_part a))" "m \<noteq> METHOD_POST"
proof -
  let ?hs = "wb_headers g (host_part a)"
  obtain g' where g': "build_request (page_url a p) g = WB_ok g'" "wb_request g' = request_bytes m p (wb_version g) ?hs"
    using build_page [OF assms(1)] by blast
  have len: "length (wb_request g') < REQUEST_SIZE"
    using build_request_fits_lemma [of g "page_url a p"] g'(1) assms(1) page_parts
    by (auto simp: page_ok_def names_fit_def)
  have ns: "\<not> isspace c" if "c \<in> set p \<or> c \<in> set (host_part a)" for c
    using assms(1) that host_chars by (auto simp: page_ok_def)
  have "list_all lheader_ok ?hs"
    using assms(1) ns space_chars
    by (auto simp: wb_headers_def lheader_ok_def lkey_ok_def lvalue_ok_def page_ok_def names_fit_def MAXHOSTNAMELEN_def
        CR_def LF_def)
  then show "request_ok m p (wb_version g) ?hs"
    using assms ns space_chars g' len by (auto simp: request_ok_def wb_headers_def REQUEST_SIZE_def)
  show "m \<noteq> METHOD_POST" using assms(1) by (auto simp: page_ok_def wb_method_name_def method_name_def split: if_splits)
qed

lemma wb_page_ok: "page_ok wb_init METHOD_GET ''h:80'' ''a?x''"
  by (simp add: page_ok_def wb_init_def adjust_http10_def wb_method_name_def WB_GET_def WB_HEAD_def WB_OPTIONS_def
      WB_TRACE_def method_name_def names_fit_def host_part_def port_part_def authority_def MAXHOSTNAMELEN_def
      page_url_def isspace_def)

theorem webbench_parsed_witness:
  "\<exists>g'. build_request (page_url ''h:80'' ''a?x'') wb_init = WB_ok g' \<and>
    try_parse_request (wb_request g' @ ''GET'') =
      Some \<lparr>request = \<lparr>req_method = method_name METHOD_GET, req_target = strip_query ''/a?x'',
          req_version = ''HTTP/'' @ version_name (wb_version wb_init),
          req_headers = map_of (lower_keys (wb_headers wb_init (host_part ''h:80''))), req_body = []\<rparr>,
        consumed = length (wb_request g')\<rparr>"
  using webbench_parsed [OF wb_page_ok, of "''GET''"] by simp

theorem wb_main_well_formed_witness:
  "\<exists>g. wb_main [Set_force, Opt (CHR ''2'') []] (Some (page_url ''h:80'' ''a?x'')) = WB_ok g \<and> wb_typed g \<and> http10 g \<in> {0, 1, 2}"
proof -
  let ?g = "wb_init\<lparr>force := True, http10 := 2\<rparr>"
  have "page_ok ?g METHOD_GET ''h:80'' ''a?x''"
    using wb_page_ok
    by (simp add: page_ok_def wb_init_def adjust_http10_def WB_GET_def WB_HEAD_def WB_OPTIONS_def WB_TRACE_def)
  then obtain g where g: "build_request (page_url ''h:80'' ''a?x'') ?g = WB_ok g" using build_page by blast
  then have m: "wb_main [Set_force, Opt (CHR ''2'') []] (Some (page_url ''h:80'' ''a?x'')) = WB_ok g"
    by (simp add: wb_main_def wb_init_def)
  from wb_main_well_formed [OF this] m show ?thesis by (auto simp: opt_ok_def wb_typed_def)
qed

section \<open>The client accounts for every try\<close>

lemma bench_loop_ok:
  assumes "speed b + failed b = int (tries b)" "closed b = opened b" "0 \<le> failed b"
  shows "\<exists>f \<ge> 0. failed (bench_loop g sc b) = (if 0 < f then f - 1 else f) \<and>
    speed (bench_loop g sc b) + f = int (tries (bench_loop g sc b)) \<and> closed (bench_loop g sc b) = opened (bench_loop g sc b)"
  using assms
proof (induction g sc b rule: bench_loop.induct)
  case (1 g sc b)
  show ?case
  proof (cases "case bs_expired sc of [] \<Rightarrow> True | e # es \<Rightarrow> e")
    case True
    then have "bench_loop g sc b = bench_done b" by (subst bench_loop.simps) (simp split: list.splits)
    then show ?thesis using "1.prems" by (intro exI [of _ "failed b"]) (simp add: bench_done_def)
  next
    case False
    then obtain es where es: "bs_expired sc = False # es" by (auto split: list.splits)
    obtain sc' b' where t: "bench_try g (sc\<lparr>bs_expired := es\<rparr>) b = (sc', b')" by (metis surj_pair)
    then have r: "bench_loop g sc b = bench_loop g sc' b'" by (subst bench_loop.simps) (simp add: es)
    have "turn_ok (sc\<lparr>bs_expired := es\<rparr>) b (sc', b')" using bench_try_ok [of "sc\<lparr>bs_expired := es\<rparr>" b g] t by simp
    then have "speed b' + failed b' = int (tries b')" "closed b' = opened b'" "0 \<le> failed b'"
      using "1.prems" by (auto simp: turn_ok_def)
    from "1.IH" [OF es _ t [symmetric] this] show ?thesis unfolding r by simp
  qed
qed

text \<open>C38. A client without keep-alive returns, whatever its system calls do, once the alarm is seen: it has
  closed exactly the sockets it opened, in order, and every try is one success or one failure, of
  which one failure is taken back at the end as the work of the alarm.\<close>

theorem benchcore_accounts:
  assumes "\<not> wb_keep_alive g" "bs_sigaction sc = 0"
  shows "\<exists>b f. benchcore g sc = Bench_done b \<and> closed b = opened b \<and> 0 \<le> f \<and> failed b = (if 0 < f then f - 1 else f) \<and>
    speed b + f = int (tries b)"
  using assms bench_loop_ok [of bench_start g sc] by (auto simp: benchcore_def bench_start_def)

theorem benchcore_accounts_witness:
  "\<exists>b f. benchcore wb_init \<lparr>bs_sigaction = 0, bs_expired = [False, False, False, True], bs_sockets = [3], bs_writes = [0],
      bs_shutdowns = [], bs_reads = [], bs_closes = []\<rparr> = Bench_done b \<and> closed b = opened b \<and> 0 \<le> f \<and>
    failed b = (if 0 < f then f - 1 else f) \<and> speed b + f = int (tries b)"
  by (rule benchcore_accounts) (simp_all add: wb_init_def)

text \<open>With keep-alive a failed read leaves the closed descriptor in use: the next write fails on it and
  the descriptor, which may by then belong to another file of the process, is closed again.\<close>

lemma keep_alive_closes_twice:
  assumes "wb_keep_alive g" "\<not> force g" "s \<ge> 0" "s' \<noteq> -1" "n \<noteq> int (length (wb_request g))"
  shows "\<exists>b. benchcore g \<lparr>bs_sigaction = 0, bs_expired = [False, False, False], bs_sockets = [s, s'], bs_writes = [int (length (wb_request g)), n],
      bs_shutdowns = [], bs_reads = [-1], bs_closes = []\<rparr> = Bench_done b \<and> closed b = [s, s]"
  using assms
  by (simp add: benchcore_def bench_result_of_def keep_loop.simps keep_try_def keep_read_def next_of_def Let_def fail_def close_fd_def
      bench_start_def bench_done_def)

text \<open>With keep-alive a client of a server that is gone does not return, although its alarm has gone off:
  the loop that connects does not look at it.\<close>

lemma keep_alive_hangs:
  assumes "wb_keep_alive g" "list_all (\<lambda>s. s = -1) (bs_sockets sc)" "bs_sigaction sc = 0"
  shows "benchcore g sc = Bench_hangs"
proof -
  have "list_all (\<lambda>s. s = -1) ss \<Longrightarrow> connect_loop ss = None" for ss by (induction ss) simp_all
  then show ?thesis using assms by (simp add: benchcore_def)
qed

section \<open>The parent adds up its clients\<close>

lemma add_int_exact: "- (2 ^ 31) \<le> a + b \<Longrightarrow> a + b < 2 ^ 31 \<Longrightarrow> add_int a b = a + b"
  by (simp only: add_int_def sint_sbintrunc') (simp add: signed_take_bit_int_eq_self)

definition child_line :: "wb_sums \<Rightarrow> int \<times> wb_sums" where
  "child_line x = (3, x)"

text \<open>What the clients report is a count of successes, of failures and of bytes, none of them negative.\<close>

definition sums_ok :: "wb_sums \<Rightarrow> bool" where
  "sums_ok x \<longleftrightarrow> (case x of (i, j, k) \<Rightarrow> 0 \<le> i \<and> 0 \<le> j \<and> 0 \<le> k)"

definition sums_of :: "wb_sums list \<Rightarrow> wb_sums" where
  "sums_of xs = (sum_list (map fst xs), sum_list (map (fst \<circ> snd) xs), sum_list (map (snd \<circ> snd) xs))"

definition sums_fit :: "wb_sums \<Rightarrow> bool" where
  "sums_fit x \<longleftrightarrow> (case x of (i, j, k) \<Rightarrow> i < 2 ^ 31 \<and> j < 2 ^ 31 \<and> k < 2 ^ 31)"

lemma sums_of_ok: "list_all sums_ok xs \<Longrightarrow> sums_ok (sums_of xs)"
  by (induction xs) (auto simp: sums_of_def sums_ok_def)

lemma collect_sums:
  assumes "xs \<noteq> []" "list_all sums_ok xs" "0 \<le> a" "0 \<le> b" "0 \<le> c"
    "sums_of xs = (p, q, r)" "a + p < 2 ^ 31" "b + q < 2 ^ 31" "c + r < 2 ^ 31"
  shows "collect (map child_line xs @ later) (int (length xs)) i0 (a, b, c) = ((a + p, b + q, c + r), 0, fst (last xs))"
  using assms
proof (induction xs arbitrary: a b c p q r i0)
  case (Cons x xs)
  obtain i j k where x: "x = (i, j, k)" by (metis surj_pair)
  obtain p' q' r' where s: "sums_of xs = (p', q', r')" by (metis surj_pair)
  have pos: "0 \<le> p'" "0 \<le> q'" "0 \<le> r'" "0 \<le> i" "0 \<le> j" "0 \<le> k"
    using Cons.prems(2) sums_of_ok [of xs] by (auto simp: s x sums_ok_def [of "(u, v)" for u v])
  have e: "p = i + p'" "q = j + q'" "r = k + r'" using Cons.prems(6) s by (auto simp: sums_of_def x)
  have add: "add_int a i = a + i" "add_int b j = b + j" "add_int c k = c + k"
    using Cons.prems(3-5,7-9) pos by (auto intro!: add_int_exact simp: e)
  show ?case
  proof (cases "xs = []")
    case True
    then show ?thesis using Cons.prems(6) using add by (auto simp: child_line_def x sums_of_def)
  next
    case False
    then have "collect (map child_line xs @ later) (int (length xs)) i (a + i, b + j, c + k)
        = ((a + i + p', b + j + q', c + k + r'), 0, fst (last xs))"
      using Cons.prems pos by (intro Cons.IH) (auto simp: s e)
    then show ?thesis using False by (simp add: child_line_def [of "(i, j, k)"] x add e algebra_simps)
  qed
qed simp

lemma fork_loop_parent: "list_all (\<lambda>p. 0 < p) pids \<Longrightarrow> n \<noteq> 0 \<Longrightarrow> 0 < fork_loop n pids pid"
proof (induction n arbitrary: pids pid)
  case (Suc n)
  then show ?case using Suc.IH [of "tl pids"] by (cases n; cases pids) (simp_all add: next_of_def)
qed simp

text \<open>When every client of a run reports and the totals fit an \<^verbatim>\<open>int\<close>, the parent prints the exact sums of
  the successes, failures and bytes of its clients; but what it returns, and so the exit status of the
  program, is the number of successes of the client that reported last.\<close>

theorem bench_totals:
  assumes start: "fst (Socket (be_probe e)) \<ge> 0" "be_pipe e = 0" "be_fdopen e" "list_all (\<lambda>p. 0 < p) (be_forks e)"
    and clients: "clients g = int (length xs)" "xs \<noteq> []" "list_all sums_ok xs" "be_results e = map child_line xs @ later"
    and fit: "sums_fit (sums_of xs)"
  shows "bench e g = Some (fst (last xs), Totals (sums_of xs))"
proof -
  obtain p q r where s: "sums_of xs = (p, q, r)" by (metis surj_pair)
  have "0 < fork_loop (length xs) (be_forks e) 0" using fork_loop_parent start(4) clients(2) by simp
  then show ?thesis
    using start clients fit s collect_sums [OF clients(2,3), of 0 0 0 p q r later]
    by (simp add: bench_def sums_fit_def Let_def)
qed

theorem bench_totals_witness:
  "bench \<lparr>be_probe = \<lparr>se_addr = True, se_host = False, se_socket = 3, se_connect = 0\<rparr>, be_pipe = 0, be_forks = [8, 9],
      be_fdopen = True, be_results = map child_line [(5, 1, 90), (7, 0, 10)] @ [], 
      be_script = \<lparr>bs_sigaction = 0, bs_expired = [], bs_sockets = [], bs_writes = [], bs_shutdowns = [], bs_reads = [], bs_closes = []\<rparr>\<rparr>
     (wb_init\<lparr>clients := 2\<rparr>) = Some (7, Totals (sums_of [(5, 1, 90), (7, 0, 10)]))"
  using bench_totals [where xs = "[(5, 1, 90), (7, 0, 10)]" and later = "[]"]
  by (simp add: Socket_def wb_init_def sums_ok_def sums_fit_def sums_of_def)

end
