(* ===== verification/Spec2Isabelle.thy ===== *)
theory Spec2Isabelle
  imports CoroutineMain CoServing LogRingSpec MemoryResource HttpDataSpec ThreadPool AsyncLogging EventLoop Reactor WakeChannel Monitor WebBenchSpec
begin

text \<open>
  A verification development of CorioWebServer, a repository with two HTTP servers that share no
  code: a coroutine server on \<^verbatim>\<open>io_uring\<close> (\<^verbatim>\<open>WebServer/coroutineWebServer\<close>) and the older
  reactor on \<^verbatim>\<open>epoll\<close> (\<^verbatim>\<open>WebServer\<close> with its library \<^verbatim>\<open>WebServer/base\<close>), and the load generator
  that is run against them (\<^verbatim>\<open>WebBench\<close>). All are modelled by
  functions and step relations over explicit states, translated from the sources; the names of
  definitions are the names of the code where the logic allows it.

  \<^bold>\<open>The coroutine server.\<close>
  \<^item> \<^verbatim>\<open>Types\<close> (\<^verbatim>\<open>Types.h\<close>): the descriptor owner \<^verbatim>\<open>UniqueFd\<close>, requests, responses and their wire
    image, the test that a path stays inside the document root. \<^verbatim>\<open>Ownership\<close> states once, as a
    locale, what owning a resource exactly once means; descriptors and coroutine frames are its
    interpretations. \<^verbatim>\<open>FsPath\<close> models the part of \<^verbatim>\<open>std::filesystem::path\<close> that is used.
  \<^item> \<^verbatim>\<open>HttpParser\<close>, \<^verbatim>\<open>HttpFiles\<close>, \<^verbatim>\<open>HttpConnection\<close>, \<^verbatim>\<open>HttpServer\<close> (\<^verbatim>\<open>HttpServer.cpp\<close>,
    \<^verbatim>\<open>CoroutineMain.cpp\<close>): the request parser, the answers over a file system argument, the read and
    write coroutines over a script of socket results, and the life of the server with its threads.
    Shown: a printed request parses back, in whatever pieces it arrives and whatever follows it; a
    malformed head never parses; a target without a double slash never leaves the document root and
    one with it does; the connection answers the requests it is sent; no exception escapes; clients
    are spread evenly; the shutdown completes, and the case in which it hangs.
  \<^item> \<^verbatim>\<open>CoroutineMain\<close> (\<^verbatim>\<open>CoroutineMain.cpp\<close>): \<^verbatim>\<open>main\<close> from the command line over the signals to the
    shutdown, composed of the server and the logger. Shown: after a signal it joins every thread that
    had begun and returns with every line in the log file; the run in which it waits for ever.
  \<^item> \<^verbatim>\<open>UringScheduler\<close>, \<^verbatim>\<open>Task\<close>: operations, queues and the run loop; promises, awaiters and frames.
    Shown: an operation resumes its coroutine once, a round runs everything queued before it in
    order, the loop ends exactly when stop comes during it, every frame has one owner; \<^verbatim>\<open>Task<void>\<close>
    agrees with the template.
  \<^item> \<^verbatim>\<open>CoServing\<close>: the coroutines of the connections on the scheduler: the code of \<^verbatim>\<open>handle_connection\<close> and of the
    coroutines it awaits, cut at every \<^verbatim>\<open>co_await\<close>, as connections that a worker starts from its posts and
    resumes with the results of their operations. Shown, for any number of connections and completions in any
    order: each connection is the handler of \<^verbatim>\<open>HttpConnection\<close> on its own results, none disturbs
    another, and one that has ended has sent the answers to its client; the root theory
    instantiates this with the requests of the load generator. A connection that has been suspended is never
    destroyed.
  \<^item> \<^verbatim>\<open>MemoryResource\<close>: the pool of each thread and which thread takes and gives back the memory of a
    frame. Shown: every frame goes back to its own pool but that of the accept loop, which does not.
  \<^item> \<^verbatim>\<open>AsyncLogger\<close>: the lock-free ring with its 64-bit sequence numbers and the logger around it;
    \<^verbatim>\<open>BoundedQueue\<close> is the interface (a locale) of a bounded queue. Shown: the ring refines a
    bounded list over every sequence of calls, across the wrap of its counters, and what was logged
    before stop is in the file. \<^verbatim>\<open>LogRing\<close> and \<^verbatim>\<open>LogRingSpec\<close> have the ring with each load, store and
    compare-exchange as a step of any number of threads. Shown, up to \<open>2 ^ 62\<close> lines of a run: it
    refines a bounded queue; with one consumer nothing is lost, doubled or reordered; what a
    refusal means; a thread alone ends within six statements; the calls that \<^verbatim>\<open>AsyncLogger\<close> uses are the
    statements of one thread alone; and a stalled producer hides lines that are in the ring.

  \<^bold>\<open>The reactor.\<close>
  \<^item> \<^verbatim>\<open>Util\<close>, \<^verbatim>\<open>HttpData\<close>, \<^verbatim>\<open>HttpDataSpec\<close> (\<^verbatim>\<open>Util.cpp\<close>, \<^verbatim>\<open>HttpData.cpp\<close>): the I/O loops, the
    parsers and handlers of a connection. Shown: a well-formed request is answered with the file,
    however it is cut into reads and writes; what happens to pipelined requests, missing files and
    requests without headers.
  \<^item> \<^verbatim>\<open>Timer\<close> (\<^verbatim>\<open>Timer.cpp\<close>): timer nodes and the manager over a priority queue (the locale
    \<^verbatim>\<open>min_queue\<close>, interpreted on sorted lists). Shown: an expiry round closes exactly the connections
    whose time has come; a timer set before the wrap of the clock does not expire in time.
  \<^item> \<^verbatim>\<open>Poller\<close>, \<^verbatim>\<open>PollerSpec\<close> (\<^verbatim>\<open>Channel\<close>, \<^verbatim>\<open>Epoll\<close>): dispatch of events, the tables of the poller
    and the shared pointers to the connections of a loop, composed with the handlers of \<^verbatim>\<open>HttpData\<close>
    and the timers, as a step relation. Shown, for every run: a channel in the table belongs to a
    live connection, a live connection has an owner and at most one timer, none is destroyed twice;
    an expired connection is destroyed; a half-closed one with output left is never closed.
  \<^item> \<^verbatim>\<open>EventLoop\<close>, \<^verbatim>\<open>WakeChannel\<close> (\<^verbatim>\<open>EventLoop\<close>, \<^verbatim>\<open>EventLoopThread\<close>, \<^verbatim>\<open>EventLoopThreadPool\<close>): the functor queue and
    the wake-up descriptor against other threads, and its channel in the poller. Shown: functors run
    once and in order, no wake-up is lost, the descriptor stays watched, the pool hands out its loops in turn; the destructor that hangs.
  \<^item> \<^verbatim>\<open>Server\<close> (\<^verbatim>\<open>Server\<close>, \<^verbatim>\<open>Main.cpp\<close>): the set-up and the listening channel. Shown: a set-up that
    does not abort is accepting on a valid port; every waiting connection goes to the loop whose
    turn it is and the listener stays armed; the failure that switches it off.
  \<^item> \<^verbatim>\<open>Reactor\<close>: the server, the pollers of all its loops and the table of open descriptors as one system
    in which accepting and the steps of the loops interleave. Shown, for every run: a descriptor of a
    client is open because exactly one live connection has it or because it was lost; there are fewer
    than 100000 connections; and a new client is accepted, registered and answered, one exchange
    after the other. The root theory adds that this holds from every set-up that does not abort and
    for the requests that the load generator builds.
  \<^item> \<^verbatim>\<open>ThreadPool\<close>: the task ring (an interpretation of the bounded queue) and its workers. Shown:
    tasks are begun in the order they were added and once, no signal is lost, a graceful shutdown
    runs every accepted task; the second destroy that keeps the mutex.
  \<^item> \<^verbatim>\<open>LogStream\<close>, \<^verbatim>\<open>AsyncLogging\<close>, \<^verbatim>\<open>Thread\<close> (\<^verbatim>\<open>base\<close>): fixed buffers and number printing, the
    double-buffered log thread down to the file, starting a thread and its latch. Shown: the table
    conversion prints decimal numbers, no insertion leaves the buffer, lines reach the file in order
    unless buffers are dropped, which lines stop loses; \<^verbatim>\<open>start\<close> returns with the thread running.
  \<^item> \<^verbatim>\<open>Monitor\<close> (\<^verbatim>\<open>MutexLock.h\<close>, \<^verbatim>\<open>Condition.h\<close>): the mutex, the condition, with wake-ups that have no
    cause, and the latch statement by statement. Shown: mutual exclusion, no wait returns early or is
    left asleep, and the latch with one step for each call that \<^verbatim>\<open>Thread\<close> uses is an abstraction.

  \<^bold>\<open>The load generator.\<close>
  \<^item> \<^verbatim>\<open>WebBench\<close>, \<^verbatim>\<open>WebBenchSpec\<close> (\<^verbatim>\<open>webbench.c\<close>, \<^verbatim>\<open>socket.c\<close>): options, the request in its fixed buffers,
    the client with and without keep-alive over a script of socket results, forking and the sums of
    the parent. Shown: exactly which URLs overrun a buffer; what is well formed after the set-up; the
    coroutine server parses the request to what was asked; a client without keep-alive returns with
    every socket closed and every try counted; the totals are exact, and the exit status is not what
    the comment says; with keep-alive a descriptor can be closed twice and the client need not end.

  \<^bold>\<open>Conventions.\<close> \<^verbatim>\<open>Prelude\<close> holds the shared types, the text functions of the C++ library and their
  lemmas. Results of system calls, files, clocks and schedules are arguments, usually a list that is
  consumed; at its end a non-blocking call reports that it would block. Exceptions are values of a
  sum type, failing assertions and aborts are \<open>None\<close>. A critical section under a mutex is one step
  of a step relation, and what a thread does between two of them another. Integers have the width of
  the code where a test or a wrap depends on it (events are 32-bit words, ring counters and expiry
  times are taken modulo \<open>2 ^ 64\<close>). Loops are recursive functions with a termination proof
  (\<^verbatim>\<open>handleRead\<close>, \<^verbatim>\<open>handleExpiredEvent\<close>, the parsers); where the code can spin, as the compare-exchange loops of the
  ring, the function returns an option and its termination is proved for the states that are reached.
  Coroutines run between two suspensions as a function; the frames of a connection have one handle,
  and the ring of the kernel is taken to have room for their entries.

  \<^bold>\<open>Not modelled.\<close> The bodies of \<^verbatim>\<open>liburing\<close>, of the kernel and of the \<^verbatim>\<open>std::pmr\<close> pools and \<^verbatim>\<open>mimalloc\<close>
  (their results are arguments, their contracts are stated where they are used), what is printed by
  \<^verbatim>\<open>perror\<close>, by the usage texts and by the report of the load generator, the formatting of floating point
  numbers and of the time, memory orders weaker than sequential consistency (an atomic operation is
  one step on one memory), \<^verbatim>\<open>noncopyable\<close> and the build configuration, and the two test drivers.
\<close>

section \<open>The load generator against the reactor\<close>

text \<open>An exchange of a client that sends what the load generator builds for a page: the bytes arrive in any
  pieces, the page is one of the files, and the socket takes the answer in any pieces.\<close>

definition wb_exchange :: "legacy_fs \<Rightarrow> lworld \<Rightarrow> string \<Rightarrow> bool" where
  "wb_exchange fs w reply \<longleftrightarrow> (\<exists>g m a p g' ds f sz bdy ks. page_ok g m a p \<and> p \<noteq> [] \<and>
     method_clear m (req_line m p (wb_version g)) \<and> build_request (page_url a p) g = WB_ok g' \<and>
     lw_reads w = map Rd ds \<and> list_all (\<lambda>x. x \<noteq> []) ds \<and> concat ds = wb_request g' \<and>
     f = takeWhile (\<lambda>c. c \<noteq> CHR ''?'') p \<and> servable fs m f sz bdy \<and>
     reply = ok_reply m f (keep_asked (wb_headers g (host_part a))) sz bdy \<and>
     lw_writes w = map Wr ks \<and> length reply \<le> sum_list ks)"

lemma wb_exchange_ok:
  assumes "wb_exchange fs w reply"
  shows "exchange_ok fs w reply"
proof -
  obtain g m a p g' ds f sz bdy ks where x: "page_ok g m a p" "p \<noteq> []" "method_clear m (req_line m p (wb_version g))"
    "build_request (page_url a p) g = WB_ok g'" "lw_reads w = map Rd ds" "list_all (\<lambda>x. x \<noteq> []) ds"
    "concat ds = wb_request g'" "f = takeWhile (\<lambda>c. c \<noteq> CHR ''?'') p" "servable fs m f sz bdy"
    "reply = ok_reply m f (keep_asked (wb_headers g (host_part a))) sz bdy" "lw_writes w = map Wr ks" "length reply \<le> sum_list ks"
    using assms unfolding wb_exchange_def by metis
  have "concat ds = request_bytes m p (wb_version g) (wb_headers g (host_part a))" using build_page [OF x(1)] x(4,7) by auto
  then show ?thesis unfolding exchange_ok_def
    using page_request_ok [OF x(1-3)] x(5,6,9-12) unfolding x(8) by metis
qed



section \<open>The load generator against the coroutine server\<close>

text \<open>A page that a client asks for: the options of the load generator, the method, the authority and the path of
  the URL; the bytes that it sends, and the request in them.\<close>

type_synonym wb_page = "wb_globals \<times> HttpMethod \<times> string \<times> string"

fun page_asked :: "wb_page \<Rightarrow> bool" where
  "page_asked (g, m, a, p) = page_ok g m a p"

fun page_bytes :: "wb_page \<Rightarrow> string" where
  "page_bytes (g, m, a, p) = (case build_request (page_url a p) g of WB_ok g' \<Rightarrow> wb_request g' | _ \<Rightarrow> [])"

fun page_creq :: "wb_page \<Rightarrow> creq" where
  "page_creq (g, m, a, p) = \<lparr>cr_method = method_name m, cr_target = CHR ''/'' # p,
     cr_version = ''HTTP/'' @ version_name (wb_version g), cr_headers = wb_headers g (host_part a), cr_body = []\<rparr>"

lemma page_creq_ok:
  assumes "page_asked x"
  shows "creq_ok (page_creq x)" "creq_wire (page_creq x) = page_bytes x" "length (page_bytes x) < REQUEST_SIZE"
proof -
  obtain g m a p where x: "x = (g, m, a, p)" by (metis prod_cases4)
  then have ok: "page_ok g m a p" using assms by simp
  obtain g' where g': "build_request (page_url a p) g = WB_ok g'"
    "wb_request g' = request_bytes m p (wb_version g) (wb_headers g (host_part a))"
    using build_page [OF ok] by blast
  show "creq_ok (page_creq x)" using page_lines_ok [OF ok] page_no_length by (simp add: x creq_ok_def)
  show "creq_wire (page_creq x) = page_bytes x" using g' by (simp add: x creq_wire_def request_bytes_print)
  show "length (page_bytes x) < REQUEST_SIZE"
    using build_request_fits_lemma [of g "page_url a p"] g'(1) ok page_parts by (auto simp: x page_ok_def names_fit_def)
qed

lemma page_stream: "list_all page_asked xs \<Longrightarrow> stream (map page_creq xs) = concat (map page_bytes xs)"
  by (induction xs) (simp_all add: stream_def page_creq_ok)

lemma request_small: "n < REQUEST_SIZE \<Longrightarrow> n < size_max \<and> 2 * n < size_max"
  by (simp add: REQUEST_SIZE_def size_max_def)

text \<open>C4. The load generator and the coroutine server together: a client that a worker has as its \<open>h\<close>-th
  connection sends the requests of the load generator for some pages, one after the other, while other
  connections of the worker do anything. When its connection has ended, with no failed receive and every
  send taking at least a byte, it has been sent the responses to its pages in
  order, up to the first that does not keep the connection.\<close>

theorem coroutine_answers_webbench:
  assumes "worker_after fs docroot who queue_init entries rds = Inr s" "list_all round_plain rds"
    and "ce_conns (sc_env s) h = Some c" "cn_at c = Cn_end" "received_ok c" "list_all progress (cn_sends c)"
    and "who (sc_ran s ! h) = (f, [], concat (map page_bytes pages))" "0 \<le> f"
    and "list_all page_asked pages" "2 * length (concat (map page_bytes pages)) < size_max"
  shows "cn_out c = answers fs docroot (map page_creq pages)"
proof (rule ended_answers [OF assms(1-4)])
  show "who (sc_ran s ! h) = (f, [], stream (map page_creq pages))" using assms(7,9) by (simp add: page_stream)
  show "list_all creq_ok (map page_creq pages)" using assms(9) by (simp add: list_all_iff page_creq_ok)
  show "2 * length (stream (map page_creq pages)) < size_max" using assms(9,10) by (simp add: page_stream)
qed (use assms in simp_all)

theorem coroutine_answers_webbench_witness:
  "\<exists>s c. ce_conns (sc_env s) 0 = Some c \<and>
     cn_out c = answers sample_fs ''/srv'' [page_creq (wb_init, METHOD_GET, ''h:80'', ''a?x'')] \<and>
     (\<exists>who rds. worker_after sample_fs ''/srv'' who (\<lambda>n. 3) 256 rds = Inr s)"
proof -
  define x :: wb_page where "x = (wb_init, METHOD_GET, ''h:80'', ''a?x'')"
  let ?q = "page_creq x" and ?fs = sample_fs and ?d = "''/srv''"
  have x: "page_asked x" using wb_page_ok by (simp add: x_def)
  note q = page_creq_ok [OF x] and small = request_small [OF page_creq_ok(3) [OF x]]
  obtain s c where s: "worker_after ?fs ?d (sample_who ?q) (\<lambda>n. 3) 256 (sample_round0 ?q # sample_rounds ?fs ?d ?q) = Inr s"
    "sc_ran s ! 0 = 0" "ce_conns (sc_env s) 0 = Some c" "cn_at c = Cn_end" "received_ok c" "list_all progress (cn_sends c)"
    using sample_worker [OF q(1), of ?fs ?d] q(2) small by auto
  have "sample_who ?q (sc_ran s ! 0) = (5, [], concat (map page_bytes [x]))"
    using page_stream [of "[x]"] x by (simp add: s(2) sample_who_def)
  then have "cn_out c = answers ?fs ?d (map page_creq [x])"
    using coroutine_answers_webbench [OF s(1) sample_plain s(3-6), of 5 "[x]"] x small by simp
  then have "cn_out c = answers ?fs ?d [page_creq x]" by (simp only: list.map)
  with s(1,3) show ?thesis unfolding x_def [symmetric] by blast
qed

end
